(* ===== verification/Prelude.thy ===== *)
theory Prelude
  imports Main "HOL-Library.Word"
begin

text \<open>
  What every component of the development shares: the machine types of the C code, the
  result type of a C function that may fail, and generic lemmas on lists and words.

  A C function that can hit a failed \<open>assert\<close>, an access to memory it may not touch, or
  an endless wait for the operating system returns a value of \<open>'a res\<close>: \<open>Inl\<close> a
  \<open>fault\<close>, or \<open>Inr\<close> its result (and the new state). An error that the code reports
  by a return value (\<open>-1\<close>, NULL) is an \<open>Inr\<close>.
\<close>

section \<open>Machine types\<close>

type_synonym byte = "8 word"
type_synonym size_t = "64 word"
type_synonym uint32 = "32 word"

section \<open>Faults and the result type\<close>

datatype fault =
    Assertion        \<comment> \<open>an \<open>assert\<close> of the code failed: the process aborts\<close>
  | Invalid_access   \<comment> \<open>a NULL, dangling or out-of-bounds access\<close>
  | Undefined_value  \<comment> \<open>the value of a function that ended without \<open>return\<close> was needed\<close>
  | Stuck            \<comment> \<open>the script of system-call outcomes ended inside a loop\<close>

type_synonym 'a res = "fault + 'a"

definition bindE :: "'e + 'a \<Rightarrow> ('a \<Rightarrow> 'e + 'b) \<Rightarrow> 'e + 'b" where
  "bindE m f = (case m of Inl e \<Rightarrow> Inl e | Inr x \<Rightarrow> f x)"

definition assertE :: "bool \<Rightarrow> unit res" where
  "assertE b = (if b then Inr () else Inl Assertion)"

definition accessE :: "bool \<Rightarrow> unit res" where
  "accessE b = (if b then Inr () else Inl Invalid_access)"

named_theorems res_simps \<open>inversion of the result monad\<close>

lemma bindE_Inl [simp]: "bindE (Inl e) f = Inl e"
  by (simp add: bindE_def)

lemma bindE_Inr [simp]: "bindE (Inr x) f = f x"
  by (simp add: bindE_def)

lemma bindE_eq_Inr [res_simps]: "bindE m f = Inr y \<longleftrightarrow> (\<exists>x. m = Inr x \<and> f x = Inr y)"
  by (cases m) auto

lemma bindE_eq_Inl [res_simps]:
  "bindE m f = Inl e \<longleftrightarrow> m = Inl e \<or> (\<exists>x. m = Inr x \<and> f x = Inl e)"
  by (cases m) auto

lemma bindE_assoc: "bindE (bindE m f) g = bindE m (\<lambda>x. bindE (f x) g)"
  by (cases m) auto

lemma bindE_right [simp]: "bindE m Inr = m"
  by (cases m) auto

lemma bindE_cong [fundef_cong]:
  "m = m' \<Longrightarrow> (\<And>x. m' = Inr x \<Longrightarrow> f x = f' x) \<Longrightarrow> bindE m f = bindE m' f'"
  by (cases m') auto

lemma assertE_True [simp]: "assertE True = Inr ()"
  by (simp add: assertE_def)

lemma assertE_False [simp]: "assertE False = Inl Assertion"
  by (simp add: assertE_def)

lemma accessE_True [simp]: "accessE True = Inr ()"
  by (simp add: accessE_def)

lemma accessE_False [simp]: "accessE False = Inl Invalid_access"
  by (simp add: accessE_def)

lemma assertE_eq_Inr [res_simps]: "assertE b = Inr u \<longleftrightarrow> b"
  by (simp add: assertE_def)

lemma assertE_eq_Inl [res_simps]: "assertE b = Inl e \<longleftrightarrow> \<not> b \<and> e = Assertion"
  by (auto simp: assertE_def)

lemma accessE_eq_Inr [res_simps]: "accessE b = Inr u \<longleftrightarrow> b"
  by (simp add: accessE_def)

lemma accessE_eq_Inl [res_simps]: "accessE b = Inl e \<longleftrightarrow> \<not> b \<and> e = Invalid_access"
  by (auto simp: accessE_def)

text \<open>
  A C function with a loop that may not end has a value of \<open>'a res option\<close>, \<open>None\<close>
  when it does not return.
\<close>

definition bindT :: "('e + 'a) option \<Rightarrow> ('a \<Rightarrow> ('e + 'b) option) \<Rightarrow> ('e + 'b) option" where
  "bindT m f = (case m of None \<Rightarrow> None | Some r \<Rightarrow> (case r of Inl e \<Rightarrow> Some (Inl e) | Inr x \<Rightarrow> f x))"

lemma bindT_simps [simp]:
  "bindT None f = None" "bindT (Some (Inl e)) f = Some (Inl e)" "bindT (Some (Inr x)) f = f x"
  by (simp_all add: bindT_def)

lemma bindT_eq_Inr [res_simps]:
  "bindT m f = Some (Inr y) \<longleftrightarrow> (\<exists>x. m = Some (Inr x) \<and> f x = Some (Inr y))"
  by (auto simp: bindT_def split: option.splits sum.splits)

section \<open>Overwriting a range of a byte array\<close>

text \<open>
  \<open>splice i new xs\<close> is the array \<open>xs\<close> after \<open>new\<close> has been stored from index
  \<open>i\<close> on, as \<open>memcpy\<close>, \<open>memmove\<close> and \<open>read\<close> do. Callers check
  \<open>i + length new \<le> length xs\<close> first.
\<close>

definition splice :: "nat \<Rightarrow> 'a list \<Rightarrow> 'a list \<Rightarrow> 'a list" where
  "splice i new xs = take i xs @ new @ drop (i + length new) xs"

lemma length_splice [simp]: "i + length new \<le> length xs \<Longrightarrow> length (splice i new xs) = length xs"
  by (simp add: splice_def)

lemma take_splice_before: "n \<le> i \<Longrightarrow> i \<le> length xs \<Longrightarrow> take n (splice i new xs) = take n xs"
  by (simp add: splice_def min_absorb1)

lemma take_splice_upto: "i \<le> length xs \<Longrightarrow> take (i + length new) (splice i new xs) = take i xs @ new"
  by (simp add: splice_def)

lemma take_splice_0: "take (length new) (splice 0 new xs) = new"
  by (simp add: splice_def)

lemma nth_splice_after:
  assumes "i + length new \<le> k" and "k < length xs"
  shows "splice i new xs ! k = xs ! k"
proof -
  have "min (length xs) i = i" and "\<not> k - i < length new" using assms by auto
  with assms show ?thesis by (simp add: splice_def nth_append)
qed

lemma splice_append: "i + length new \<le> length xs \<Longrightarrow> splice i new (xs @ ys) = splice i new xs @ ys"
  by (simp add: splice_def)

lemma splice_Nil [simp]: "splice i [] xs = xs"
  by (simp add: splice_def)

section \<open>Unsigned arithmetic that does not wrap\<close>

lemma unat_add_small: "unat (a :: 64 word) + unat b < 2 ^ 64 \<Longrightarrow> unat (a + b) = unat a + unat b"
  by (simp add: unat_word_ariths)

lemma unat_sub_small: "b \<le> a \<Longrightarrow> unat (a - b :: 'w::len word) = unat a - unat b"
  by (rule unat_sub)

lemma unat_size_t_lt: "unat (a :: size_t) < 2 ^ 64"
  using unsigned_less [of a] by simp

section \<open>Decimal output\<close>

text \<open>\<open>%d\<close> and \<open>%lu\<close> of the \<open>printf\<close> family.\<close>

definition digit :: "nat \<Rightarrow> char" where
  "digit d = char_of (48 + d)"

fun dec :: "nat \<Rightarrow> string" where
  "dec n = (if n < 10 then [digit n] else dec (n div 10) @ [digit (n mod 10)])"

declare dec.simps [simp del]

definition dec_int :: "int \<Rightarrow> string" where
  "dec_int i = (if i < 0 then CHR ''-'' # dec (nat (- i)) else dec (nat i))"

lemma dec_nonempty [simp]: "dec n \<noteq> []"
  by (subst dec.simps) simp

lemma length_dec: "n < 10 ^ Suc k \<Longrightarrow> length (dec n) \<le> Suc k"
proof (induction k arbitrary: n)
  case 0
  then show ?case by (subst dec.simps) simp
next
  case (Suc k)
  then have "n div 10 < 10 ^ Suc k" by (simp add: div_less_iff_less_mult)
  then show ?case using Suc.IH [of "n div 10"] by (subst dec.simps) auto
qed

end
