(* ===== verification/Dlist.thy ===== *)
theory Dlist
  imports Prelude
begin

text \<open>
  The intrusive circular doubly linked list of \<open>list.h\<close>, at the level of its pointers.

  A \<open>struct list_head\<close> is a record of two pointers; the store \<open>lheap\<close> maps the
  locations that hold one to it, and every \<open>p->next\<close> of the code is a look-up that
  faults on NULL and on a location that is not mapped. \<open>dlist h hd xs\<close> says that the
  ring at head \<open>hd\<close> links the nodes \<open>xs\<close> in order, forwards and backwards. The
  locale \<open>ring_store\<close> states what the clients (the memory pool and the connection pool)
  rely on, for any number of rings in one store, and is interpreted on the code's model.
\<close>

section \<open>Locations and nodes\<close>

text \<open>
  A pointer to a list node: NULL, the node of a static variable (\<open>MemPools[i]\<close>,
  \<open>MEM_USED_LIST\<close>, \<open>g_jconnect\<close>), of a local variable (\<open>invaild_conn\<close>), or
  the node at the start of an object that came from \<open>malloc\<close>.
\<close>

datatype loc = Null | Static nat | Stack nat | Heap nat

record list_head =
  nxt :: loc
  prev :: loc

type_synonym lheap = "loc \<Rightarrow> list_head option"

definition rd_node :: "lheap \<Rightarrow> loc \<Rightarrow> list_head res" where
  "rd_node h p = (case h p of
      None \<Rightarrow> Inl Invalid_access
    | Some n \<Rightarrow> if p = Null then Inl Invalid_access else Inr n)"

definition set_nxt :: "loc \<Rightarrow> loc \<Rightarrow> lheap \<Rightarrow> lheap res" where
  "set_nxt p q h = bindE (rd_node h p) (\<lambda>n. Inr (h(p \<mapsto> n\<lparr>nxt := q\<rparr>)))"

definition set_prev :: "loc \<Rightarrow> loc \<Rightarrow> lheap \<Rightarrow> lheap res" where
  "set_prev p q h = bindE (rd_node h p) (\<lambda>n. Inr (h(p \<mapsto> n\<lparr>prev := q\<rparr>)))"

section \<open>The operations of list.h\<close>

definition INIT_LIST_HEAD :: "loc \<Rightarrow> lheap \<Rightarrow> lheap res" where
  "INIT_LIST_HEAD l h = bindE (set_nxt l l h) (set_prev l l)"

text \<open>\<open>__list_add\<close>: the four pointer writes in the order of the source.\<close>

definition list_add_between :: "loc \<Rightarrow> loc \<Rightarrow> loc \<Rightarrow> lheap \<Rightarrow> lheap res" where
  "list_add_between pnew pv nx h =
     bindE (set_prev nx pnew h) (\<lambda>h.
     bindE (set_nxt pnew nx h) (\<lambda>h.
     bindE (set_prev pnew pv h) (\<lambda>h.
     set_nxt pv pnew h)))"

definition list_add :: "loc \<Rightarrow> loc \<Rightarrow> lheap \<Rightarrow> lheap res" where
  "list_add pnew head h = bindE (rd_node h head) (\<lambda>n. list_add_between pnew head (nxt n) h)"

definition list_add_tail :: "loc \<Rightarrow> loc \<Rightarrow> lheap \<Rightarrow> lheap res" where
  "list_add_tail pnew head h = bindE (rd_node h head) (\<lambda>n. list_add_between pnew (prev n) head h)"

text \<open>\<open>__list_del\<close>\<close>

definition list_del_between :: "loc \<Rightarrow> loc \<Rightarrow> lheap \<Rightarrow> lheap res" where
  "list_del_between pv nx h = bindE (set_prev nx pv h) (set_nxt pv nx)"

definition list_del :: "loc \<Rightarrow> lheap \<Rightarrow> lheap res" where
  "list_del entry h =
     bindE (rd_node h entry) (\<lambda>n.
     bindE (list_del_between (prev n) (nxt n) h) (\<lambda>h.
     bindE (set_nxt entry Null h) (\<lambda>h.
     set_prev entry Null h)))"

definition list_is_last :: "loc \<Rightarrow> loc \<Rightarrow> lheap \<Rightarrow> bool res" where
  "list_is_last l head h = bindE (rd_node h l) (\<lambda>n. Inr (nxt n = head))"

definition list_empty :: "loc \<Rightarrow> lheap \<Rightarrow> bool res" where
  "list_empty head h = bindE (rd_node h head) (\<lambda>n. Inr (nxt n = head))"

definition list_is_singular :: "loc \<Rightarrow> lheap \<Rightarrow> bool res" where
  "list_is_singular head h =
     bindE (list_empty head h) (\<lambda>e.
     if e then Inr False else bindE (rd_node h head) (\<lambda>n. Inr (nxt n = prev n)))"

text \<open>
  \<open>list_for_each\<close>: the nodes the cursor visits, in order. On a store that is not a ring
  the loop may not end; then the value is \<open>None\<close>.
\<close>

partial_function (option) for_each_from ::
  "lheap \<Rightarrow> loc \<Rightarrow> loc \<Rightarrow> loc list \<Rightarrow> loc list res option" where
  "for_each_from h head pos acc =
     (if pos = head then Some (Inr (rev acc))
      else (case rd_node h pos of
              Inl e \<Rightarrow> Some (Inl e)
            | Inr n \<Rightarrow> for_each_from h head (nxt n) (pos # acc)))"

definition list_for_each :: "lheap \<Rightarrow> loc \<Rightarrow> loc list res option" where
  "list_for_each h head = (case rd_node h head of
      Inl e \<Rightarrow> Some (Inl e)
    | Inr n \<Rightarrow> for_each_from h head (nxt n) [])"

section \<open>Rings\<close>

text \<open>\<open>link h a b\<close>: \<open>b\<close> follows \<open>a\<close>, and the two nodes agree on it.\<close>

definition link :: "lheap \<Rightarrow> loc \<Rightarrow> loc \<Rightarrow> bool" where
  "link h a b = (case (h a, h b) of
      (Some na, Some nb) \<Rightarrow> nxt na = b \<and> prev nb = a
    | _ \<Rightarrow> False)"

fun chain :: "lheap \<Rightarrow> loc list \<Rightarrow> bool" where
  "chain h (a # b # cs) = (link h a b \<and> chain h (b # cs))"
| "chain h cs = True"

definition dlist :: "lheap \<Rightarrow> loc \<Rightarrow> loc list \<Rightarrow> bool" where
  "dlist h l xs = (Null \<notin> set (l # xs) \<and> distinct (l # xs) \<and> chain h (l # xs @ [l]))"

lemma link_iff: "link h a b \<longleftrightarrow> (\<exists>na nb. h a = Some na \<and> h b = Some nb \<and> nxt na = b \<and> prev nb = a)"
  by (auto simp: link_def split: option.splits)

lemma chain_append [simp]:
  "chain h (as @ b # c # cs) \<longleftrightarrow> chain h (as @ [b]) \<and> link h b c \<and> chain h (c # cs)"
proof (induction as)
  case Nil
  then show ?case by simp
next
  case (Cons a as)
  then show ?case by (cases as) auto
qed

lemma chain_append_Cons [simp]:
  "chain h (a # as @ b # c # cs) \<longleftrightarrow> chain h (a # as @ [b]) \<and> link h b c \<and> chain h (c # cs)"
  using chain_append [of h "a # as" b c cs] by simp

text \<open>
  Only the \<open>next\<close> of all nodes but the last and the \<open>prev\<close> of all nodes but the first
  matter for a chain.
\<close>

lemma link_cong: "map_option nxt (h' a) = map_option nxt (h a) \<Longrightarrow>
   map_option prev (h' b) = map_option prev (h b) \<Longrightarrow> link h a b \<Longrightarrow> link h' a b"
  by (auto simp: link_iff)

lemma chain_frame:
  assumes "chain h cs"
    and "\<And>p. p \<in> set (butlast cs) \<Longrightarrow> map_option nxt (h' p) = map_option nxt (h p)"
    and "\<And>p. p \<in> set (tl cs) \<Longrightarrow> map_option prev (h' p) = map_option prev (h p)"
  shows "chain h' cs"
  using assms
proof (induction h cs rule: chain.induct)
  case (1 h a b cs)
  have "link h' a b" using 1 by (intro link_cong [of h' a h b]) auto
  moreover have "chain h' (b # cs)" using 1 by (cases cs) auto
  ultimately show ?case by simp
qed auto

lemma dlist_frame:
  assumes "dlist h l xs" and "\<And>p. p \<in> set (l # xs) \<Longrightarrow> h' p = h p"
  shows "dlist h' l xs"
  using assms unfolding dlist_def by (auto intro!: chain_frame [of h] dest: in_set_butlastD)

lemma chain_mapped: "chain h cs \<Longrightarrow> 2 \<le> length cs \<Longrightarrow> p \<in> set cs \<Longrightarrow> \<exists>n. h p = Some n"
proof (induction h cs rule: chain.induct)
  case (1 h a b cs)
  then show ?case by (cases cs) (auto simp: link_iff)
qed auto

lemma dlist_mapped: "dlist h l xs \<Longrightarrow> p \<in> set (l # xs) \<Longrightarrow> \<exists>n. h p = Some n \<and> p \<noteq> Null"
  unfolding dlist_def using chain_mapped [of h "l # xs @ [l]" p] by auto

lemma dlist_rd: "dlist h l xs \<Longrightarrow> p \<in> set (l # xs) \<Longrightarrow> \<exists>n. h p = Some n \<and> rd_node h p = Inr n"
  using dlist_mapped [of h l xs p] by (auto simp: rd_node_def)

text \<open>The neighbours of a place in a ring.\<close>

lemma chain_link_at: "chain h (us @ [a, b] @ vs) \<Longrightarrow> link h a b"
  by simp

lemma rd_node_iff: "rd_node h p = Inr n \<longleftrightarrow> h p = Some n \<and> p \<noteq> Null"
  by (auto simp: rd_node_def split: option.splits)

lemma dlist_first: "dlist h l xs \<Longrightarrow> \<exists>n. rd_node h l = Inr n \<and> nxt n = hd (xs @ [l])"
  by (cases xs) (auto simp: dlist_def rd_node_iff link_iff)

lemma dlist_last: "dlist h l xs \<Longrightarrow> \<exists>n. rd_node h l = Inr n \<and> prev n = last (l # xs)"
  by (cases xs rule: rev_cases) (auto simp: dlist_def rd_node_iff link_iff)

lemma dlist_at:
  assumes "dlist h l (xs @ x # ys)"
  shows "\<exists>n. rd_node h x = Inr n \<and> nxt n = hd (ys @ [l]) \<and> prev n = last (l # xs)"
proof -
  have nx: "link h x (hd (ys @ [l]))" using assms by (cases ys) (auto simp: dlist_def)
  have pv: "link h (last (l # xs)) x" using assms
    by (cases xs rule: rev_cases) (auto simp: dlist_def)
  have "x \<noteq> Null" using assms by (auto simp: dlist_def)
  with nx pv show ?thesis by (auto simp: link_iff rd_node_iff)
qed

lemma dlist_not_Null: "dlist h l xs \<Longrightarrow> p \<in> set (l # xs) \<Longrightarrow> p \<noteq> Null"
  by (auto simp: dlist_def)

section \<open>The operations on a ring\<close>

text \<open>
  \<open>frame h h' A\<close>: the stores map the same locations, and differ on \<open>A\<close> only.
\<close>

definition frame :: "lheap \<Rightarrow> lheap \<Rightarrow> loc set \<Rightarrow> bool" where
  "frame h h' A \<longleftrightarrow> dom h' = dom h \<and> (\<forall>p. p \<notin> A \<longrightarrow> h' p = h p)"

lemma frame_dom: "frame h h' A \<Longrightarrow> h' p = None \<longleftrightarrow> h p = None"
  unfolding frame_def by (metis domIff)

text \<open>The effect of the four writes of \<open>__list_add\<close>, whatever aliases what.\<close>

lemma list_add_between_effect:
  assumes "h nx = Some n1" "h pv = Some n2" "h n = Some n3" "Null \<notin> {n, nx, pv}"
    and "n \<notin> {nx, pv}"
  shows "\<exists>h'. list_add_between n pv nx h = Inr h' \<and> link h' pv n \<and> link h' n nx \<and>
     (\<forall>p. p \<noteq> n \<and> p \<noteq> pv \<longrightarrow> map_option nxt (h' p) = map_option nxt (h p)) \<and>
     (\<forall>p. p \<noteq> n \<and> p \<noteq> nx \<longrightarrow> map_option prev (h' p) = map_option prev (h p)) \<and>
     frame h h' {n, pv, nx}"
  using assms
  by (auto simp: list_add_between_def set_prev_def set_nxt_def rd_node_def link_iff frame_def)

text \<open>The effect of \<open>list_del\<close> on the neighbours of \<open>x\<close>.\<close>

lemma list_del_effect:
  assumes "h nx = Some n1" "h pv = Some n2" "rd_node h x = Inr n3" "Null \<notin> {nx, pv}"
    and "x \<notin> {nx, pv}" and "nxt n3 = nx" "prev n3 = pv"
  shows "\<exists>h'. list_del x h = Inr h' \<and> link h' pv nx \<and> h' x = Some \<lparr>nxt = Null, prev = Null\<rparr> \<and>
     (\<forall>p. p \<noteq> x \<and> p \<noteq> pv \<longrightarrow> map_option nxt (h' p) = map_option nxt (h p)) \<and>
     (\<forall>p. p \<noteq> x \<and> p \<noteq> nx \<longrightarrow> map_option prev (h' p) = map_option prev (h p)) \<and>
     frame h h' {x, pv, nx}"
proof -
  have "h x = Some n3" "x \<noteq> Null" using assms(3) by (auto simp: rd_node_iff)
  with assms show ?thesis
    by (auto simp: list_del_def list_del_between_def set_prev_def set_nxt_def link_iff
        frame_def rd_node_def)
qed

text \<open>
  A ring around one of its places: \<open>us\<close> ends with the node before the place, \<open>vs\<close>
  begins with the one after it. What happens at the place leaves both parts chained.
\<close>

lemma ring_parts:
  assumes "dlist h l zs" and "zs = xs @ ms @ ys" and "ms = [] \<or> (\<exists>m. ms = [m])"
  shows "\<exists>us pv nx vs. l # xs = us @ [pv] \<and> ys @ [l] = nx # vs \<and>
    chain h (us @ [pv]) \<and> chain h (nx # vs) \<and>
    pv \<notin> set us \<union> set ys \<union> set ms \<and> nx \<notin> set vs \<union> set xs \<union> set ms"
proof -
  have "chain h (l # xs @ ms @ ys @ [l])" using assms(1,2) by (simp add: dlist_def)
  then have "chain h (l # xs)" and "chain h (ys @ [l])"
    using assms(3) by (cases xs rule: rev_cases; cases ys; auto)+
  moreover have "distinct (l # xs @ ms @ ys)" using assms(1,2) by (simp add: dlist_def)
  ultimately show ?thesis
    by (intro exI [of _ "butlast (l # xs)"] exI [of _ "last (l # xs)"]
        exI [of _ "hd (ys @ [l])"] exI [of _ "tl (ys @ [l])"])
      (cases xs rule: rev_cases; cases ys; auto)
qed

lemma ring_parts_frame:
  assumes "chain h (us @ [pv])" and "chain h (nx # vs)"
    and "\<forall>p. p \<notin> A \<and> p \<noteq> pv \<longrightarrow> map_option nxt (h' p) = map_option nxt (h p)"
    and "\<forall>p. p \<notin> A \<and> p \<noteq> nx \<longrightarrow> map_option prev (h' p) = map_option prev (h p)"
    and "A \<inter> set (us @ pv # nx # vs) = {}"
    and "pv \<notin> set us \<union> set (butlast (nx # vs))" and "nx \<notin> set vs \<union> set (tl (us @ [pv]))"
  shows "chain h' (us @ [pv])" and "chain h' (nx # vs)"
proof -
  have tl: "p \<in> set us \<or> p = pv" if "p \<in> set (tl (us @ [pv]))" for p
    using that by (cases us) auto
  have bl: "p \<in> set vs \<or> p = nx" if "p \<in> set (butlast (nx # vs))" for p
    using that by (auto split: if_splits dest: in_set_butlastD)
  show "chain h' (us @ [pv])"
    using assms(5-7) tl by (intro chain_frame [OF assms(1)] assms(3,4) [rule_format]) fastforce+
  show "chain h' (nx # vs)"
    using assms(5-7) bl by (intro chain_frame [OF assms(2)] assms(3,4) [rule_format]) fastforce+
qed

lemma list_add_between_ring:
  assumes ring: "dlist h l (xs @ ys)" and n: "n \<notin> set (l # xs @ ys)" "n \<noteq> Null" "h n = Some nn"
  shows "\<exists>h'. list_add_between n (last (l # xs)) (hd (ys @ [l])) h = Inr h' \<and>
     dlist h' l (xs @ n # ys) \<and> frame h h' (set (n # l # xs @ ys))"
proof -
  obtain us pv nx vs where xs: "l # xs = us @ [pv]" and ys: "ys @ [l] = nx # vs"
    and ch: "chain h (us @ [pv])" "chain h (nx # vs)"
    and pv: "pv \<notin> set us \<union> set ys" and nx: "nx \<notin> set vs \<union> set xs"
    using ring_parts [OF ring, of xs "[]" ys] by auto
  have sets: "insert l (set xs) = insert pv (set us)" "insert l (set ys) = insert nx (set vs)"
    using arg_cong [OF xs, of set] arg_cong [OF ys, of set] by auto
  have parts: "tl (us @ [pv]) = xs" "butlast (nx # vs) = ys"
    using arg_cong [OF xs, of tl] arg_cong [OF ys, of butlast] by auto
  from sets have mem: "pv \<in> set (l # xs @ ys)" "nx \<in> set (l # xs @ ys)" by auto
  obtain n1 n2 where pre: "h nx = Some n1" "h pv = Some n2" "Null \<notin> {n, nx, pv}" "n \<notin> {nx, pv}"
    using dlist_mapped [OF ring mem(1)] dlist_mapped [OF ring mem(2)] n mem by auto
  from list_add_between_effect [OF pre(1,2) n(3) pre(3,4)]
  obtain h' where h': "list_add_between n pv nx h = Inr h'" "link h' pv n" "link h' n nx"
    "frame h h' {n, pv, nx}"
    and eqs: "\<forall>p. p \<notin> {n} \<and> p \<noteq> pv \<longrightarrow> map_option nxt (h' p) = map_option nxt (h p)"
      "\<forall>p. p \<notin> {n} \<and> p \<noteq> nx \<longrightarrow> map_option prev (h' p) = map_option prev (h p)" by auto
  have "{n} \<inter> set (us @ pv # nx # vs) = {}" using n(1) sets by auto
  from ring_parts_frame [OF ch eqs this, unfolded parts, OF pv nx]
  have "chain h' (us @ pv # n # nx # vs)" using h' by simp
  also have "us @ pv # n # nx # vs = l # (xs @ n # ys) @ [l]" using xs ys
    by (metis append.assoc append_Cons append_Nil)
  finally have "dlist h' l (xs @ n # ys)" using ring n unfolding dlist_def by auto
  moreover have "frame h h' (set (n # l # xs @ ys))" using h'(4) mem by (auto simp: frame_def)
  moreover have "last (l # xs) = pv" "hd (ys @ [l]) = nx" unfolding xs ys by simp_all
  ultimately show ?thesis using h'(1) by auto
qed

lemma list_del_ring:
  assumes ring: "dlist h l (xs @ x # ys)"
  shows "\<exists>h'. list_del x h = Inr h' \<and> dlist h' l (xs @ ys) \<and>
     h' x = Some \<lparr>nxt = Null, prev = Null\<rparr> \<and> frame h h' (set (l # xs @ x # ys))"
proof -
  obtain us pv nx vs where xs: "l # xs = us @ [pv]" and ys: "ys @ [l] = nx # vs"
    and ch: "chain h (us @ [pv])" "chain h (nx # vs)"
    and pv: "pv \<notin> set us \<union> set ys" and nx: "nx \<notin> set vs \<union> set xs" and x: "x \<notin> {nx, pv}"
    using ring_parts [OF ring, of xs "[x]" ys] by auto
  have sets: "insert l (set xs) = insert pv (set us)" "insert l (set ys) = insert nx (set vs)"
    using arg_cong [OF xs, of set] arg_cong [OF ys, of set] by auto
  have parts: "tl (us @ [pv]) = xs" "butlast (nx # vs) = ys"
    using arg_cong [OF xs, of tl] arg_cong [OF ys, of butlast] by auto
  from sets have mem: "pv \<in> set (l # xs @ x # ys)" "nx \<in> set (l # xs @ x # ys)" by auto
  have "last (l # xs) = pv" "hd (ys @ [l]) = nx" unfolding xs ys by simp_all
  then obtain n3 where n3: "rd_node h x = Inr n3" "nxt n3 = nx" "prev n3 = pv"
    using dlist_at [OF ring] by auto
  obtain n1 n2 where pre: "h nx = Some n1" "h pv = Some n2" "Null \<notin> {nx, pv}"
    using dlist_mapped [OF ring mem(1)] dlist_mapped [OF ring mem(2)] by auto
  from list_del_effect [OF pre(1,2) n3(1) pre(3) x n3(2,3)]
  obtain h' where h': "list_del x h = Inr h'" "link h' pv nx"
    "h' x = Some \<lparr>nxt = Null, prev = Null\<rparr>" "frame h h' {x, pv, nx}"
    and eqs: "\<forall>p. p \<notin> {x} \<and> p \<noteq> pv \<longrightarrow> map_option nxt (h' p) = map_option nxt (h p)"
      "\<forall>p. p \<notin> {x} \<and> p \<noteq> nx \<longrightarrow> map_option prev (h' p) = map_option prev (h p)" by auto
  have "x \<notin> set (l # xs @ ys)" using ring by (auto simp: dlist_def)
  then have "{x} \<inter> set (us @ pv # nx # vs) = {}" using sets by auto
  from ring_parts_frame [OF ch eqs this, unfolded parts, OF pv nx]
  have "chain h' (us @ pv # nx # vs)" using h' by simp
  also have "us @ pv # nx # vs = l # (xs @ ys) @ [l]" using xs ys
    by (metis append.assoc append_Cons append_Nil)
  finally have "dlist h' l (xs @ ys)" using ring unfolding dlist_def by auto
  moreover have "frame h h' (set (l # xs @ x # ys))" using h'(4) mem by (auto simp: frame_def)
  ultimately show ?thesis using h'(1,3) by blast
qed

text \<open>The functions of \<open>list.h\<close> on a ring.\<close>

lemma INIT_LIST_HEAD_ring:
  assumes "h l = Some n" "l \<noteq> Null"
  shows "\<exists>h'. INIT_LIST_HEAD l h = Inr h' \<and> dlist h' l [] \<and> frame h h' {l}"
  using assms
  by (auto simp: INIT_LIST_HEAD_def set_nxt_def set_prev_def rd_node_def dlist_def link_iff frame_def)

lemma list_add_ring:
  assumes "dlist h l xs" and "n \<notin> set (l # xs)" "n \<noteq> Null" "h n = Some nn"
  shows "\<exists>h'. list_add n l h = Inr h' \<and> dlist h' l (n # xs) \<and> frame h h' (set (n # l # xs))"
  using dlist_first [OF assms(1)] list_add_between_ring [of h l "[]" xs n nn] assms
  by (auto simp: list_add_def)

lemma list_add_tail_ring:
  assumes "dlist h l xs" and "n \<notin> set (l # xs)" "n \<noteq> Null" "h n = Some nn"
  shows "\<exists>h'. list_add_tail n l h = Inr h' \<and> dlist h' l (xs @ [n]) \<and> frame h h' (set (n # l # xs))"
  using dlist_last [OF assms(1)] list_add_between_ring [of h l xs "[]" n nn] assms
  by (auto simp: list_add_tail_def)

lemma list_del_ring1:
  assumes "dlist h l xs" and "x \<in> set xs"
  shows "\<exists>h'. list_del x h = Inr h' \<and> dlist h' l (remove1 x xs) \<and> frame h h' (set (l # xs))"
proof -
  obtain us vs where "xs = us @ x # vs" using assms(2) by (auto dest: split_list)
  moreover from this have "x \<notin> set us" using assms(1) by (auto simp: dlist_def)
  ultimately show ?thesis using list_del_ring [of h l us x vs] assms(1)
    by (auto simp: remove1_append)
qed

lemma list_empty_ring: "dlist h l xs \<Longrightarrow> list_empty l h = Inr (xs = [])"
  using dlist_first [of h l xs] by (cases xs) (auto simp: list_empty_def dlist_def)

lemma list_is_singular_ring: "dlist h l xs \<Longrightarrow> list_is_singular l h = Inr (length xs = 1)"
  using dlist_first [of h l xs] dlist_last [of h l xs] list_empty_ring [of h l xs]
  by (cases xs; cases "tl xs" rule: rev_cases) (auto simp: list_is_singular_def dlist_def)

lemma list_is_last_ring:
  assumes "dlist h l (xs @ x # ys)"
  shows "list_is_last x l h = Inr (ys = [])"
  using dlist_at [OF assms] assms by (cases ys) (auto simp: list_is_last_def dlist_def)

lemma for_each_from_ring:
  "dlist h l (xs @ ys) \<Longrightarrow> for_each_from h l (hd (ys @ [l])) acc = Some (Inr (rev acc @ ys))"
proof (induction ys arbitrary: xs acc)
  case Nil
  then show ?case by (simp add: for_each_from.simps)
next
  case (Cons y ys)
  obtain n where n: "rd_node h y = Inr n" "nxt n = hd (ys @ [l])"
    using dlist_at [OF Cons.prems] by auto
  have "y \<noteq> l" using Cons.prems by (auto simp: dlist_def)
  with n Cons.IH [of "xs @ [y]" "y # acc"] Cons.prems show ?case
    by (simp add: for_each_from.simps [of h l y])
qed

lemma list_for_each_ring: "dlist h l xs \<Longrightarrow> list_for_each h l = Some (Inr xs)"
  using dlist_first [of h l xs] for_each_from_ring [of h l "[]" xs "[]"]
  by (auto simp: list_for_each_def)

section \<open>The interface of the clients\<close>

text \<open>
  A client keeps several rings in one store; \<open>rings R h H f\<close> says that at each head
  \<open>l\<close> of \<open>H\<close> there is the ring \<open>f l\<close>, and that no node is in two of them.
\<close>

definition rings ::
  "('h \<Rightarrow> 'l \<Rightarrow> 'l list \<Rightarrow> bool) \<Rightarrow> 'h \<Rightarrow> 'l set \<Rightarrow> ('l \<Rightarrow> 'l list) \<Rightarrow> bool" where
  "rings R h H f \<longleftrightarrow> (\<forall>a \<in> H. R h a (f a)) \<and>
     (\<forall>a \<in> H. \<forall>b \<in> H. a \<noteq> b \<longrightarrow> set (a # f a) \<inter> set (b # f b) = {})"

definition in_rings :: "'l set \<Rightarrow> ('l \<Rightarrow> 'l list) \<Rightarrow> 'l set" where
  "in_rings H f = (\<Union>a \<in> H. set (a # f a))"

lemma rings_at: "rings R h H f \<Longrightarrow> a \<in> H \<Longrightarrow> R h a (f a)"
  by (simp add: rings_def)

lemma rings_disjoint:
  "rings R h H f \<Longrightarrow> a \<in> H \<Longrightarrow> b \<in> H \<Longrightarrow> x \<in> set (f a) \<Longrightarrow> x \<in> set (f b) \<Longrightarrow> a = b"
  unfolding rings_def by fastforce

lemma rings_not_head: "rings R h H f \<Longrightarrow> a \<in> H \<Longrightarrow> b \<in> H \<Longrightarrow> a \<noteq> b \<Longrightarrow> x \<in> set (f a) \<Longrightarrow> x \<noteq> b"
  unfolding rings_def by fastforce

locale ring_store =
  fixes R :: "'h \<Rightarrow> 'l \<Rightarrow> 'l list \<Rightarrow> bool"
    and node :: "'h \<Rightarrow> 'l \<Rightarrow> bool"
    and same_off :: "'h \<Rightarrow> 'h \<Rightarrow> 'l set \<Rightarrow> bool"
    and init :: "'l \<Rightarrow> 'h \<Rightarrow> 'e + 'h"
    and add :: "'l \<Rightarrow> 'l \<Rightarrow> 'h \<Rightarrow> 'e + 'h"
    and add_tail :: "'l \<Rightarrow> 'l \<Rightarrow> 'h \<Rightarrow> 'e + 'h"
    and del :: "'l \<Rightarrow> 'h \<Rightarrow> 'e + 'h"
  assumes R_distinct: "R h l xs \<Longrightarrow> distinct (l # xs)"
    and R_node: "R h l xs \<Longrightarrow> p \<in> set (l # xs) \<Longrightarrow> node h p"
    and R_frame: "R h l xs \<Longrightarrow> same_off h h' A \<Longrightarrow> set (l # xs) \<inter> A = {} \<Longrightarrow> R h' l xs"
    and node_frame: "same_off h h' A \<Longrightarrow> node h' p = node h p"
    and init_R: "node h l \<Longrightarrow> \<exists>h'. init l h = Inr h' \<and> R h' l [] \<and> same_off h h' {l}"
    and add_R: "R h l xs \<Longrightarrow> n \<notin> set (l # xs) \<Longrightarrow> node h n \<Longrightarrow>
      \<exists>h'. add n l h = Inr h' \<and> R h' l (n # xs) \<and> same_off h h' (set (n # l # xs))"
    and add_tail_R: "R h l xs \<Longrightarrow> n \<notin> set (l # xs) \<Longrightarrow> node h n \<Longrightarrow>
      \<exists>h'. add_tail n l h = Inr h' \<and> R h' l (xs @ [n]) \<and> same_off h h' (set (n # l # xs))"
    and del_R: "R h l xs \<Longrightarrow> x \<in> set xs \<Longrightarrow>
      \<exists>h'. del x h = Inr h' \<and> R h' l (remove1 x xs) \<and> same_off h h' (set (l # xs))"
begin

lemma rings_upd:
  assumes "rings R h H f" and "l \<in> H" and "R h' l ys" and "same_off h h' A"
    and "A \<subseteq> set (l # f l) \<union> B" and "set ys \<subseteq> set (f l) \<union> B" and "B \<inter> in_rings H f = {}"
  shows "rings R h' H (f(l := ys))"
proof -
  have other: "R h' a (f a) \<and> set (a # f a) \<inter> set (l # ys) = {}" if a: "a \<in> H" "a \<noteq> l" for a
  proof -
    have B: "set (a # f a) \<inter> B = {}" using assms(7) a unfolding in_rings_def by blast
    have l: "set (a # f a) \<inter> set (l # f l) = {}" using assms(1,2) a unfolding rings_def by blast
    have "set (a # f a) \<inter> A = {}" using B l assms(5) by blast
    with R_frame [OF rings_at [OF assms(1) a(1)] assms(4)] have "R h' a (f a)" .
    moreover have "set (l # ys) \<subseteq> set (l # f l) \<union> B" using assms(6) by auto
    ultimately show ?thesis using B l by blast
  qed
  show ?thesis
    using assms(1-3) other unfolding rings_def by (simp add: Int_commute)
qed

lemma rings_init:
  assumes "rings R h H f" and "node h l" and "l \<notin> in_rings H f"
  shows "\<exists>h'. init l h = Inr h' \<and> rings R h' (insert l H) (f(l := [])) \<and> (\<forall>p. node h' p = node h p)"
proof -
  obtain h' where h': "init l h = Inr h'" "R h' l []" "same_off h h' {l}"
    using init_R [OF assms(2)] by blast
  have l: "l \<notin> H" using assms(3) by (auto simp: in_rings_def)
  have "R h' a (f a)" if "a \<in> H" for a
    using assms that h' unfolding rings_def in_rings_def by (intro R_frame [of h a "f a" h' "{l}"]) auto
  then have "rings R h' (insert l H) (f(l := []))" using assms h' l
    unfolding rings_def in_rings_def by auto
  then show ?thesis using h' node_frame [OF h'(3)] by blast
qed

lemma rings_add:
  assumes "rings R h H f" and "l \<in> H" and "node h n" and "n \<notin> in_rings H f"
  shows "\<exists>h'. add n l h = Inr h' \<and> rings R h' H (f(l := n # f l)) \<and> (\<forall>p. node h' p = node h p)"
proof -
  have "n \<notin> set (l # f l)" using assms by (auto simp: in_rings_def)
  from add_R [OF rings_at [OF assms(1,2)] this assms(3)]
  obtain h' where h': "add n l h = Inr h'" "R h' l (n # f l)" "same_off h h' (set (n # l # f l))"
    by blast
  then show ?thesis
    using rings_upd [OF assms(1,2) h'(2,3), of "{n}"] assms(4) node_frame [OF h'(3)] by auto
qed

lemma rings_add_tail:
  assumes "rings R h H f" and "l \<in> H" and "node h n" and "n \<notin> in_rings H f"
  shows "\<exists>h'. add_tail n l h = Inr h' \<and> rings R h' H (f(l := f l @ [n])) \<and>
    (\<forall>p. node h' p = node h p)"
proof -
  have "n \<notin> set (l # f l)" using assms by (auto simp: in_rings_def)
  from add_tail_R [OF rings_at [OF assms(1,2)] this assms(3)]
  obtain h' where h': "add_tail n l h = Inr h'" "R h' l (f l @ [n])"
    "same_off h h' (set (n # l # f l))" by blast
  then show ?thesis
    using rings_upd [OF assms(1,2) h'(2,3), of "{n}"] assms(4) node_frame [OF h'(3)] by auto
qed

lemma rings_del:
  assumes "rings R h H f" and "l \<in> H" and "x \<in> set (f l)"
  shows "\<exists>h'. del x h = Inr h' \<and> rings R h' H (f(l := remove1 x (f l))) \<and>
    x \<notin> in_rings H (f(l := remove1 x (f l))) \<and> (\<forall>p. node h' p = node h p)"
proof -
  obtain h' where h': "del x h = Inr h'" "R h' l (remove1 x (f l))" "same_off h h' (set (l # f l))"
    using del_R [OF rings_at [OF assms(1,2)] assms(3)] by blast
  have d: "distinct (l # f l)" using R_distinct [OF rings_at [OF assms(1,2)]] .
  have "x \<notin> set (a # f a)" if "a \<in> H" "a \<noteq> l" for a
    using assms that unfolding rings_def by fastforce
  moreover have "x \<notin> set (l # remove1 x (f l))" using d assms(3) by auto
  ultimately have "x \<notin> in_rings H (f(l := remove1 x (f l)))" unfolding in_rings_def by auto
  moreover have "rings R h' H (f(l := remove1 x (f l)))"
    using set_remove1_subset [of x "f l"] by (intro rings_upd [OF assms(1,2) h'(2,3), of "{}"]) auto
  ultimately show ?thesis using h' node_frame [OF h'(3)] by blast
qed

text \<open>The two moves of the clients: out of one ring, to the front or the end of another.\<close>

lemma rings_move_front:
  assumes "rings R h H f" and "l \<in> H" "m \<in> H" "l \<noteq> m" and "x \<in> set (f l)"
  shows "\<exists>h1 h2. del x h = Inr h1 \<and> add x m h1 = Inr h2 \<and>
    rings R h2 H (f(l := remove1 x (f l), m := x # f m)) \<and> (\<forall>p. node h2 p = node h p)"
proof -
  obtain h1 where h1: "del x h = Inr h1" "rings R h1 H (f(l := remove1 x (f l)))"
    "x \<notin> in_rings H (f(l := remove1 x (f l)))" "\<forall>p. node h1 p = node h p"
    using rings_del [OF assms(1,2,5)] by blast
  have "node h1 x" using h1(4) R_node [OF rings_at [OF assms(1,2)], of x] assms(5) by auto
  from rings_add [OF h1(2) assms(3) this h1(3)] h1 assms(4) show ?thesis by auto
qed

lemma rings_move_tail:
  assumes "rings R h H f" and "l \<in> H" "m \<in> H" "l \<noteq> m" and "x \<in> set (f l)"
  shows "\<exists>h1 h2. del x h = Inr h1 \<and> add_tail x m h1 = Inr h2 \<and>
    rings R h2 H (f(l := remove1 x (f l), m := f m @ [x])) \<and> (\<forall>p. node h2 p = node h p)"
proof -
  obtain h1 where h1: "del x h = Inr h1" "rings R h1 H (f(l := remove1 x (f l)))"
    "x \<notin> in_rings H (f(l := remove1 x (f l)))" "\<forall>p. node h1 p = node h p"
    using rings_del [OF assms(1,2,5)] by blast
  have "node h1 x" using h1(4) R_node [OF rings_at [OF assms(1,2)], of x] assms(5) by auto
  from rings_add_tail [OF h1(2) assms(3) this h1(3)] h1 assms(4) show ?thesis by auto
qed

end

definition is_node :: "lheap \<Rightarrow> loc \<Rightarrow> bool" where
  "is_node h p \<longleftrightarrow> p \<noteq> Null \<and> h p \<noteq> None"

interpretation dl: ring_store dlist is_node frame INIT_LIST_HEAD list_add list_add_tail list_del
proof unfold_locales
  show "distinct (l # xs)" if "dlist h l xs" for h l xs
    using that by (simp add: dlist_def)
  show "is_node h p" if "dlist h l xs" "p \<in> set (l # xs)" for h l xs p
    using dlist_mapped [OF that] by (auto simp: is_node_def)
  show "dlist h' l xs" if "dlist h l xs" "frame h h' A" "set (l # xs) \<inter> A = {}" for h l xs h' A
    using that by (intro dlist_frame [OF that(1)]) (auto simp: frame_def)
  show "is_node h' p = is_node h p" if "frame h h' A" for h h' A p
    using that by (auto simp: is_node_def frame_def dom_def)
qed (use INIT_LIST_HEAD_ring list_add_ring list_add_tail_ring list_del_ring1 in
    \<open>fastforce simp: is_node_def\<close>)+

section \<open>Properties\<close>

text \<open>
  C39. \<open>list_add\<close> and \<open>list_add_tail\<close> refine insertion at the front and at the back of
  a list: on a ring that represents \<open>xs\<close> they never touch an unmapped node, the ring then
  represents \<open>n # xs\<close> or \<open>xs @ [n]\<close>, and every node outside it is as it was.
\<close>

theorem list_add_refines:
  assumes "dlist h l xs" and "n \<notin> set (l # xs)" and "is_node h n"
  shows "(\<exists>h'. list_add n l h = Inr h' \<and> dlist h' l (n # xs) \<and> frame h h' (set (n # l # xs))) \<and>
    (\<exists>h'. list_add_tail n l h = Inr h' \<and> dlist h' l (xs @ [n]) \<and> frame h h' (set (n # l # xs)))"
  using assms list_add_ring [OF assms(1,2)] list_add_tail_ring [OF assms(1,2)]
  by (auto simp: is_node_def)

definition two_nodes :: lheap where
  "two_nodes = (\<lambda>_. None)(Static 0 \<mapsto> \<lparr>nxt = Static 0, prev = Static 0\<rparr>,
     Heap 0 \<mapsto> \<lparr>nxt = Null, prev = Null\<rparr>)"

lemma two_nodes_ring: "dlist two_nodes (Static 0) []" "is_node two_nodes (Heap 0)"
  by (simp_all add: two_nodes_def dlist_def link_def is_node_def)

theorem list_add_refines_witness:
  "\<exists>h'. list_add (Heap 0) (Static 0) two_nodes = Inr h' \<and> dlist h' (Static 0) [Heap 0]"
  using list_add_refines [OF two_nodes_ring(1) _ two_nodes_ring(2)] by auto

text \<open>
  \<open>list_del\<close> removes exactly the given node, wherever it stands in the ring, and clears
  its two pointers; so a second \<open>list_del\<close> of the same node is caught as a null pointer
  access instead of damaging the ring.
\<close>

lemma list_del_refines:
  assumes "dlist h l (xs @ x # ys)"
  shows "\<exists>h'. list_del x h = Inr h' \<and> dlist h' l (xs @ ys) \<and> frame h h' (set (l # xs @ x # ys)) \<and>
    list_del x h' = Inl Invalid_access"
proof -
  obtain h' where h': "list_del x h = Inr h'" "dlist h' l (xs @ ys)"
    "h' x = Some \<lparr>nxt = Null, prev = Null\<rparr>" "frame h h' (set (l # xs @ x # ys))"
    using list_del_ring [OF assms] by blast
  have "x \<noteq> Null" using assms by (auto simp: dlist_def)
  then have "rd_node h' x = Inr \<lparr>nxt = Null, prev = Null\<rparr>" using h'(3) by (simp add: rd_node_def)
  moreover have "rd_node h' Null = Inl Invalid_access" by (simp add: rd_node_def split: option.splits)
  ultimately have "list_del x h' = Inl Invalid_access"
    by (simp add: list_del_def list_del_between_def set_prev_def)
  with h' show ?thesis by blast
qed

text \<open>
  C40. On a ring the loop of \<open>list_for_each\<close> ends, and its cursor visits the nodes in order,
  each once; \<open>list_empty\<close>, \<open>list_is_singular\<close> and \<open>list_is_last\<close> answer for the
  list that the ring represents.
\<close>

theorem list_for_each_visits:
  assumes "dlist h l xs"
  shows "list_for_each h l = Some (Inr xs) \<and> distinct xs \<and> list_empty l h = Inr (xs = []) \<and>
    list_is_singular l h = Inr (length xs = 1) \<and>
    (\<forall>x \<in> set xs. list_is_last x l h = Inr (x = last xs))"
proof -
  have "list_is_last x l h = Inr (x = last xs)" if x: "x \<in> set xs" for x
  proof -
    obtain us vs where xs: "xs = us @ x # vs" using x by (auto dest: split_list)
    have "distinct xs" using assms by (simp add: dlist_def)
    then have "x = last xs \<longleftrightarrow> vs = []" using xs by (cases vs rule: rev_cases) auto
    then show ?thesis using list_is_last_ring [of h l us x vs] assms xs by simp
  qed
  then show ?thesis
    using assms list_for_each_ring [OF assms] list_empty_ring [OF assms] list_is_singular_ring [OF assms]
    by (simp add: dlist_def)
qed

theorem list_for_each_visits_witness:
  "list_for_each two_nodes (Static 0) = Some (Inr []) \<and> list_empty (Static 0) two_nodes = Inr True"
  using list_for_each_visits [OF two_nodes_ring(1)] by simp

end
