(* ===== verification/Mem.thy ===== *)
theory Mem
  imports Dlist
begin

text \<open>
  The pooled allocator of \<open>mem.c\<close> and \<open>mem.h\<close>, as it is built by the Makefile and by
  CMakeLists.txt (with \<open>DEBUG_MEM_CHECK\<close>) on an LP64 platform.

  A block that came from \<open>malloc\<close> is a \<open>mem_entry_t\<close> at a location \<open>Heap n\<close>: its
  list node is in \<open>links\<close>, its other fields in \<open>entries\<close>. The field \<open>obj\<close> holds
  the bytes of the size class followed by the guard byte \<open>0xf\<close>, which is what the code
  has \<open>malloc\<close> reserve. The pointer \<open>me->obj\<close> that the callers hold and the pointer
  \<open>me\<close> are the same location here: \<open>offsetof\<close> moves between them.

  The lemmas show that every operation keeps the pools, the list of used blocks, the size
  classes and the statistics consistent, that it refines an allocator whose state is just
  the lists of free and used blocks, and what \<open>mem_realloc\<close> copies.
\<close>

section \<open>State\<close>

record mem_entry =
  obj_size :: size_t
  refcount :: int
  module :: "string option"
  obj :: "byte list"

record mem_stat_t =
  blocks_used :: int
  blocks_free :: int

text \<open>
  \<open>heap_next\<close> numbers the locations that \<open>malloc\<close> returns; \<open>malloc_left\<close> is how
  many more calls of \<open>malloc\<close> the system will serve before it returns NULL.
\<close>

record mem_state =
  links :: lheap
  entries :: "loc \<Rightarrow> mem_entry option"
  mem_stat :: "mem_stat_t list"
  heap_next :: nat
  malloc_left :: nat

abbreviation MEM_TYPE_MAX :: nat where
  "MEM_TYPE_MAX \<equiv> 17"

abbreviation MAX_EXT_MEM_BLOCK :: size_t where
  "MAX_EXT_MEM_BLOCK \<equiv> 1024 * 1024"

text \<open>\<open>1 << (i+4)\<close>, the size of the blocks of pool \<open>i\<close>.\<close>

abbreviation class_bytes :: "nat \<Rightarrow> nat" where
  "class_bytes i \<equiv> 2 ^ (i + 4)"

abbreviation MemPools :: "nat \<Rightarrow> loc" where
  "MemPools i \<equiv> Static i"

abbreviation MEM_USED_LIST :: loc where
  "MEM_USED_LIST \<equiv> Static 17"

abbreviation guard_byte :: byte where
  "guard_byte \<equiv> 0xf"

section \<open>Operations\<close>

definition with_links :: "(lheap \<Rightarrow> lheap res) \<Rightarrow> 'z mem_state_scheme \<Rightarrow> 'z mem_state_scheme res" where
  "with_links f s = bindE (f (links s)) (\<lambda>h. Inr (s\<lparr>links := h\<rparr>))"

definition get_entry :: "loc \<Rightarrow> 'z mem_state_scheme \<Rightarrow> mem_entry res" where
  "get_entry p s = (case entries s p of None \<Rightarrow> Inl Invalid_access | Some e \<Rightarrow> Inr e)"

definition set_entry :: "loc \<Rightarrow> mem_entry \<Rightarrow> 'z mem_state_scheme \<Rightarrow> 'z mem_state_scheme" where
  "set_entry p e s = s\<lparr>entries := (entries s)(p \<mapsto> e)\<rparr>"

definition upd_stat :: "nat \<Rightarrow> int \<Rightarrow> int \<Rightarrow> 'z mem_state_scheme \<Rightarrow> 'z mem_state_scheme" where
  "upd_stat i du df s = s\<lparr>mem_stat := (mem_stat s)[i :=
     \<lparr>blocks_used = blocks_used (mem_stat s ! i) + du,
      blocks_free = blocks_free (mem_stat s ! i) + df\<rparr>]\<rparr>"

text \<open>\<open>malloc\<close> of the C library: a location never used before, or NULL.\<close>

definition malloc :: "'z mem_state_scheme \<Rightarrow> loc \<times> 'z mem_state_scheme" where
  "malloc s = (if malloc_left s = 0 then (Null, s)
     else (Heap (heap_next s),
       s\<lparr>heap_next := Suc (heap_next s), malloc_left := malloc_left s - 1\<rparr>))"

text \<open>\<open>for (i = 0; i < MEM_TYPE_MAX; i++) if (size <= 1 << (i+4)) break;\<close>\<close>

function class_loop :: "size_t \<Rightarrow> nat \<Rightarrow> nat" where
  "class_loop sz i =
     (if i < MEM_TYPE_MAX then if unat sz \<le> class_bytes i then i else class_loop sz (Suc i)
      else i)"
  by pat_completeness auto
termination
  by (relation "measure (\<lambda>(sz, i). MEM_TYPE_MAX - i)") auto

declare class_loop.simps [simp del]

definition size_class :: "size_t \<Rightarrow> nat" where
  "size_class sz = class_loop sz 0"

text \<open>\<open>mem_module_init\<close>: the pools in turn, then the list of used blocks.\<close>

primrec init_pools :: "nat \<Rightarrow> 'z mem_state_scheme \<Rightarrow> 'z mem_state_scheme res" where
  "init_pools 0 s = Inr s"
| "init_pools (Suc i) s = bindE (init_pools i s) (\<lambda>s.
     bindE (with_links (INIT_LIST_HEAD (MemPools i)) s) (\<lambda>s.
     Inr (s\<lparr>mem_stat := (mem_stat s)[i := \<lparr>blocks_used = 0, blocks_free = 0\<rparr>]\<rparr>)))"

definition mem_module_init :: "'z mem_state_scheme \<Rightarrow> 'z mem_state_scheme res" where
  "mem_module_init s = bindE (init_pools MEM_TYPE_MAX s) (with_links (INIT_LIST_HEAD MEM_USED_LIST))"

text \<open>
  The first branch of \<open>mem_alloc\<close>: the pool is empty. The two pointers of the fresh node
  are written by \<open>list_add\<close> before they are read.
\<close>

definition alloc_fresh ::
  "string option \<Rightarrow> size_t \<Rightarrow> nat \<Rightarrow> 'z mem_state_scheme \<Rightarrow> (loc \<times> 'z mem_state_scheme) res" where
  "alloc_fresh m sz i s = (case malloc s of (me, s) \<Rightarrow>
     bindE (accessE (me \<noteq> Null)) (\<lambda>_.
     let e = \<lparr>obj_size = sz, refcount = 1, module = m, obj = replicate (class_bytes i) 0 @ [guard_byte]\<rparr>;
         s = set_entry me e (s\<lparr>links := (links s)(me \<mapsto> \<lparr>nxt = Null, prev = Null\<rparr>)\<rparr>) in
     bindE (with_links (list_add me MEM_USED_LIST) s) (\<lambda>s.
     Inr (me, upd_stat i 1 0 s))))"

text \<open>The second branch: the first block of the pool, cleared (\<open>memset\<close>).\<close>

definition alloc_pooled ::
  "string option \<Rightarrow> nat \<Rightarrow> 'z mem_state_scheme \<Rightarrow> (loc \<times> 'z mem_state_scheme) res" where
  "alloc_pooled m i s =
     bindE (rd_node (links s) (MemPools i)) (\<lambda>n.
     let me = nxt n in
     bindE (with_links (list_del me) s) (\<lambda>s.
     bindE (get_entry me s) (\<lambda>e.
     bindE (with_links (list_add me MEM_USED_LIST) s) (\<lambda>s.
     let s = upd_stat i 1 (- 1) s;
         e = e\<lparr>module := m, refcount := refcount e + 1\<rparr> in
     bindE (assertE (refcount e = 1)) (\<lambda>_.
     bindE (accessE (class_bytes i \<le> length (obj e))) (\<lambda>_.
     Inr (me, set_entry me (e\<lparr>obj := splice 0 (replicate (class_bytes i) 0) (obj e)\<rparr>) s)))))))"

definition mem_alloc ::
  "string option \<Rightarrow> size_t \<Rightarrow> 'z mem_state_scheme \<Rightarrow> (loc \<times> 'z mem_state_scheme) res" where
  "mem_alloc m sz s =
     bindE (assertE (sz \<le> MAX_EXT_MEM_BLOCK)) (\<lambda>_.
     let i = size_class sz in
     bindE (assertE (i < MEM_TYPE_MAX)) (\<lambda>_.
     bindE (list_empty (MemPools i) (links s)) (\<lambda>empty.
     if empty then alloc_fresh m sz i s else alloc_pooled m i s)))"

definition mem_free :: "loc \<Rightarrow> 'z mem_state_scheme \<Rightarrow> 'z mem_state_scheme res" where
  "mem_free me s =
     bindE (get_entry me s) (\<lambda>e.
     let i = size_class (obj_size e) in
     bindE (assertE (i < MEM_TYPE_MAX)) (\<lambda>_.
     bindE (accessE (class_bytes i < length (obj e))) (\<lambda>_.
     bindE (assertE (obj e ! class_bytes i = guard_byte)) (\<lambda>_.
     let e = e\<lparr>refcount := refcount e - 1\<rparr>; s = set_entry me e s in
     bindE (assertE (refcount e = 0)) (\<lambda>_.
     bindE (with_links (list_del me) s) (\<lambda>s.
     bindE (with_links (list_add_tail me (MemPools i)) s) (\<lambda>s.
     Inr (upd_stat i (- 1) 1 s))))))))"

text \<open>
  The stores and loads that the callers make through the pointer (\<open>memcpy\<close>,
  \<open>memmove\<close>, \<open>read\<close>, assignments): any byte that \<open>malloc\<close> reserved may be
  touched, also the guard byte, and nothing behind it.
\<close>

definition mem_store :: "loc \<Rightarrow> nat \<Rightarrow> byte list \<Rightarrow> 'z mem_state_scheme \<Rightarrow> 'z mem_state_scheme res" where
  "mem_store p off bs s =
     bindE (get_entry p s) (\<lambda>e.
     bindE (accessE (off + length bs \<le> length (obj e))) (\<lambda>_.
     Inr (set_entry p (e\<lparr>obj := splice off bs (obj e)\<rparr>) s)))"

definition mem_load :: "loc \<Rightarrow> nat \<Rightarrow> nat \<Rightarrow> 'z mem_state_scheme \<Rightarrow> byte list res" where
  "mem_load p off n s =
     bindE (get_entry p s) (\<lambda>e.
     bindE (accessE (off + n \<le> length (obj e))) (\<lambda>_.
     Inr (take n (drop off (obj e)))))"

definition mem_realloc ::
  "loc \<Rightarrow> size_t \<Rightarrow> size_t \<Rightarrow> 'z mem_state_scheme \<Rightarrow> (loc \<times> 'z mem_state_scheme) res" where
  "mem_realloc buf old_size new_size s =
     bindE (get_entry buf s) (\<lambda>me.
     bindE (mem_alloc (module me) new_size s) (\<lambda>(new_buf, s).
     bindE (if old_size \<le> obj_size me \<and> old_size \<le> new_size
            then bindE (mem_load buf 0 (unat old_size) s) (\<lambda>bs. mem_store new_buf 0 bs s)
            else Inr s) (\<lambda>s.
     bindE (mem_free buf s) (\<lambda>s. Inr (new_buf, s)))))"

text \<open>
  \<open>mem_check_mod_count\<close>: \<open>None\<close> when the walk over the used list does not end. The
  second component is \<open>*objsize\<close> at the end; storing a \<open>size_t\<close> into an \<open>int\<close>
  keeps its low 32 bits.
\<close>

primrec count_mod :: "string \<Rightarrow> loc list \<Rightarrow> int \<times> int \<Rightarrow> 'z mem_state_scheme \<Rightarrow> (int \<times> int) res" where
  "count_mod m [] acc s = Inr acc"
| "count_mod m (q # qs) acc s =
     bindE (get_entry q s) (\<lambda>e.
     count_mod m qs
       (if module e = Some m
        then (fst acc + 1, if snd acc = 0 then sint (ucast (obj_size e) :: 32 word) else snd acc)
        else acc) s)"

definition mem_check_mod_count ::
  "string option \<Rightarrow> int \<Rightarrow> 'z mem_state_scheme \<Rightarrow> (int \<times> int) res option" where
  "mem_check_mod_count m objsize s = (case m of
      None \<Rightarrow> Some (Inr (0, objsize))
    | Some m \<Rightarrow> map_option (\<lambda>r. bindE r (\<lambda>qs. count_mod m qs (0, objsize) s))
        (list_for_each (links s) MEM_USED_LIST))"

text \<open>
  \<open>statistics_mem_info\<close> writes one line per pool in use into the buffer of the caller,
  whose real size is \<open>length buff\<close>. \<open>cur_sz\<close> is converted to \<open>size_t\<close> wherever it
  meets \<open>buff_sz\<close>, so the differences wrap around.
\<close>

abbreviation obj_offset :: nat where
  "obj_offset \<equiv> 40"

definition snprintf :: "string \<Rightarrow> nat \<Rightarrow> size_t \<Rightarrow> string \<Rightarrow> (string \<times> nat) res" where
  "snprintf buff off n txt =
     (if n = 0 then Inr (buff, length txt)
      else let out = take (unat n - 1) txt @ [CHR 0x00] in
        bindE (accessE (off + length out \<le> length buff)) (\<lambda>_.
        Inr (splice off out buff, length txt)))"

definition stat_line :: "nat \<Rightarrow> size_t \<Rightarrow> mem_stat_t \<Rightarrow> string" where
  "stat_line i block_sz st = dec (class_bytes i) @ '': '' @ dec (unat block_sz) @ '','' @
     dec_int (blocks_used st) @ '','' @ dec_int (blocks_free st) @ [CHR 0x0A]"

function stat_loop ::
  "mem_stat_t list \<Rightarrow> size_t \<Rightarrow> nat \<Rightarrow> string \<times> nat \<times> size_t \<Rightarrow> (string \<times> nat \<times> size_t) res" where
  "stat_loop stats buff_sz i (buff, cur_sz, total_sz) =
     (if i < MEM_TYPE_MAX then
        let blocks = blocks_used (stats ! i) + blocks_free (stats ! i);
            block_sz = of_int blocks * (of_nat (class_bytes i) + of_nat obj_offset) in
        bindE (if blocks > 0
               then bindE (snprintf buff cur_sz (buff_sz - of_nat cur_sz) (stat_line i block_sz (stats ! i)))
                 (\<lambda>(buff, fmt_sz). Inr (buff, cur_sz + fmt_sz, total_sz + block_sz))
               else Inr (buff, cur_sz, total_sz)) (\<lambda>(buff, cur_sz, total_sz).
        if of_nat cur_sz > buff_sz - 3 then Inr (buff, cur_sz, total_sz)
        else stat_loop stats buff_sz (Suc i) (buff, cur_sz, total_sz))
      else Inr (buff, cur_sz, total_sz))"
  by pat_completeness auto
termination
  by (relation "measure (\<lambda>(stats, buff_sz, i, st). MEM_TYPE_MAX - i)") auto

declare stat_loop.simps [simp del]

definition statistics_mem_info ::
  "string \<Rightarrow> size_t \<Rightarrow> 'z mem_state_scheme \<Rightarrow> (nat \<times> string) res" where
  "statistics_mem_info buff buff_sz s =
     bindE (stat_loop (mem_stat s) buff_sz 0 (buff, 0, 0)) (\<lambda>(buff, cur_sz, total_sz).
     if of_nat cur_sz < buff_sz
     then bindE (snprintf buff cur_sz (buff_sz - of_nat cur_sz) (''Total size:'' @ dec (unat total_sz) @ '' ''))
       (\<lambda>(buff, fmt_sz). Inr (cur_sz + fmt_sz, buff))
     else Inr (cur_sz, buff))"

section \<open>Size classes\<close>

lemma class_loop_ge: "i \<le> class_loop sz i"
proof (induction sz i rule: class_loop.induct)
  case (1 sz i)
  then show ?case by (subst class_loop.simps) auto
qed

lemma class_loop_le: "i \<le> MEM_TYPE_MAX \<Longrightarrow> class_loop sz i \<le> MEM_TYPE_MAX"
proof (induction sz i rule: class_loop.induct)
  case (1 sz i)
  then show ?case by (subst class_loop.simps) auto
qed

lemma class_loop_fits:
  "class_loop sz i < MEM_TYPE_MAX \<Longrightarrow> unat sz \<le> class_bytes (class_loop sz i)"
proof (induction sz i rule: class_loop.induct)
  case (1 sz i)
  then show ?case using class_loop.simps [of sz i] by (auto split: if_splits)
qed

lemma class_loop_least: "i \<le> j \<Longrightarrow> j < class_loop sz i \<Longrightarrow> class_bytes j < unat sz"
proof (induction sz i rule: class_loop.induct)
  case (1 sz i)
  from "1.prems" have less: "i < MEM_TYPE_MAX" "\<not> unat sz \<le> class_bytes i"
    using class_loop.simps [of sz i] by (auto split: if_splits)
  with "1.prems" "1.IH" show ?case
    using class_loop.simps [of sz i] by (cases "j = i") auto
qed

lemma size_class_fits: "size_class sz < MEM_TYPE_MAX \<Longrightarrow> unat sz \<le> class_bytes (size_class sz)"
  unfolding size_class_def by (rule class_loop_fits)

lemma size_class_least: "j < size_class sz \<Longrightarrow> class_bytes j < unat sz"
  unfolding size_class_def by (rule class_loop_least) auto

lemma size_class_lt_iff: "size_class sz < MEM_TYPE_MAX \<longleftrightarrow> unat sz \<le> 2 ^ 20"
proof
  assume "size_class sz < MEM_TYPE_MAX"
  then have "unat sz \<le> class_bytes (size_class sz)" and "size_class sz + 4 \<le> 20"
    using size_class_fits by auto
  then show "unat sz \<le> 2 ^ 20"
    by (metis le_trans one_le_numeral power_increasing)
next
  assume "unat sz \<le> 2 ^ 20"
  then have "\<not> 16 < size_class sz" using size_class_least [of 16 sz] by auto
  then show "size_class sz < MEM_TYPE_MAX" by simp
qed

lemma size_class_lt_iff_word: "size_class sz < MEM_TYPE_MAX \<longleftrightarrow> sz \<le> MAX_EXT_MEM_BLOCK"
  by (simp add: size_class_lt_iff word_le_nat_alt)

section \<open>The representation invariant\<close>

text \<open>
  \<open>mem_rep s f\<close>: the rings of the state hold, at each pool and at the list of used
  blocks, the blocks \<open>f\<close> lists there, and everything else agrees with it.
\<close>

definition mem_heads :: "loc set" where
  "mem_heads = Static ` {..MEM_TYPE_MAX}"

definition entry_rep :: "int \<Rightarrow> mem_entry \<Rightarrow> bool" where
  "entry_rep r e \<longleftrightarrow> refcount e = r \<and> size_class (obj_size e) < MEM_TYPE_MAX \<and>
     length (obj e) = class_bytes (size_class (obj_size e)) + 1"

definition in_class :: "'z mem_state_scheme \<Rightarrow> nat \<Rightarrow> loc \<Rightarrow> bool" where
  "in_class s i p = (case entries s p of None \<Rightarrow> False | Some e \<Rightarrow> size_class (obj_size e) = i)"

definition stats_rep :: "'z mem_state_scheme \<Rightarrow> (loc \<Rightarrow> loc list) \<Rightarrow> bool" where
  "stats_rep s f \<longleftrightarrow> length (mem_stat s) = MEM_TYPE_MAX \<and>
     (\<forall>i < MEM_TYPE_MAX. mem_stat s ! i =
        \<lparr>blocks_used = int (length (filter (in_class s i) (f MEM_USED_LIST))),
         blocks_free = int (length (f (MemPools i)))\<rparr>)"

definition mem_rep :: "'z mem_state_scheme \<Rightarrow> (loc \<Rightarrow> loc list) \<Rightarrow> bool" where
  "mem_rep s f \<longleftrightarrow>
     rings dlist (links s) mem_heads f \<and>
     (\<forall>i < MEM_TYPE_MAX. \<forall>p \<in> set (f (MemPools i)).
        \<exists>e. entries s p = Some e \<and> entry_rep 0 e \<and> size_class (obj_size e) = i) \<and>
     (\<forall>p \<in> set (f MEM_USED_LIST). \<exists>e. entries s p = Some e \<and> entry_rep 1 e) \<and>
     (\<forall>p \<in> dom (entries s). (\<exists>n < heap_next s. p = Heap n) \<and> (\<exists>l \<in> mem_heads. p \<in> set (f l))) \<and>
     stats_rep s f"

text \<open>The abstract allocator: just the lists of blocks.\<close>

definition abs_alloc :: "nat \<Rightarrow> loc \<Rightarrow> (loc \<Rightarrow> loc list) \<Rightarrow> loc \<times> (loc \<Rightarrow> loc list)" where
  "abs_alloc i fresh f = (case f (MemPools i) of
      [] \<Rightarrow> (fresh, f(MEM_USED_LIST := fresh # f MEM_USED_LIST))
    | p # ps \<Rightarrow> (p, f(MemPools i := ps, MEM_USED_LIST := p # f MEM_USED_LIST)))"

definition abs_free :: "loc \<Rightarrow> nat \<Rightarrow> (loc \<Rightarrow> loc list) \<Rightarrow> (loc \<Rightarrow> loc list)" where
  "abs_free p i f =
     f(MEM_USED_LIST := remove1 p (f MEM_USED_LIST), MemPools i := f (MemPools i) @ [p])"

lemma mem_heads_iff: "l \<in> mem_heads \<longleftrightarrow> (\<exists>i. l = Static i \<and> i \<le> MEM_TYPE_MAX)"
  by (auto simp: mem_heads_def)

lemma mem_heads_mem [simp]: "MEM_USED_LIST \<in> mem_heads" "i < MEM_TYPE_MAX \<Longrightarrow> MemPools i \<in> mem_heads"
  by (auto simp: mem_heads_def)

lemma rings_fun_upd:
  assumes "rings dlist h H f" and "p \<notin> in_rings H f"
  shows "rings dlist (h(p := x)) H f"
proof -
  have "dlist (h(p := x)) a (f a)" if "a \<in> H" for a
    using assms that by (intro dlist_frame [OF rings_at [OF assms(1)]]) (auto simp: in_rings_def)
  then show ?thesis using assms(1) by (simp add: rings_def)
qed

lemma mem_rep_rings: "mem_rep s f \<Longrightarrow> rings dlist (links s) mem_heads f"
  by (simp add: mem_rep_def)

lemma mem_rep_free:
  "mem_rep s f \<Longrightarrow> i < MEM_TYPE_MAX \<Longrightarrow> p \<in> set (f (MemPools i)) \<Longrightarrow>
   \<exists>e. entries s p = Some e \<and> entry_rep 0 e \<and> size_class (obj_size e) = i"
  by (simp add: mem_rep_def)

lemma mem_rep_used:
  "mem_rep s f \<Longrightarrow> p \<in> set (f MEM_USED_LIST) \<Longrightarrow> \<exists>e. entries s p = Some e \<and> entry_rep 1 e"
  by (simp add: mem_rep_def)

lemma mem_rep_node:
  assumes "mem_rep s f" and "l \<in> mem_heads" and "p \<in> set (f l)"
  shows "\<exists>e. entries s p = Some e"
  using assms mem_rep_free [OF assms(1)] mem_rep_used [OF assms(1)]
  by (fastforce simp: mem_heads_iff le_less)

lemma mem_rep_heap:
  "mem_rep s f \<Longrightarrow> l \<in> mem_heads \<Longrightarrow> p \<in> set (f l) \<Longrightarrow> \<exists>n < heap_next s. p = Heap n"
  using mem_rep_node [of s f l p] unfolding mem_rep_def by blast

lemma mem_rep_dom:
  "mem_rep s f \<Longrightarrow> entries s p = Some e \<Longrightarrow> \<exists>n < heap_next s. p = Heap n"
  unfolding mem_rep_def by blast

lemma mem_rep_fresh: "mem_rep s f \<Longrightarrow> Heap (heap_next s) \<notin> in_rings mem_heads f"
  using mem_rep_heap [of s f] by (fastforce simp: in_rings_def mem_heads_iff)

lemma mem_rep_fresh_entry: "mem_rep s f \<Longrightarrow> entries s (Heap (heap_next s)) = None"
  using mem_rep_dom [of s f "Heap (heap_next s)"] by (cases "entries s (Heap (heap_next s))") auto

text \<open>A block is used exactly when its reference count is 1.\<close>

definition live :: "'z mem_state_scheme \<Rightarrow> loc set" where
  "live s = {p. \<exists>e. entries s p = Some e \<and> refcount e = 1}"

lemma mem_rep_live: "mem_rep s f \<Longrightarrow> live s = set (f MEM_USED_LIST)"
proof (intro set_eqI iffI)
  fix p assume rep: "mem_rep s f" and "p \<in> live s"
  then obtain e where e: "entries s p = Some e" "refcount e = 1" by (auto simp: live_def)
  then obtain l where l: "l \<in> mem_heads" "p \<in> set (f l)" using rep unfolding mem_rep_def by blast
  then obtain i where i: "l = Static i" "i \<le> MEM_TYPE_MAX" by (auto simp: mem_heads_iff)
  have "\<not> i < MEM_TYPE_MAX"
  proof
    assume "i < MEM_TYPE_MAX"
    from mem_rep_free [OF rep this, of p] e l i show False by (auto simp: entry_rep_def)
  qed
  then have "i = MEM_TYPE_MAX" using i by linarith
  then show "p \<in> set (f MEM_USED_LIST)" using l i by simp
qed (auto simp: live_def entry_rep_def dest: mem_rep_used)

section \<open>Allocation\<close>

text \<open>
  What an allocation leaves alone, and what the caller gets: a block that was not used, of
  the size class of the request, cleared.
\<close>

definition alloc_result ::
  "string option \<Rightarrow> size_t \<Rightarrow> loc \<Rightarrow> 'z mem_state_scheme \<Rightarrow> 'z mem_state_scheme \<Rightarrow> bool" where
  "alloc_result m sz p s s' \<longleftrightarrow>
     (\<exists>e. entries s' p = Some e \<and> module e = m \<and> size_class (obj_size e) = size_class sz \<and> entry_rep 1 e \<and>
        take (class_bytes (size_class sz)) (obj e) = replicate (class_bytes (size_class sz)) 0 \<and>
        (case entries s p of
           None \<Rightarrow> obj e ! class_bytes (size_class sz) = guard_byte \<and> obj_size e = sz
         | Some e0 \<Rightarrow> obj e ! class_bytes (size_class sz) = obj e0 ! class_bytes (size_class sz) \<and>
             obj_size e = obj_size e0)) \<and>
     (\<forall>q. q \<noteq> p \<longrightarrow> entries s' q = entries s q) \<and>
     malloc_left s' = malloc_left s - (if entries s p = None then 1 else 0) \<and>
     mem_state.more s' = mem_state.more s"

lemma stats_rep_alloc:
  assumes "stats_rep s f" and "i < MEM_TYPE_MAX" and "p \<notin> set (f MEM_USED_LIST)"
    and "\<And>q. q \<noteq> p \<Longrightarrow> entries s' q = entries s q" and "in_class s' i p"
    and "mem_stat s' = (mem_stat s)[i := \<lparr>blocks_used = blocks_used (mem_stat s ! i) + 1,
        blocks_free = blocks_free (mem_stat s ! i) + d\<rparr>]"
    and "int (length ps) = int (length (f (MemPools i))) + d"
  shows "stats_rep s' (f(MemPools i := ps, MEM_USED_LIST := p # f MEM_USED_LIST))"
proof -
  have used: "filter (in_class s' j) (f MEM_USED_LIST) = filter (in_class s j) (f MEM_USED_LIST)" for j
  proof (intro filter_cong refl)
    fix x assume "x \<in> set (f MEM_USED_LIST)"
    then have "x \<noteq> p" using assms(3) by blast
    then show "in_class s' j x = in_class s j x" using assms(4) by (simp add: in_class_def)
  qed
  have "in_class s' j p \<longleftrightarrow> j = i" for j
    using assms(5) by (auto simp: in_class_def split: option.splits)
  with assms used show ?thesis by (auto simp: stats_rep_def nth_list_update)
qed

lemma alloc_fresh_ok:
  assumes rep: "mem_rep s f" and i: "size_class sz = i" "i < MEM_TYPE_MAX"
    and free: "f (MemPools i) = []" and left: "0 < malloc_left s"
  shows "\<exists>s'. alloc_fresh m sz i s = Inr (Heap (heap_next s), s') \<and>
     mem_rep s' (f(MEM_USED_LIST := Heap (heap_next s) # f MEM_USED_LIST)) \<and>
     alloc_result m sz (Heap (heap_next s)) s s'"
proof -
  let ?p = "Heap (heap_next s)" and ?nd = "\<lparr>nxt = Null, prev = Null\<rparr>"
  let ?e = "\<lparr>obj_size = sz, refcount = 1, module = m, obj = replicate (class_bytes i) 0 @ [guard_byte]\<rparr>"
  let ?f = "f(MEM_USED_LIST := ?p # f MEM_USED_LIST)"
  have new: "?p \<notin> in_rings mem_heads f" by (rule mem_rep_fresh [OF rep])
  have "rings dlist ((links s)(?p \<mapsto> ?nd)) mem_heads f"
    by (rule rings_fun_upd [OF mem_rep_rings [OF rep] new])
  then obtain h where h: "list_add ?p MEM_USED_LIST ((links s)(?p \<mapsto> ?nd)) = Inr h"
      "rings dlist h mem_heads ?f"
    using dl.rings_add [of "(links s)(?p \<mapsto> ?nd)" mem_heads f MEM_USED_LIST ?p] new
    by (auto simp: is_node_def)
  define s' where "s' = upd_stat i 1 0 (s\<lparr>heap_next := Suc (heap_next s),
      malloc_left := malloc_left s - 1, entries := (entries s)(?p \<mapsto> ?e), links := h\<rparr>)"
  have run: "alloc_fresh m sz i s = Inr (?p, s')"
    using left h(1) by (simp add: alloc_fresh_def malloc_def with_links_def set_entry_def s'_def)
  have e: "entry_rep 1 ?e" using i by (simp add: entry_rep_def)
  have old: "p \<noteq> ?p" if "l \<in> mem_heads" "p \<in> set (f l)" for l p
    using mem_rep_heap [OF rep that] by auto
  have "stats_rep s' (f(MemPools i := [], MEM_USED_LIST := ?p # f MEM_USED_LIST))"
    using rep i free old [of MEM_USED_LIST]
    by (intro stats_rep_alloc [of s f i ?p s' 0])
      (auto simp: s'_def upd_stat_def in_class_def mem_rep_def)
  then have stats: "stats_rep s' ?f" using free by (simp add: fun_upd_idem)
  have doms: "\<forall>q \<in> dom (entries s'). (\<exists>n < heap_next s'. q = Heap n) \<and> (\<exists>l \<in> mem_heads. q \<in> set (?f l))"
  proof
    fix q assume q: "q \<in> dom (entries s')"
    show "(\<exists>n < heap_next s'. q = Heap n) \<and> (\<exists>l \<in> mem_heads. q \<in> set (?f l))"
    proof (cases "q = ?p")
      case True
      then show ?thesis by (auto simp: s'_def upd_stat_def intro!: bexI [of _ MEM_USED_LIST])
    next
      case False
      with q have "q \<in> dom (entries s)" by (simp add: s'_def upd_stat_def dom_def)
      then obtain n l where "n < heap_next s" "q = Heap n" "l \<in> mem_heads" "q \<in> set (f l)"
        using rep unfolding mem_rep_def by blast
      then show ?thesis by (auto simp: s'_def upd_stat_def intro!: bexI [of _ l])
    qed
  qed
  have "\<exists>e'. entries s' p = Some e' \<and> entry_rep 0 e' \<and> size_class (obj_size e') = j"
    if "j < MEM_TYPE_MAX" "p \<in> set (?f (MemPools j))" for j p
    using that mem_rep_free [OF rep, of j p] old [of "MemPools j" p] by (auto simp: s'_def upd_stat_def)
  moreover have "\<exists>e'. entries s' p = Some e' \<and> entry_rep 1 e'" if "p \<in> set (?f MEM_USED_LIST)" for p
    using that mem_rep_used [OF rep, of p] e by (auto simp: s'_def upd_stat_def)
  moreover have "rings dlist (links s') mem_heads ?f" using h(2) by (simp add: s'_def upd_stat_def)
  ultimately have "mem_rep s' ?f" using doms stats unfolding mem_rep_def by blast
  moreover have "alloc_result m sz ?p s s'"
    using e i mem_rep_fresh_entry [OF rep]
    by (auto simp: alloc_result_def s'_def upd_stat_def nth_append)
  ultimately show ?thesis using run by blast
qed

lemma alloc_pooled_ok:
  assumes rep: "mem_rep s f" and sz: "size_class sz = i" and i: "i < MEM_TYPE_MAX"
    and free: "f (MemPools i) = p # ps"
  shows "\<exists>s'. alloc_pooled m i s = Inr (p, s') \<and>
     mem_rep s' (f(MemPools i := ps, MEM_USED_LIST := p # f MEM_USED_LIST)) \<and>
     alloc_result m sz p s s'"
proof -
  let ?f = "f(MemPools i := ps, MEM_USED_LIST := p # f MEM_USED_LIST)"
  have rings: "rings dlist (links s) mem_heads f" by (rule mem_rep_rings [OF rep])
  obtain n where n: "rd_node (links s) (MemPools i) = Inr n" "nxt n = p"
    using dlist_first [OF rings_at [OF rings, of "MemPools i"]] i free by auto
  obtain e where e: "entries s p = Some e" "entry_rep 0 e" "size_class (obj_size e) = i"
    using mem_rep_free [OF rep i, of p] free by auto
  obtain h1 h2 where h: "list_del p (links s) = Inr h1" "list_add p MEM_USED_LIST h1 = Inr h2"
    "rings dlist h2 mem_heads ?f"
    using dl.rings_move_front [OF rings, of "MemPools i" MEM_USED_LIST p] i free by auto
  have fresh: "p \<notin> set (f MEM_USED_LIST)"
    using rings_disjoint [OF rings, of "MemPools i" MEM_USED_LIST p] i free by auto
  let ?e = "e\<lparr>module := m, refcount := refcount e + 1, obj := splice 0 (replicate (class_bytes i) 0) (obj e)\<rparr>"
  define s' where "s' = set_entry p ?e (upd_stat i 1 (- 1) (s\<lparr>links := h2\<rparr>))"
  have run: "alloc_pooled m i s = Inr (p, s')"
    using n e h by (simp add: alloc_pooled_def with_links_def get_entry_def entry_rep_def s'_def
        upd_stat_def)
  have e': "entry_rep 1 ?e" using e by (simp add: entry_rep_def)
  have sel: "entries s' = (entries s)(p \<mapsto> ?e)" "links s' = h2" "heap_next s' = heap_next s"
    by (simp_all add: s'_def set_entry_def upd_stat_def)
  have stats: "stats_rep s' ?f"
    using rep i free fresh e
    by (intro stats_rep_alloc [of s f i p s' "- 1"])
      (auto simp: s'_def set_entry_def upd_stat_def in_class_def mem_rep_def)
  have "\<exists>e'. entries s' q = Some e' \<and> entry_rep 0 e' \<and> size_class (obj_size e') = j"
    if q: "j < MEM_TYPE_MAX" "q \<in> set (?f (MemPools j))" for j q
  proof -
    have j: "MemPools j \<noteq> MEM_USED_LIST" using q(1) by simp
    have old: "q \<in> set (f (MemPools j))" using q(2) free j by (cases "j = i") auto
    have "distinct (p # ps)" using dl.R_distinct [OF rings_at [OF rings, of "MemPools i"]] i free by simp
    moreover have "j = i" if "q = p"
      using rings_disjoint [OF rings, of "MemPools i" "MemPools j" q] i q(1) old free that by simp
    ultimately have "q \<noteq> p" using q(2) j by (cases "j = i") auto
    then show ?thesis using mem_rep_free [OF rep q(1) old] by (simp add: sel)
  qed
  moreover have "\<exists>e'. entries s' q = Some e' \<and> entry_rep 1 e'" if "q \<in> set (?f MEM_USED_LIST)" for q
    using that mem_rep_used [OF rep, of q] e' by (auto simp: sel)
  moreover have "(\<exists>n < heap_next s'. q = Heap n) \<and> (\<exists>l \<in> mem_heads. q \<in> set (?f l))"
    if "q \<in> dom (entries s')" for q
  proof -
    have "q \<in> dom (entries s)" using that e by (auto simp: sel split: if_splits)
    then obtain l where l: "\<exists>n < heap_next s. q = Heap n" "l \<in> mem_heads" "q \<in> set (f l)"
      using rep unfolding mem_rep_def by blast
    show ?thesis
    proof (cases "q = p \<or> l = MEM_USED_LIST")
      case True
      then have "q \<in> set (?f MEM_USED_LIST)" using l(3) by auto
      with l(1) sel(3) show ?thesis using mem_heads_mem(1) by metis
    next
      case False
      then have "q \<in> set (?f l)" using l(3) free by (cases "l = MemPools i") auto
      with l(1,2) sel(3) show ?thesis by metis
    qed
  qed
  ultimately have "mem_rep s' ?f" using h(3) stats unfolding mem_rep_def sel(2) by blast
  moreover have "alloc_result m sz p s s'" using e e' sz
    by (auto simp: alloc_result_def s'_def set_entry_def upd_stat_def splice_def entry_rep_def nth_append)
  ultimately show ?thesis using run by blast
qed

text \<open>The whole of \<open>mem_alloc\<close>, on every branch.\<close>

lemma mem_alloc_ok:
  assumes rep: "mem_rep s f" and sz: "sz \<le> MAX_EXT_MEM_BLOCK"
    and avail: "f (MemPools (size_class sz)) \<noteq> [] \<or> 0 < malloc_left s"
  shows "\<exists>s'. mem_alloc m sz s = Inr (fst (abs_alloc (size_class sz) (Heap (heap_next s)) f), s') \<and>
     mem_rep s' (snd (abs_alloc (size_class sz) (Heap (heap_next s)) f)) \<and>
     alloc_result m sz (fst (abs_alloc (size_class sz) (Heap (heap_next s)) f)) s s'"
proof -
  have i: "size_class sz < MEM_TYPE_MAX" using sz by (simp only: size_class_lt_iff_word)
  have empty: "list_empty (MemPools (size_class sz)) (links s) = Inr (f (MemPools (size_class sz)) = [])"
    using i by (intro list_empty_ring rings_at [OF mem_rep_rings [OF rep]]) simp
  show ?thesis
  proof (cases "f (MemPools (size_class sz))")
    case Nil
    then show ?thesis using alloc_fresh_ok [OF rep refl i Nil] avail sz i empty
      by (auto simp: mem_alloc_def abs_alloc_def)
  next
    case (Cons p ps)
    then show ?thesis using alloc_pooled_ok [OF rep refl i Cons] sz i empty
      by (auto simp: mem_alloc_def abs_alloc_def)
  qed
qed

lemma mem_alloc_too_big: "\<not> sz \<le> MAX_EXT_MEM_BLOCK \<Longrightarrow> mem_alloc m sz s = Inl Assertion"
  by (simp add: mem_alloc_def)

lemma mem_alloc_no_memory:
  assumes rep: "mem_rep s f" and sz: "sz \<le> MAX_EXT_MEM_BLOCK"
    and none: "f (MemPools (size_class sz)) = []" "malloc_left s = 0"
  shows "mem_alloc m sz s = Inl Invalid_access"
proof -
  have i: "size_class sz < MEM_TYPE_MAX" using sz by (simp only: size_class_lt_iff_word)
  then have "list_empty (MemPools (size_class sz)) (links s) = Inr True"
    using none list_empty_ring [OF rings_at [OF mem_rep_rings [OF rep]], of "MemPools (size_class sz)"]
    by simp
  with sz i none show ?thesis by (simp add: mem_alloc_def alloc_fresh_def malloc_def)
qed

text \<open>If it returns, it returned what \<open>mem_alloc_ok\<close> says.\<close>

lemma mem_alloc_returns:
  assumes "mem_rep s f" and "mem_alloc m sz s = Inr (p, s')"
  shows "sz \<le> MAX_EXT_MEM_BLOCK" and "(p, snd (abs_alloc (size_class sz) (Heap (heap_next s)) f))
      = abs_alloc (size_class sz) (Heap (heap_next s)) f"
    and "mem_rep s' (snd (abs_alloc (size_class sz) (Heap (heap_next s)) f))"
    and "alloc_result m sz p s s'"
proof -
  show sz: "sz \<le> MAX_EXT_MEM_BLOCK" using assms(2) mem_alloc_too_big [of sz m s] by fastforce
  have "f (MemPools (size_class sz)) \<noteq> [] \<or> 0 < malloc_left s"
    using assms(2) mem_alloc_no_memory [OF assms(1) sz, of m] by fastforce
  from mem_alloc_ok [OF assms(1) sz this, of m] assms(2)
  show "(p, snd (abs_alloc (size_class sz) (Heap (heap_next s)) f))
      = abs_alloc (size_class sz) (Heap (heap_next s)) f"
    and "mem_rep s' (snd (abs_alloc (size_class sz) (Heap (heap_next s)) f))"
    and "alloc_result m sz p s s'" by auto
qed

section \<open>Release\<close>

definition block_class :: "mem_entry \<Rightarrow> nat" where
  "block_class e = size_class (obj_size e)"

definition guard_ok :: "mem_entry \<Rightarrow> bool" where
  "guard_ok e \<longleftrightarrow> obj e ! class_bytes (block_class e) = guard_byte"

lemma length_filter_remove1:
  "distinct xs \<Longrightarrow> x \<in> set xs \<Longrightarrow>
   int (length (filter P (remove1 x xs))) = int (length (filter P xs)) - (if P x then 1 else 0)"
proof (induction xs)
  case (Cons a xs)
  then show ?case by (cases "x = a") auto
qed simp

lemma stats_rep_free:
  assumes "stats_rep s f" and "i < MEM_TYPE_MAX" and "p \<in> set (f MEM_USED_LIST)"
    and "distinct (f MEM_USED_LIST)" and "\<And>q j. in_class s' j q = in_class s j q" and "in_class s i p"
    and "mem_stat s' = (mem_stat s)[i := \<lparr>blocks_used = blocks_used (mem_stat s ! i) - 1,
        blocks_free = blocks_free (mem_stat s ! i) + 1\<rparr>]"
  shows "stats_rep s' (abs_free p i f)"
proof -
  have "in_class s j p \<longleftrightarrow> j = i" for j
    using assms(6) by (auto simp: in_class_def split: option.splits)
  moreover have "in_class s' j = in_class s j" for j using assms(5) by auto
  ultimately show ?thesis using assms(1-4,7)
    by (auto simp: stats_rep_def nth_list_update abs_free_def length_filter_remove1)
qed

lemma mem_free_ok:
  assumes rep: "mem_rep s f" and used: "p \<in> set (f MEM_USED_LIST)"
    and e: "entries s p = Some e" and guard: "guard_ok e"
  shows "\<exists>s'. mem_free p s = Inr s' \<and> mem_rep s' (abs_free p (block_class e) f) \<and>
     entries s' = (entries s)(p \<mapsto> e\<lparr>refcount := 0\<rparr>) \<and>
     heap_next s' = heap_next s \<and> malloc_left s' = malloc_left s \<and>
     mem_state.more s' = mem_state.more s"
proof -
  define i where "i = block_class e"
  let ?f = "abs_free p i f" and ?e = "e\<lparr>refcount := 0\<rparr>"
  have rings: "rings dlist (links s) mem_heads f" by (rule mem_rep_rings [OF rep])
  have er: "entry_rep 1 e" using mem_rep_used [OF rep used] e by auto
  then have i: "i < MEM_TYPE_MAX" "size_class (obj_size e) = i" and ne: "MEM_USED_LIST \<noteq> MemPools i"
    by (auto simp: i_def block_class_def entry_rep_def)
  obtain h1 h2 where h: "list_del p (links s) = Inr h1" "list_add_tail p (MemPools i) h1 = Inr h2"
    "rings dlist h2 mem_heads ?f"
    using dl.rings_move_tail [OF rings _ _ ne used] i by (auto simp: abs_free_def)
  define s' where "s' = upd_stat i (- 1) 1 (s\<lparr>entries := (entries s)(p \<mapsto> ?e), links := h2\<rparr>)"
  have run: "mem_free p s = Inr s'"
    using e er i guard h
    by (simp add: mem_free_def get_entry_def entry_rep_def guard_ok_def i_def [symmetric]
        with_links_def set_entry_def s'_def)
  have sel: "entries s' = (entries s)(p \<mapsto> ?e)" "links s' = h2" "heap_next s' = heap_next s"
    by (simp_all add: s'_def upd_stat_def)
  have dist: "distinct (f MEM_USED_LIST)"
    using dl.R_distinct [OF rings_at [OF rings, of MEM_USED_LIST]] by simp
  have stats: "stats_rep s' ?f"
    using rep i used dist e
    by (intro stats_rep_free [of s f i p s']) (auto simp: s'_def upd_stat_def in_class_def mem_rep_def)
  have "\<exists>e'. entries s' q = Some e' \<and> entry_rep 0 e' \<and> size_class (obj_size e') = j"
    if q: "j < MEM_TYPE_MAX" "q \<in> set (?f (MemPools j))" for j q
  proof (cases "q = p")
    case True
    have "j = i"
    proof (rule ccontr)
      assume "j \<noteq> i"
      then have "p \<in> set (f (MemPools j))" using q True by (auto simp: abs_free_def)
      with rings_disjoint [OF rings, of MEM_USED_LIST "MemPools j" p] used q(1) show False by simp
    qed
    then show ?thesis using True er i by (simp add: sel entry_rep_def)
  next
    case False
    then have "q \<in> set (f (MemPools j))" using q by (cases "j = i") (auto simp: abs_free_def)
    then show ?thesis using mem_rep_free [OF rep q(1)] False by (simp add: sel)
  qed
  moreover have "\<exists>e'. entries s' q = Some e' \<and> entry_rep 1 e'" if "q \<in> set (?f MEM_USED_LIST)" for q
    using that mem_rep_used [OF rep, of q] dist ne by (auto simp: sel abs_free_def)
  moreover have "(\<exists>n < heap_next s'. q = Heap n) \<and> (\<exists>l \<in> mem_heads. q \<in> set (?f l))"
    if "q \<in> dom (entries s')" for q
  proof -
    have "q \<in> dom (entries s)" using that e by (auto simp: sel split: if_splits)
    then obtain l where l: "\<exists>n < heap_next s. q = Heap n" "l \<in> mem_heads" "q \<in> set (f l)"
      using rep unfolding mem_rep_def by blast
    have "q \<in> set (?f (if q = p then MemPools i else l))" using l ne by (auto simp: abs_free_def)
    moreover have "(if q = p then MemPools i else l) \<in> mem_heads" using l i by simp
    ultimately show ?thesis using l(1) sel(3) by metis
  qed
  ultimately have "mem_rep s' ?f" using h(3) stats unfolding mem_rep_def sel(2) by blast
  then show ?thesis using run sel by (auto simp: s'_def upd_stat_def i_def)
qed

text \<open>Releases that the assertions of \<open>mem_free\<close> stop.\<close>

lemma mem_free_twice:
  assumes rep: "mem_rep s f" and i: "i < MEM_TYPE_MAX" "p \<in> set (f (MemPools i))"
  shows "mem_free p s = Inl Assertion"
proof -
  obtain e where "entries s p = Some e" "entry_rep 0 e" using mem_rep_free [OF rep i] by auto
  then show ?thesis by (auto simp: mem_free_def get_entry_def entry_rep_def assertE_def Let_def)
qed

lemma mem_free_overrun:
  assumes "entries s p = Some e" "entry_rep 1 e" "\<not> guard_ok e"
  shows "mem_free p s = Inl Assertion"
  using assms
  by (simp add: mem_free_def get_entry_def entry_rep_def guard_ok_def block_class_def)

lemma mem_free_unknown: "entries s p = None \<Longrightarrow> mem_free p s = Inl Invalid_access"
  by (simp add: mem_free_def get_entry_def)

text \<open>
  Conversely, on a consistent state a release that returns was the release of a used block
  whose guard byte is intact.
\<close>

lemma mem_free_returns:
  assumes rep: "mem_rep s f" and "mem_free p s = Inr s'"
  shows "p \<in> set (f MEM_USED_LIST)" and "\<exists>e. entries s p = Some e \<and> guard_ok e"
proof -
  obtain e where e: "entries s p = Some e"
    using assms(2) mem_free_unknown [of s p] by (cases "entries s p") auto
  then obtain l where l: "l \<in> mem_heads" "p \<in> set (f l)" using rep unfolding mem_rep_def by blast
  then obtain i where i: "l = Static i" "i \<le> MEM_TYPE_MAX" by (auto simp: mem_heads_iff)
  have "\<not> i < MEM_TYPE_MAX"
  proof
    assume "i < MEM_TYPE_MAX"
    with mem_free_twice [OF rep this] l i assms(2) show False by simp
  qed
  then have "i = MEM_TYPE_MAX" using i by linarith
  then show used: "p \<in> set (f MEM_USED_LIST)" using l i by simp
  show "\<exists>e. entries s p = Some e \<and> guard_ok e"
    using mem_free_overrun [OF e] mem_rep_used [OF rep used] e assms(2) by auto
qed

section \<open>The interface of the allocator\<close>

text \<open>
  What the buffers and the streams rely on: an allocation hands out a block that was not
  live, of at least the size that was asked for and cleared, and no operation touches the
  contents of another live block or the rest of the state.
\<close>

primrec each :: "('p \<Rightarrow> 's \<Rightarrow> 'e + 's) \<Rightarrow> 'p list \<Rightarrow> 's \<Rightarrow> 'e + 's" where
  "each g [] s = Inr s"
| "each g (p # ps) s = bindE (g p s) (each g ps)"

locale byte_store =
  fixes inv :: "'s \<Rightarrow> bool"
    and blocks :: "'s \<Rightarrow> 'p set"
    and content :: "'s \<Rightarrow> 'p \<Rightarrow> byte list"
    and rest :: "'s \<Rightarrow> 'r"
    and alloc :: "string option \<Rightarrow> size_t \<Rightarrow> 's \<Rightarrow> 'e + ('p \<times> 's)"
    and free :: "'p \<Rightarrow> 's \<Rightarrow> 'e + 's"
    and load :: "'p \<Rightarrow> nat \<Rightarrow> nat \<Rightarrow> 's \<Rightarrow> 'e + byte list"
    and store :: "'p \<Rightarrow> nat \<Rightarrow> byte list \<Rightarrow> 's \<Rightarrow> 'e + 's"
  assumes alloc_law: "inv s \<Longrightarrow> alloc m n s = Inr (p, s') \<Longrightarrow>
      inv s' \<and> p \<notin> blocks s \<and> blocks s' = insert p (blocks s) \<and> unat n \<le> length (content s' p) \<and>
      set (content s' p) \<subseteq> {0} \<and> (\<forall>q \<in> blocks s. content s' q = content s q) \<and> rest s' = rest s"
    and free_law: "inv s \<Longrightarrow> p \<in> blocks s \<Longrightarrow>
      \<exists>s'. free p s = Inr s' \<and> inv s' \<and> blocks s' = blocks s - {p} \<and>
        content s' = content s \<and> rest s' = rest s"
    and load_law: "inv s \<Longrightarrow> p \<in> blocks s \<Longrightarrow> off + k \<le> length (content s p) \<Longrightarrow>
      load p off k s = Inr (take k (drop off (content s p)))"
    and store_law: "inv s \<Longrightarrow> p \<in> blocks s \<Longrightarrow> off + length bs \<le> length (content s p) \<Longrightarrow>
      \<exists>s'. store p off bs s = Inr s' \<and> inv s' \<and> blocks s' = blocks s \<and>
        content s' = (content s)(p := splice off bs (content s p)) \<and> rest s' = rest s"
begin

text \<open>Moving the first \<open>k\<close> bytes of a block into a larger one.\<close>

lemma grow:
  assumes inv: "inv s" and p: "p \<in> blocks s" and al: "alloc m n s = Inr (p', s1)"
    and k: "k \<le> length (content s p)" "k \<le> unat n"
  shows "load p 0 k s1 = Inr (take k (content s p))"
    and "\<exists>s2 s3. store p' 0 (take k (content s p)) s1 = Inr s2 \<and> free p s2 = Inr s3 \<and> inv s3 \<and>
      p' \<notin> blocks s \<and> blocks s3 = insert p' (blocks s - {p}) \<and>
      take k (content s3 p') = take k (content s p) \<and> unat n \<le> length (content s3 p') \<and>
      (\<forall>q \<in> blocks s - {p}. content s3 q = content s q) \<and> rest s3 = rest s \<and>
      rest s2 = rest s \<and> blocks s2 = insert p' (blocks s)"
proof -
  let ?bs = "take k (content s p)"
  from alloc_law [OF inv al] have s1: "inv s1" "p' \<notin> blocks s" "blocks s1 = insert p' (blocks s)"
    "unat n \<le> length (content s1 p')" "\<And>q. q \<in> blocks s \<Longrightarrow> content s1 q = content s q"
    "rest s1 = rest s" by auto
  have len: "length ?bs = k" using k by simp
  show "load p 0 k s1 = Inr ?bs"
    using load_law [OF s1(1), of p 0 k] s1(3,5) p k by simp
  obtain s2 where s2: "store p' 0 ?bs s1 = Inr s2" "inv s2" "blocks s2 = blocks s1"
    "content s2 = (content s1)(p' := splice 0 ?bs (content s1 p'))" "rest s2 = rest s1"
    using store_law [OF s1(1), of p' 0 ?bs] s1(3,4) k len by auto
  obtain s3 where s3: "free p s2 = Inr s3" "inv s3" "blocks s3 = blocks s2 - {p}"
    "content s3 = content s2" "rest s3 = rest s2"
    using free_law [OF s2(2), of p] s2(3) s1(3) p by auto
  have ne: "p' \<noteq> p" using s1(2) p by blast
  have c3: "content s3 p' = splice 0 ?bs (content s1 p')" using s3(4) s2(4) by simp
  have tk: "take k (content s3 p') = ?bs" using c3 take_splice_0 [of ?bs] len by simp
  have ln: "unat n \<le> length (content s3 p')" using c3 len s1(4) k by simp
  have others: "\<forall>q \<in> blocks s - {p}. content s3 q = content s q"
    using s3(4) s2(4) s1(2,5) by auto
  have bl: "blocks s3 = insert p' (blocks s - {p})" using s3(3) s2(3) s1(3) ne by auto
  show "\<exists>s2 s3. store p' 0 ?bs s1 = Inr s2 \<and> free p s2 = Inr s3 \<and> inv s3 \<and>
      p' \<notin> blocks s \<and> blocks s3 = insert p' (blocks s - {p}) \<and>
      take k (content s3 p') = ?bs \<and> unat n \<le> length (content s3 p') \<and>
      (\<forall>q \<in> blocks s - {p}. content s3 q = content s q) \<and> rest s3 = rest s \<and>
      rest s2 = rest s \<and> blocks s2 = insert p' (blocks s)"
    using s2(1,3,5) s3(1,2,5) s1(2,3,6) tk ln others bl by auto
qed

text \<open>Releasing several blocks, one after the other.\<close>

lemma free_all:
  "inv s \<Longrightarrow> distinct ps \<Longrightarrow> set ps \<subseteq> blocks s \<Longrightarrow>
   \<exists>s'. each free ps s = Inr s' \<and> inv s' \<and> blocks s' = blocks s - set ps \<and>
     content s' = content s \<and> rest s' = rest s"
proof (induction ps arbitrary: s)
  case Nil
  then show ?case by simp
next
  case (Cons p ps)
  obtain s1 where s1: "free p s = Inr s1" "inv s1" "blocks s1 = blocks s - {p}"
    "content s1 = content s" "rest s1 = rest s"
    using free_law [OF Cons.prems(1), of p] Cons.prems(3) by auto
  then obtain s' where "each free ps s1 = Inr s'" "inv s'" "blocks s' = blocks s1 - set ps"
    "content s' = content s1" "rest s' = rest s1"
    using Cons.IH [of s1] Cons.prems by auto
  moreover have "blocks s - {p} - set ps = blocks s - set (p # ps)" by auto
  ultimately show ?case using s1 by auto
qed

text \<open>Two allocations never overlap, and releasing both gives the blocks back.\<close>

lemma alloc_free_inverse:
  assumes "inv s" and "alloc m n s = Inr (p, s1)"
  shows "\<exists>s2. free p s1 = Inr s2 \<and> inv s2 \<and> blocks s2 = blocks s \<and>
    (\<forall>q \<in> blocks s. content s2 q = content s q) \<and> rest s2 = rest s"
proof -
  from alloc_law [OF assms] have s1: "inv s1" "p \<notin> blocks s" "blocks s1 = insert p (blocks s)"
    "\<forall>q \<in> blocks s. content s1 q = content s q" "rest s1 = rest s" by auto
  from free_law [OF s1(1), of p] s1 show ?thesis by auto
qed

end

text \<open>
  The model of \<open>mem.c\<close> provides it. Its invariant says in addition that no guard byte
  has been overwritten; the usable bytes of a block are all but the guard.
\<close>

definition mem_ok :: "'z mem_state_scheme \<Rightarrow> bool" where
  "mem_ok s \<longleftrightarrow> (\<exists>f. mem_rep s f) \<and> (\<forall>p e. entries s p = Some e \<longrightarrow> guard_ok e)"

definition block_bytes :: "'z mem_state_scheme \<Rightarrow> loc \<Rightarrow> byte list" where
  "block_bytes s p = (case entries s p of None \<Rightarrow> []
     | Some e \<Rightarrow> take (class_bytes (block_class e)) (obj e))"

lemma set_entry_sel [simp]:
  "links (set_entry p e s) = links s" "mem_stat (set_entry p e s) = mem_stat s"
  "entries (set_entry p e s) = (entries s)(p \<mapsto> e)" "heap_next (set_entry p e s) = heap_next s"
  "malloc_left (set_entry p e s) = malloc_left s"
  "mem_state.more (set_entry p e s) = mem_state.more s"
  by (simp_all add: set_entry_def)

text \<open>Writing the bytes of a block keeps the representation.\<close>

lemma mem_rep_set_obj:
  assumes rep: "mem_rep s f" and e: "entries s p = Some e" and len: "length bs = length (obj e)"
  shows "mem_rep (set_entry p (e\<lparr>obj := bs\<rparr>) s) f"
proof -
  let ?s = "set_entry p (e\<lparr>obj := bs\<rparr>) s"
  have cls: "in_class ?s j = in_class s j" for j
    using e by (auto simp: in_class_def fun_eq_iff)
  have er: "entry_rep r (e\<lparr>obj := bs\<rparr>) = entry_rep r e" for r
    using len by (simp add: entry_rep_def)
  have "stats_rep ?s f" using rep cls by (simp add: mem_rep_def stats_rep_def)
  moreover have "\<exists>e'. entries ?s q = Some e' \<and> entry_rep 0 e' \<and> size_class (obj_size e') = j"
    if "j < MEM_TYPE_MAX" "q \<in> set (f (MemPools j))" for q j
    using mem_rep_free [OF rep that] e er by (cases "q = p") auto
  moreover have "\<exists>e'. entries ?s q = Some e' \<and> entry_rep 1 e'" if "q \<in> set (f MEM_USED_LIST)" for q
    using mem_rep_used [OF rep that] e er by (cases "q = p") auto
  moreover have "dom (entries ?s) = dom (entries s)" using e by auto
  then have "\<forall>q \<in> dom (entries ?s). (\<exists>n < heap_next ?s. q = Heap n) \<and>
      (\<exists>l \<in> mem_heads. q \<in> set (f l))"
    using rep unfolding mem_rep_def by simp
  ultimately show ?thesis using mem_rep_rings [OF rep] unfolding mem_rep_def by simp
qed

lemma mem_rep_entry:
  assumes "mem_rep s f" and "entries s p = Some e"
  shows "length (obj e) = class_bytes (block_class e) + 1 \<and> block_class e < MEM_TYPE_MAX"
proof -
  obtain l where l: "l \<in> mem_heads" "p \<in> set (f l)" using assms unfolding mem_rep_def by blast
  then obtain i where "l = Static i" "i \<le> MEM_TYPE_MAX" by (auto simp: mem_heads_iff)
  then show ?thesis
    using mem_rep_free [OF assms(1), of i p] mem_rep_used [OF assms(1), of p] assms(2) l
    by (cases "i = MEM_TYPE_MAX") (auto simp: entry_rep_def block_class_def)
qed

lemma block_bytes_obj:
  assumes "mem_rep s f" and "entries s p = Some e" and "guard_ok e"
  shows "obj e = block_bytes s p @ [guard_byte]" and "length (block_bytes s p) = class_bytes (block_class e)"
proof -
  have len: "length (obj e) = Suc (class_bytes (block_class e))" using mem_rep_entry [OF assms(1,2)] by simp
  show "length (block_bytes s p) = class_bytes (block_class e)"
    using assms(2) len by (simp add: block_bytes_def)
  have "obj e = take (class_bytes (block_class e)) (obj e) @ [obj e ! class_bytes (block_class e)]"
    using len take_Suc_conv_app_nth [of "class_bytes (block_class e)" "obj e"] by simp
  then show "obj e = block_bytes s p @ [guard_byte]"
    using assms(2,3) by (simp add: block_bytes_def guard_ok_def)
qed

lemma abs_alloc_used:
  assumes "mem_rep s f" and "i < MEM_TYPE_MAX" and "(p, f') = abs_alloc i (Heap (heap_next s)) f"
  shows "p \<notin> set (f MEM_USED_LIST)" and "f' MEM_USED_LIST = p # f MEM_USED_LIST"
proof -
  show "f' MEM_USED_LIST = p # f MEM_USED_LIST"
    using assms(3) by (auto simp: abs_alloc_def split: list.splits)
  show "p \<notin> set (f MEM_USED_LIST)"
  proof (cases "f (MemPools i)")
    case Nil
    then show ?thesis using mem_rep_fresh [OF assms(1)] assms(3) mem_heads_mem(1)
      by (auto simp: abs_alloc_def in_rings_def)
  next
    case (Cons q qs)
    then show ?thesis
      using rings_disjoint [OF mem_rep_rings [OF assms(1)], of "MemPools i" MEM_USED_LIST q] assms(2,3)
      by (auto simp: abs_alloc_def)
  qed
qed

lemma mem_alloc_law:
  assumes ok: "mem_ok s" and al: "mem_alloc m n s = Inr (p, s')"
  shows "mem_ok s' \<and> p \<notin> live s \<and> live s' = insert p (live s) \<and> unat n \<le> length (block_bytes s' p) \<and>
    set (block_bytes s' p) \<subseteq> {0} \<and> (\<forall>q \<in> live s. block_bytes s' q = block_bytes s q) \<and>
    mem_state.more s' = mem_state.more s"
proof -
  obtain f where rep: "mem_rep s f" using ok by (auto simp: mem_ok_def)
  define i f' where "i = size_class n" and "f' = snd (abs_alloc i (Heap (heap_next s)) f)"
  note ret = mem_alloc_returns [OF rep al, folded i_def, folded f'_def]
  have i: "i < MEM_TYPE_MAX" using ret(1) unfolding i_def by (simp only: size_class_lt_iff_word)
  note used = abs_alloc_used [OF rep i ret(2)]
  obtain e where e: "entries s' p = Some e" "size_class (obj_size e) = i" "entry_rep 1 e"
    "take (class_bytes i) (obj e) = replicate (class_bytes i) 0"
    and gd: "case entries s p of None \<Rightarrow> obj e ! class_bytes i = guard_byte \<and> obj_size e = n
         | Some e0 \<Rightarrow> obj e ! class_bytes i = obj e0 ! class_bytes i \<and> obj_size e = obj_size e0"
    and others: "\<And>q. q \<noteq> p \<Longrightarrow> entries s' q = entries s q"
    and more: "mem_state.more s' = mem_state.more s"
    using ret(4) unfolding alloc_result_def i_def [symmetric] by blast
  have bb: "block_bytes s' p = replicate (class_bytes i) 0"
    using e by (simp add: block_bytes_def block_class_def)
  have "guard_ok e" using gd ok e(2)
    by (cases "entries s p") (auto simp: mem_ok_def guard_ok_def block_class_def)
  then have "mem_ok s'" unfolding mem_ok_def
    using ok ret(3) e(1) others by (metis mem_ok_def option.inject)
  moreover have "p \<notin> live s" "live s' = insert p (live s)"
    using used mem_rep_live [OF rep] mem_rep_live [OF ret(3)] by auto
  moreover have "\<forall>q \<in> live s. block_bytes s' q = block_bytes s q"
  proof
    fix q assume "q \<in> live s"
    then have "q \<noteq> p" using calculation(2) by blast
    then show "block_bytes s' q = block_bytes s q" by (simp add: block_bytes_def others)
  qed
  moreover have "unat n \<le> class_bytes i" using size_class_fits [of n] i by (simp add: i_def)
  ultimately show ?thesis using bb more by auto
qed

lemma mem_free_law:
  assumes ok: "mem_ok s" and p: "p \<in> live s"
  shows "\<exists>s'. mem_free p s = Inr s' \<and> mem_ok s' \<and> live s' = live s - {p} \<and>
    block_bytes s' = block_bytes s \<and> mem_state.more s' = mem_state.more s"
proof -
  obtain f where rep: "mem_rep s f" using ok by (auto simp: mem_ok_def)
  have used: "p \<in> set (f MEM_USED_LIST)" using mem_rep_live [OF rep] p by simp
  obtain e where e: "entries s p = Some e" using p by (auto simp: live_def)
  then have g: "guard_ok e" using ok by (auto simp: mem_ok_def)
  obtain s' where s': "mem_free p s = Inr s'" "mem_rep s' (abs_free p (block_class e) f)"
    "entries s' = (entries s)(p \<mapsto> e\<lparr>refcount := 0\<rparr>)" "mem_state.more s' = mem_state.more s"
    using mem_free_ok [OF rep used e g] by blast
  have "mem_ok s'" using ok s'(2,3) g by (auto simp: mem_ok_def guard_ok_def block_class_def)
  moreover have "live s' = live s - {p}" using s'(3) by (auto simp: live_def)
  moreover have "block_bytes s' = block_bytes s"
    using s'(3) e by (auto simp: block_bytes_def block_class_def)
  ultimately show ?thesis using s'(1,4) by blast
qed

lemma mem_load_law:
  assumes ok: "mem_ok s" and p: "p \<in> live s" and len: "off + k \<le> length (block_bytes s p)"
  shows "mem_load p off k s = Inr (take k (drop off (block_bytes s p)))"
proof -
  obtain e f where e: "entries s p = Some e" "mem_rep s f" "guard_ok e"
    using ok p by (auto simp: mem_ok_def live_def)
  note obj = block_bytes_obj [OF e(2,1,3)]
  show ?thesis using e(1) len by (simp add: mem_load_def get_entry_def obj(1))
qed

lemma mem_store_law:
  assumes ok: "mem_ok s" and p: "p \<in> live s" and len: "off + length bs \<le> length (block_bytes s p)"
  shows "\<exists>s'. mem_store p off bs s = Inr s' \<and> mem_ok s' \<and> live s' = live s \<and>
    block_bytes s' = (block_bytes s)(p := splice off bs (block_bytes s p)) \<and>
    mem_state.more s' = mem_state.more s"
proof -
  obtain e f where e: "entries s p = Some e" "mem_rep s f" "guard_ok e"
    using ok p by (auto simp: mem_ok_def live_def)
  note obj = block_bytes_obj [OF e(2,1,3)]
  let ?o = "splice off bs (block_bytes s p) @ [guard_byte]"
  let ?s = "set_entry p (e\<lparr>obj := ?o\<rparr>) s"
  have run: "mem_store p off bs s = Inr ?s"
    using e(1) len by (simp add: mem_store_def get_entry_def obj(1) splice_append)
  have len': "length (splice off bs (block_bytes s p)) = class_bytes (block_class e)"
    using len obj(2) by simp
  have "mem_rep ?s f" using mem_rep_set_obj [OF e(2,1), of ?o] len' obj by simp
  then have "mem_ok ?s" using ok len' by (auto simp: mem_ok_def guard_ok_def block_class_def nth_append)
  moreover have "live ?s = live s" using e(1) by (auto simp: live_def)
  moreover have "block_bytes ?s = (block_bytes s)(p := splice off bs (block_bytes s p))"
    using len' by (auto simp: block_bytes_def block_class_def)
  ultimately show ?thesis using run by auto
qed

interpretation mem: byte_store mem_ok live block_bytes mem_state.more mem_alloc mem_free mem_load mem_store
  by unfold_locales (rule mem_alloc_law mem_free_law mem_load_law mem_store_law; assumption)+

section \<open>Initialisation\<close>

lemma init_pools_ok:
  assumes nodes: "\<forall>i \<le> MEM_TYPE_MAX. is_node (links s) (Static i)" and "length (mem_stat s) = MEM_TYPE_MAX"
    and "n \<le> MEM_TYPE_MAX"
  shows "\<exists>s'. init_pools n s = Inr s' \<and> rings dlist (links s') (Static ` {..<n}) (\<lambda>_. []) \<and>
     (\<forall>p. is_node (links s') p = is_node (links s) p) \<and> length (mem_stat s') = MEM_TYPE_MAX \<and>
     (\<forall>i < n. mem_stat s' ! i = \<lparr>blocks_used = 0, blocks_free = 0\<rparr>) \<and>
     entries s' = entries s \<and> heap_next s' = heap_next s \<and> malloc_left s' = malloc_left s \<and>
     mem_state.more s' = mem_state.more s"
  using assms(3)
proof (induction n)
  case 0
  then show ?case using assms(2) by (simp add: rings_def)
next
  case (Suc n)
  then obtain s1 where s1: "init_pools n s = Inr s1" "rings dlist (links s1) (Static ` {..<n}) (\<lambda>_. [])"
    "\<forall>p. is_node (links s1) p = is_node (links s) p" "length (mem_stat s1) = MEM_TYPE_MAX"
    "\<forall>i < n. mem_stat s1 ! i = \<lparr>blocks_used = 0, blocks_free = 0\<rparr>" "entries s1 = entries s"
    "heap_next s1 = heap_next s" "malloc_left s1 = malloc_left s"
    "mem_state.more s1 = mem_state.more s" by auto
  have "is_node (links s1) (Static n)" using s1(3) nodes Suc.prems by simp
  moreover have "Static n \<notin> in_rings (Static ` {..<n}) (\<lambda>_. [])" by (auto simp: in_rings_def)
  ultimately obtain h where h: "INIT_LIST_HEAD (Static n) (links s1) = Inr h"
    "rings dlist h (insert (Static n) (Static ` {..<n})) ((\<lambda>_. [])(Static n := []))"
    "\<forall>p. is_node h p = is_node (links s1) p"
    using dl.rings_init [OF s1(2)] by blast
  have "insert (Static n) (Static ` {..<n}) = Static ` {..<Suc n}" by (auto simp: lessThan_Suc)
  with h s1 Suc.prems show ?case
    by (auto simp: with_links_def fun_upd_idem nth_list_update less_Suc_eq)
qed

lemma mem_module_init_ok:
  assumes nodes: "\<forall>i \<le> MEM_TYPE_MAX. is_node (links s) (Static i)" and "length (mem_stat s) = MEM_TYPE_MAX"
    and none: "entries s = (\<lambda>_. None)"
  shows "\<exists>s'. mem_module_init s = Inr s' \<and> mem_rep s' (\<lambda>_. []) \<and> malloc_left s' = malloc_left s \<and>
    mem_state.more s' = mem_state.more s \<and> heap_next s' = heap_next s"
proof -
  obtain s1 where s1: "init_pools MEM_TYPE_MAX s = Inr s1"
    "rings dlist (links s1) (Static ` {..<MEM_TYPE_MAX}) (\<lambda>_. [])"
    "\<forall>p. is_node (links s1) p = is_node (links s) p" "length (mem_stat s1) = MEM_TYPE_MAX"
    "\<forall>i < MEM_TYPE_MAX. mem_stat s1 ! i = \<lparr>blocks_used = 0, blocks_free = 0\<rparr>" "entries s1 = entries s"
    "heap_next s1 = heap_next s" "malloc_left s1 = malloc_left s"
    "mem_state.more s1 = mem_state.more s"
    using init_pools_ok [OF assms(1,2) le_refl] by auto
  have "is_node (links s1) MEM_USED_LIST" using s1(3) nodes by simp
  moreover have "MEM_USED_LIST \<notin> in_rings (Static ` {..<MEM_TYPE_MAX}) (\<lambda>_. [])"
    by (auto simp: in_rings_def)
  ultimately obtain h where h: "INIT_LIST_HEAD MEM_USED_LIST (links s1) = Inr h"
    "rings dlist h (insert MEM_USED_LIST (Static ` {..<MEM_TYPE_MAX})) ((\<lambda>_. [])(MEM_USED_LIST := []))"
    using dl.rings_init [OF s1(2)] by blast
  have heads: "insert MEM_USED_LIST (Static ` {..<MEM_TYPE_MAX}) = mem_heads"
    unfolding mem_heads_def by (force simp: le_less)
  have "mem_rep (s1\<lparr>links := h\<rparr>) (\<lambda>_. [])"
    using h(2) s1 none heads by (auto simp: mem_rep_def stats_rep_def fun_upd_idem)
  with h(1) s1 show ?thesis by (auto simp: mem_module_init_def with_links_def)
qed

lemma mem_rep_init_ok: "mem_rep s (\<lambda>_. []) \<Longrightarrow> mem_ok s \<and> live s = {}"
  using mem_rep_live [of s "\<lambda>_. []"] unfolding mem_ok_def mem_rep_def by (auto 0 4)

section \<open>Statistics\<close>

text \<open>The counters are C \<open>int\<close>s that never go below 0 on a consistent state.\<close>

definition stats_small :: "mem_stat_t list \<Rightarrow> bool" where
  "stats_small stats \<longleftrightarrow> (\<forall>i < MEM_TYPE_MAX. 0 \<le> blocks_used (stats ! i) \<and>
     blocks_used (stats ! i) < 2 ^ 31 \<and> 0 \<le> blocks_free (stats ! i) \<and> blocks_free (stats ! i) < 2 ^ 31)"

lemma length_dec_int: "0 \<le> i \<Longrightarrow> i < 2 ^ 31 \<Longrightarrow> length (dec_int i) \<le> 10"
  using length_dec [of "nat i" 9] by (simp add: dec_int_def)

lemma length_dec_size_t: "length (dec (unat (x :: size_t))) \<le> 20"
  using length_dec [of "unat x" 19] unat_size_t_lt [of x] by simp

lemma length_dec_class: "i < MEM_TYPE_MAX \<Longrightarrow> length (dec (class_bytes i)) \<le> 7"
proof -
  assume "i < MEM_TYPE_MAX"
  then have "i + 4 \<le> 20" by simp
  then have "class_bytes i \<le> 2 ^ 20" by (intro power_increasing) auto
  then show ?thesis using length_dec [of "class_bytes i" 6] by simp
qed

lemma length_stat_line:
  assumes "stats_small stats" and "i < MEM_TYPE_MAX"
  shows "length (stat_line i b (stats ! i)) \<le> 52"
  using assms length_dec_class [of i] length_dec_size_t [of b]
    length_dec_int [of "blocks_used (stats ! i)"] length_dec_int [of "blocks_free (stats ! i)"]
  unfolding stats_small_def stat_line_def by fastforce

lemma snprintf_ok:
  assumes "n \<noteq> 0" and "off + unat n \<le> length buff"
  shows "\<exists>b. snprintf buff off n txt = Inr (b, length txt) \<and> length b = length buff"
proof -
  have "0 < unat n" using assms(1) by (simp add: unat_gt_0)
  then have "off + length (take (unat n - 1) txt @ [CHR 0x00]) \<le> length buff" using assms(2) by simp
  then show ?thesis using assms(1) by (simp add: snprintf_def Let_def)
qed

lemma unat_of_nat_size_t: "n < 2 ^ 64 \<Longrightarrow> unat (of_nat n :: size_t) = n"
  by (simp add: unat_of_nat take_bit_nat_eq_self_iff)

lemma of_nat_le_size_t:
  "n < 2 ^ 64 \<Longrightarrow> (of_nat n :: size_t) < b \<longleftrightarrow> n < unat b"
  "n < 2 ^ 64 \<Longrightarrow> (of_nat n :: size_t) \<le> b \<longleftrightarrow> n \<le> unat b"
  by (simp_all add: word_less_nat_alt word_le_nat_alt unat_of_nat_size_t)

lemma unat_rest:
  "n \<le> unat b \<Longrightarrow> unat (b - (of_nat n :: size_t)) = unat b - n"
  using unat_size_t_lt [of b] by (subst unat_sub_small) (auto simp: of_nat_le_size_t unat_of_nat_size_t)

lemma stat_loop_ok:
  assumes "stats_small stats" and "unat buff_sz \<le> length buff" and "length buff < 2 ^ 31"
    and "cur_sz + 3 \<le> unat buff_sz"
  shows "\<exists>b c t. stat_loop stats buff_sz i (buff, cur_sz, total_sz) = Inr (b, c, t) \<and>
    length b = length buff \<and> c \<le> unat buff_sz + 49"
  using assms
proof (induction "MEM_TYPE_MAX - i" arbitrary: i buff cur_sz total_sz rule: less_induct)
  case less
  show ?case
  proof (cases "i < MEM_TYPE_MAX")
    case True
    let ?blocks = "blocks_used (stats ! i) + blocks_free (stats ! i)"
    define block_sz :: size_t where
      "block_sz = of_int ?blocks * (of_nat (class_bytes i) + of_nat obj_offset)"
    define body where "body = (if ?blocks > 0
        then bindE (snprintf buff cur_sz (buff_sz - of_nat cur_sz) (stat_line i block_sz (stats ! i)))
                 (\<lambda>(buff, fmt_sz). Inr (buff, cur_sz + fmt_sz, total_sz + block_sz))
        else Inr (buff, cur_sz, total_sz))"
    have n: "unat (buff_sz - of_nat cur_sz) = unat buff_sz - cur_sz"
      using less.prems(4) by (intro unat_rest) simp
    then have "buff_sz - of_nat cur_sz \<noteq> 0" using less.prems(4) by (auto simp: unat_eq_0)
    moreover have "cur_sz + unat (buff_sz - of_nat cur_sz) \<le> length buff"
      using n less.prems(2,4) by simp
    ultimately obtain b c t where body: "body = Inr (b, c, t)" "length b = length buff"
      "c \<le> cur_sz + 52"
      using snprintf_ok [of "buff_sz - of_nat cur_sz" cur_sz buff "stat_line i block_sz (stats ! i)"]
        length_stat_line [OF less.prems(1) True, of block_sz]
      by (cases "?blocks > 0") (auto simp: body_def)
    have c: "c < 2 ^ 64" using body(3) less.prems(2,3,4) by simp
    have three: "unat (buff_sz - 3) = unat buff_sz - 3"
      using less.prems(4) unat_rest [of 3 buff_sz] by simp
    have step: "stat_loop stats buff_sz i (buff, cur_sz, total_sz) =
      (if of_nat c > buff_sz - 3 then Inr (b, c, t) else stat_loop stats buff_sz (Suc i) (b, c, t))"
    proof -
      have "stat_loop stats buff_sz i (buff, cur_sz, total_sz) = bindE body (\<lambda>(buff, cur_sz, total_sz).
        if of_nat cur_sz > buff_sz - 3 then Inr (buff, cur_sz, total_sz)
        else stat_loop stats buff_sz (Suc i) (buff, cur_sz, total_sz))"
        unfolding stat_loop.simps [of stats buff_sz i buff cur_sz total_sz] Let_def
        using True by (simp only: if_True body_def block_sz_def)
      then show ?thesis by (simp add: body(1))
    qed
    show ?thesis
    proof (cases "of_nat c > buff_sz - 3")
      case True
      then show ?thesis using step body less.prems(4) by simp
    next
      case False
      then have "c + 3 \<le> unat buff_sz" using c three less.prems(4)
        by (simp add: word_less_nat_alt unat_of_nat_size_t)
      then show ?thesis
        using less.hyps [of "Suc i" b c t] step False True less.prems(1-3) body(2) by auto
    qed
  next
    case False
    then show ?thesis using less.prems(4) by (simp add: stat_loop.simps [of stats buff_sz i])
  qed
qed

lemma statistics_in_bounds_aux:
  assumes small: "stats_small (mem_stat s)" and buff: "unat buff_sz \<le> length buff" "length buff < 2 ^ 31"
    and three: "3 \<le> unat buff_sz"
  shows "\<exists>n b. statistics_mem_info buff buff_sz s = Inr (n, b) \<and> length b = length buff"
proof -
  obtain b c t where loop: "stat_loop (mem_stat s) buff_sz 0 (buff, 0, 0) = Inr (b, c, t)"
    "length b = length buff" "c \<le> unat buff_sz + 49"
    using stat_loop_ok [OF small buff, of 0 0 0] three by auto
  have c: "c < 2 ^ 64" using loop(3) buff by simp
  show ?thesis
  proof (cases "of_nat c < buff_sz")
    case True
    then have "c < unat buff_sz" using c by (simp add: of_nat_le_size_t)
    moreover from this have "unat (buff_sz - of_nat c) = unat buff_sz - c" by (intro unat_rest) simp
    moreover from calculation have "buff_sz - of_nat c \<noteq> 0" by (auto simp: unat_eq_0)
    ultimately show ?thesis
      using snprintf_ok [of "buff_sz - of_nat c" c b "''Total size:'' @ dec (unat t) @ '' ''"]
        loop buff True by (auto simp: statistics_mem_info_def)
  next
    case False
    then show ?thesis using loop by (simp add: statistics_mem_info_def)
  qed
qed

section \<open>Copying into a new block\<close>

text \<open>
  \<open>mem_realloc\<close> copies only when the old size is at most the size stored in the block
  and at most the new size; otherwise the new block is returned cleared.
\<close>

definition realloc_copies :: "mem_entry \<Rightarrow> size_t \<Rightarrow> size_t \<Rightarrow> bool" where
  "realloc_copies e old_size new_size \<longleftrightarrow> old_size \<le> obj_size e \<and> old_size \<le> new_size"

lemma mem_realloc_aux:
  assumes ok: "mem_ok s" and p: "p \<in> live s" and e: "entries s p = Some e"
    and run: "mem_realloc p old_size new_size s = Inr (q, s')"
  shows "mem_ok s' \<and> q \<notin> live s \<and> live s' = insert q (live s - {p}) \<and>
    (\<forall>r \<in> live s - {p}. block_bytes s' r = block_bytes s r) \<and>
    unat new_size \<le> length (block_bytes s' q) \<and>
    (if realloc_copies e old_size new_size
     then take (unat old_size) (block_bytes s' q) = take (unat old_size) (block_bytes s p)
     else set (block_bytes s' q) \<subseteq> {0})"
proof -
  obtain f where rep: "mem_rep s f" and g: "guard_ok e" using ok e by (auto simp: mem_ok_def)
  obtain s1 s2 where al: "mem_alloc (module e) new_size s = Inr (q, s1)"
    and copy: "(if realloc_copies e old_size new_size
      then bindE (mem_load p 0 (unat old_size) s1) (\<lambda>bs. mem_store q 0 bs s1) else Inr s1) = Inr s2"
    and fr: "mem_free p s2 = Inr s'"
    using run e by (auto simp: mem_realloc_def get_entry_def res_simps realloc_copies_def)
  show ?thesis
  proof (cases "realloc_copies e old_size new_size")
    case True
    then have old: "unat old_size \<le> unat (obj_size e)" "unat old_size \<le> unat new_size"
      by (auto simp: realloc_copies_def word_le_nat_alt)
    have "unat (obj_size e) \<le> class_bytes (block_class e)"
      using mem_rep_entry [OF rep e] size_class_fits [of "obj_size e"] by (simp add: block_class_def)
    then have "unat old_size \<le> length (block_bytes s p)"
      using block_bytes_obj(2) [OF rep e g] old by simp
    note grown = mem.grow [OF ok p al this old(2)]
    from copy True have "mem_store q 0 (take (unat old_size) (block_bytes s p)) s1 = Inr s2"
      using grown(1) by simp
    then show ?thesis using grown(2) fr True by auto
  next
    case False
    then have s2: "s2 = s1" using copy by simp
    note s1 = mem.alloc_law [OF ok al]
    then have "p \<in> live s1" and ne: "p \<noteq> q" using p by auto
    with mem.free_law [of s1 p] s1 fr s2 False show ?thesis by auto
  qed
qed

section \<open>Counting the blocks of a module\<close>

lemma count_mod_ok:
  "(\<And>q. q \<in> set qs \<Longrightarrow> entries s q \<noteq> None) \<Longrightarrow>
   \<exists>sz. count_mod m qs (n, osz) s = Inr (n + int (length
     (filter (\<lambda>q. map_option module (entries s q) = Some (Some m)) qs)), sz)"
proof (induction qs arbitrary: n osz)
  case (Cons q qs)
  then obtain e where e: "entries s q = Some e" by fastforce
  then show ?case
    using Cons.IH [of "n + 1" "if osz = 0 then sint (ucast (obj_size e) :: 32 word) else osz"]
      Cons.IH [of n osz] Cons.prems
    by (cases "module e = Some m") (auto simp: get_entry_def)
qed simp

lemma mem_check_mod_count_aux:
  assumes rep: "mem_rep s f"
  shows "\<exists>sz. mem_check_mod_count (Some m) osz s = Some (Inr (int (card
    {p \<in> live s. map_option module (entries s p) = Some (Some m)}), sz))"
proof -
  let ?P = "\<lambda>q. map_option module (entries s q) = Some (Some m)" and ?u = "f MEM_USED_LIST"
  have ring: "dlist (links s) MEM_USED_LIST ?u" by (rule rings_at [OF mem_rep_rings [OF rep]]) simp
  then have "distinct (filter ?P ?u)" by (simp add: dlist_def)
  then have "length (filter ?P ?u) = card (set (filter ?P ?u))"
    by (rule distinct_card [symmetric])
  also have "set (filter ?P ?u) = {p \<in> live s. ?P p}" using mem_rep_live [OF rep] by auto
  finally have "length (filter ?P ?u) = card {p \<in> live s. ?P p}" .
  moreover have "entries s q \<noteq> None" if "q \<in> set ?u" for q
    using mem_rep_used [OF rep that] by auto
  ultimately show ?thesis
    using count_mod_ok [of ?u s m 0 osz] list_for_each_ring [OF ring]
    by (auto simp: mem_check_mod_count_def)
qed

section \<open>Runs\<close>

text \<open>What a caller does with the allocator, as a sequence of operations.\<close>

datatype mem_op = Alloc "string option" size_t | Free loc | Store loc nat "byte list"
  | Realloc loc size_t size_t

definition mem_op :: "mem_op \<Rightarrow> 'z mem_state_scheme \<Rightarrow> 'z mem_state_scheme res" where
  "mem_op op s = (case op of
      Alloc m n \<Rightarrow> bindE (mem_alloc m n s) (\<lambda>(p, s). Inr s)
    | Free p \<Rightarrow> mem_free p s
    | Store p off bs \<Rightarrow> mem_store p off bs s
    | Realloc p old new \<Rightarrow> bindE (mem_realloc p old new s) (\<lambda>(p, s). Inr s))"

text \<open>The caller stays within its block, and reallocates live blocks only.\<close>

definition op_legal :: "'z mem_state_scheme \<Rightarrow> mem_op \<Rightarrow> bool" where
  "op_legal s op = (case op of
      Store p off bs \<Rightarrow> p \<in> live s \<and> off + length bs \<le> length (block_bytes s p)
    | Realloc p old new \<Rightarrow> p \<in> live s
    | _ \<Rightarrow> True)"

inductive mem_run :: "'z mem_state_scheme \<Rightarrow> mem_op list \<Rightarrow> 'z mem_state_scheme \<Rightarrow> bool" where
  run_done: "mem_run s [] s"
| run_op: "op_legal s op \<Longrightarrow> mem_op op s = Inr s1 \<Longrightarrow> mem_run s1 ops s2 \<Longrightarrow> mem_run s (op # ops) s2"

inductive_cases mem_run_ConsE: "mem_run s (op # ops) s'"

primrec net_blocks :: "mem_op \<Rightarrow> int" where
  "net_blocks (Alloc m n) = 1"
| "net_blocks (Free p) = - 1"
| "net_blocks (Store p off bs) = 0"
| "net_blocks (Realloc p old new) = 0"

lemma finite_live: "mem_ok s \<Longrightarrow> finite (live s)"
  unfolding mem_ok_def using mem_rep_live [of s] List.finite_set by metis

lemma mem_op_step:
  assumes "mem_ok s" and "op_legal s op" and "mem_op op s = Inr s'"
  shows "mem_ok s' \<and> int (card (live s')) = int (card (live s)) + net_blocks op"
proof (cases op)
  case (Alloc m n)
  then obtain p where "mem_alloc m n s = Inr (p, s')"
    using assms(3) by (auto simp: mem_op_def res_simps)
  then show ?thesis using mem.alloc_law [OF assms(1)] finite_live [OF assms(1)] Alloc by auto
next
  case (Free p)
  then have fr: "mem_free p s = Inr s'" using assms(3) by (simp add: mem_op_def)
  obtain f where rep: "mem_rep s f" using assms(1) by (auto simp: mem_ok_def)
  have p: "p \<in> live s" using mem_free_returns(1) [OF rep fr] mem_rep_live [OF rep] by simp
  then have "card (live s) = Suc (card (live s - {p}))"
    using finite_live [OF assms(1)] by (rule card.remove [rotated])
  then show ?thesis using mem.free_law [OF assms(1) p] fr Free by auto
next
  case (Store p off bs)
  then show ?thesis using assms mem.store_law [OF assms(1), of p off bs]
    by (auto simp: mem_op_def op_legal_def)
next
  case (Realloc p old new)
  then obtain q where run: "mem_realloc p old new s = Inr (q, s')" and p: "p \<in> live s"
    using assms(2,3) by (auto simp: mem_op_def op_legal_def res_simps)
  obtain e where "entries s p = Some e" using p by (auto simp: live_def)
  note re = mem_realloc_aux [OF assms(1) p this run]
  have fin: "finite (live s)" by (rule finite_live [OF assms(1)])
  then have "card (insert q (live s - {p})) = Suc (card (live s - {p}))"
    using re by (intro card_insert_disjoint) auto
  also have "\<dots> = card (live s)" using fin p by (intro card.remove [symmetric])
  finally have "card (live s') = card (live s)" using re by simp
  then show ?thesis using re Realloc by simp
qed

lemma mem_alloc_left:
  assumes "mem_ok s" and "mem_alloc m n s = Inr (p, s')"
  shows "malloc_left s - 1 \<le> malloc_left s'"
proof -
  obtain f where "mem_rep s f" using assms(1) by (auto simp: mem_ok_def)
  from mem_alloc_returns(4) [OF this assms(2)] show ?thesis by (auto simp: alloc_result_def)
qed

text \<open>A release takes nothing from \<open>malloc\<close>.\<close>

lemma mem_free_left: "mem_free p s = Inr s' \<Longrightarrow> malloc_left s' = malloc_left s"
  by (auto simp: mem_free_def Let_def with_links_def set_entry_def upd_stat_def res_simps)

lemma mem_alloc_total:
  assumes "mem_ok s" and "n \<le> MAX_EXT_MEM_BLOCK" and "0 < malloc_left s"
  shows "\<exists>p s'. mem_alloc m n s = Inr (p, s')"
proof -
  obtain f where "mem_rep s f" using assms(1) by (auto simp: mem_ok_def)
  from mem_alloc_ok [OF this assms(2), of m] assms(3) show ?thesis by blast
qed

section \<open>A start state\<close>

text \<open>
  The state before \<open>mem_module_init\<close>: the static nodes exist, nothing is allocated, and
  \<open>n\<close> calls of \<open>malloc\<close> will succeed.
\<close>

definition boot_node :: lheap where
  "boot_node p = (case p of Static _ \<Rightarrow> Some \<lparr>nxt = Null, prev = Null\<rparr> | _ \<Rightarrow> None)"

definition boot_mem :: "nat \<Rightarrow> 'z \<Rightarrow> 'z mem_state_scheme" where
  "boot_mem n z = \<lparr>links = boot_node, entries = (\<lambda>_. None),
     mem_stat = replicate MEM_TYPE_MAX \<lparr>blocks_used = 0, blocks_free = 0\<rparr>, heap_next = 0, malloc_left = n,
     \<dots> = z\<rparr>"

lemma boot_mem_init:
  "\<exists>s. mem_module_init (boot_mem n z) = Inr s \<and> mem_rep s (\<lambda>_. []) \<and> malloc_left s = n \<and>
     heap_next s = 0 \<and> mem_state.more s = z"
  using mem_module_init_ok [of "boot_mem n z"] by (auto simp: boot_mem_def is_node_def boot_node_def)

lemma mem_alloc_first:
  assumes rep: "mem_rep s (\<lambda>_. [])" and first: "heap_next s = 0" and sz: "sz \<le> MAX_EXT_MEM_BLOCK"
    and left: "0 < malloc_left s"
  shows "\<exists>s'. mem_alloc m sz s = Inr (Heap 0, s') \<and>
     mem_rep s' ((\<lambda>_. [])(MEM_USED_LIST := [Heap 0])) \<and> alloc_result m sz (Heap 0) s s'"
proof -
  have "abs_alloc (size_class sz) (Heap (heap_next s)) (\<lambda>_. []) =
      (Heap 0, (\<lambda>_. [])(MEM_USED_LIST := [Heap 0]))"
    using first by (simp add: abs_alloc_def)
  then show ?thesis using mem_alloc_ok [OF rep sz disjI2 [OF left], of m] by simp
qed

lemma boot_mem_alloc:
  assumes "sz \<le> MAX_EXT_MEM_BLOCK" and "0 < n"
  shows "\<exists>s s'. mem_module_init (boot_mem n z) = Inr s \<and> mem_rep s (\<lambda>_. []) \<and>
     mem_alloc m sz s = Inr (Heap 0, s') \<and> mem_rep s' ((\<lambda>_. [])(MEM_USED_LIST := [Heap 0])) \<and>
     mem_ok s \<and> alloc_result m sz (Heap 0) s s'"
proof -
  obtain s where s: "mem_module_init (boot_mem n z) = Inr s" "mem_rep s (\<lambda>_. [])"
    "malloc_left s = n" "heap_next s = 0" using boot_mem_init [of n z] by auto
  with mem_alloc_first [OF s(2,4) assms(1), of m] assms(2) mem_rep_init_ok [OF s(2)]
  show ?thesis by metis
qed

section \<open>Properties\<close>

text \<open>
  C20. \<open>mem_alloc\<close> refines the allocator on lists of blocks, on every branch: on a
  consistent state it aborts exactly for requests above 1 MB, faults exactly when the pool
  of the class is empty and \<open>malloc\<close> has no memory, and otherwise takes the first block
  of the pool (or a fresh one), puts it at the front of the used list, and leaves a
  consistent state in which only that block has changed and is cleared.
\<close>

theorem mem_alloc_refines:
  assumes "mem_rep s f"
  shows "case mem_alloc m sz s of
      Inl e \<Rightarrow> e = Assertion \<and> 2 ^ 20 < unat sz \<or>
        e = Invalid_access \<and> unat sz \<le> 2 ^ 20 \<and> f (MemPools (size_class sz)) = [] \<and> malloc_left s = 0
    | Inr (p, s') \<Rightarrow> unat sz \<le> 2 ^ 20 \<and>
        (\<exists>f'. (p, f') = abs_alloc (size_class sz) (Heap (heap_next s)) f \<and> mem_rep s' f') \<and>
        alloc_result m sz p s s'"
proof (cases "mem_alloc m sz s")
  case (Inl e)
  have big: "sz \<le> MAX_EXT_MEM_BLOCK \<longleftrightarrow> unat sz \<le> 2 ^ 20" by (simp add: word_le_nat_alt)
  show ?thesis
  proof (cases "sz \<le> MAX_EXT_MEM_BLOCK")
    case True
    have "\<not> (f (MemPools (size_class sz)) \<noteq> [] \<or> 0 < malloc_left s)"
      using mem_alloc_ok [OF assms True, of m] Inl by fastforce
    then have none: "f (MemPools (size_class sz)) = []" "malloc_left s = 0" by auto
    then show ?thesis using mem_alloc_no_memory [OF assms True none, of m] Inl True big by simp
  next
    case False
    then show ?thesis using mem_alloc_too_big [OF False, of m s] Inl big by simp
  qed
next
  case (Inr r)
  obtain p s' where r: "r = (p, s')" by (cases r)
  note ret = mem_alloc_returns [OF assms, of m sz p s']
  have "unat sz \<le> 2 ^ 20" using ret(1) Inr r by (simp add: word_le_nat_alt)
  then show ?thesis using ret Inr r by auto
qed

theorem mem_alloc_refines_witness:
  "\<exists>(s :: mem_state) s'. mem_rep s (\<lambda>_. []) \<and> mem_alloc None 100 s = Inr (Heap 0, s') \<and>
     mem_rep s' ((\<lambda>_. [])(MEM_USED_LIST := [Heap 0]))"
proof -
  obtain s :: mem_state and s' where s: "mem_rep s (\<lambda>_. [])" "mem_alloc None 100 s = Inr (Heap 0, s')"
    using boot_mem_alloc [of 100 1 "()" None] by auto
  from mem_alloc_refines [OF s(1), where m = None and sz = 100] s(2)
  have "mem_rep s' ((\<lambda>_. [])(MEM_USED_LIST := [Heap 0]))" by (auto simp: abs_alloc_def)
  with s show ?thesis by blast
qed

text \<open>
  C21. \<open>mem_free\<close> refines it too: it returns exactly for a used block whose guard byte is
  intact, which goes to the end of the pool of its class; a second release, a release after
  an overrun by one byte, or of a pointer that is no block, never returns.
\<close>

theorem mem_free_refines:
  assumes "mem_rep s f"
  shows "case mem_free p s of
      Inl e \<Rightarrow> e = Invalid_access \<and> entries s p = None \<or>
        e = Assertion \<and> (\<exists>en. entries s p = Some en \<and> (p \<notin> set (f MEM_USED_LIST) \<or> \<not> guard_ok en))
    | Inr s' \<Rightarrow> \<exists>en. entries s p = Some en \<and> p \<in> set (f MEM_USED_LIST) \<and> guard_ok en \<and>
        mem_rep s' (abs_free p (block_class en) f) \<and>
        entries s' = (entries s)(p \<mapsto> en\<lparr>refcount := 0\<rparr>)"
proof (cases "mem_free p s")
  case (Inr s')
  obtain en where "entries s p = Some en" "guard_ok en" "p \<in> set (f MEM_USED_LIST)"
    using mem_free_returns [OF assms Inr] by auto
  with mem_free_ok [OF assms this(3) this(1,2)] Inr show ?thesis by auto
next
  case (Inl e)
  show ?thesis
  proof (cases "entries s p")
    case None
    then show ?thesis using mem_free_unknown [OF None] Inl by simp
  next
    case (Some en)
    obtain l where l: "l \<in> mem_heads" "p \<in> set (f l)" using assms Some unfolding mem_rep_def by blast
    show ?thesis
    proof (cases "l = MEM_USED_LIST")
      case True
      with l have p: "p \<in> set (f MEM_USED_LIST)" by simp
      have "\<not> guard_ok en" using mem_free_ok [OF assms p Some] Inl by fastforce
      then show ?thesis
        using mem_free_overrun [OF Some] mem_rep_used [OF assms p] Some Inl by auto
    next
      case False
      then obtain i where i: "l = MemPools i" "i < MEM_TYPE_MAX"
        using l(1) by (auto simp: mem_heads_iff le_less)
      have "p \<notin> set (f MEM_USED_LIST)"
        using rings_disjoint [OF mem_rep_rings [OF assms] l(1) mem_heads_mem(1) l(2)] False by blast
      then show ?thesis using mem_free_twice [OF assms i(2), of p] l(2) i(1) Inl Some by auto
    qed
  qed
qed

theorem mem_free_refines_witness:
  "\<exists>(s :: mem_state) s'. live s = {Heap 0} \<and> mem_free (Heap 0) s = Inr s' \<and>
     mem_rep s' (abs_free (Heap 0) 3 ((\<lambda>_. [])(MEM_USED_LIST := [Heap 0])))"
proof -
  obtain s0 s :: mem_state where s: "mem_rep s ((\<lambda>_. [])(MEM_USED_LIST := [Heap 0]))" "mem_ok s0"
    "mem_alloc None 100 s0 = Inr (Heap 0, s)" "alloc_result None 100 (Heap 0) s0 s"
    using boot_mem_alloc [of 100 1 "()" None] by auto
  have three: "size_class 100 = 3" unfolding size_class_def by (simp add: class_loop.simps)
  have live: "live s = {Heap 0}" using mem_rep_live [OF s(1)] by simp
  have ok: "mem_ok s" using mem_alloc_law [OF s(2,3)] by blast
  obtain s' where s': "mem_free (Heap 0) s = Inr s'" using mem_free_law [OF ok] live by auto
  obtain e where "entries s (Heap 0) = Some e" "block_class e = 3"
    using s(4) three by (auto simp: alloc_result_def block_class_def)
  with mem_free_refines [OF s(1), of "Heap 0"] s' live show ?thesis by auto
qed

text \<open>
  C22. After any run of legal operations from a consistent state the allocator is consistent
  (rings, classes, reference counts, guards, statistics), and the number of live blocks has
  changed by the allocations minus the releases: no block is lost or handed out twice.
\<close>

theorem mem_run_consistent:
  assumes "mem_run s ops s'" and "mem_ok s"
  shows "mem_ok s' \<and> int (card (live s')) = int (card (live s)) + sum_list (map net_blocks ops)"
  using assms
proof (induction rule: mem_run.induct)
  case (run_op s op s1 ops s2)
  then show ?case using mem_op_step [of s op s1] by simp
qed simp

theorem mem_run_consistent_witness:
  "\<exists>(s :: mem_state) s'. mem_run s [Alloc None 100, Free (Heap 0)] s' \<and> mem_ok s' \<and> card (live s') = 0"
proof -
  obtain s0 s1 :: mem_state where s: "mem_ok s0" "mem_alloc None 100 s0 = Inr (Heap 0, s1)"
    "mem_rep s0 (\<lambda>_. [])" using boot_mem_alloc [of 100 1 "()" None] by auto
  obtain s2 where s2: "mem_free (Heap 0) s1 = Inr s2" using mem.alloc_free_inverse [OF s(1,2)] by auto
  have run: "mem_run s0 [Alloc None 100, Free (Heap 0)] s2"
    using s(2) s2 by (intro mem_run.intros) (auto simp: op_legal_def mem_op_def intro: mem_run.intros)
  from mem_run_consistent [OF run s(1)] have "mem_ok s2" "card (live s2) = 0"
    using mem_rep_live [OF s(3)] by auto
  with run show ?thesis by blast
qed

text \<open>
  C23. The contract of the allocator towards its callers: the block is not one that is live,
  it has at least the requested size and is all zero, and no live block, and nothing outside
  the allocator, changes.
\<close>

theorem mem_alloc_separates:
  assumes "mem_ok s" and "mem_alloc m n s = Inr (p, s')"
  shows "mem_ok s' \<and> p \<notin> live s \<and> live s' = insert p (live s) \<and>
    unat n \<le> length (block_bytes s' p) \<and> set (block_bytes s' p) \<subseteq> {0} \<and>
    (\<forall>q \<in> live s. block_bytes s' q = block_bytes s q) \<and> mem_state.more s' = mem_state.more s"
  by (rule mem.alloc_law [OF assms])

theorem mem_alloc_separates_witness:
  "\<exists>(s :: mem_state) s'. mem_alloc None 100 s = Inr (Heap 0, s') \<and> live s' = {Heap 0} \<and>
     100 \<le> length (block_bytes s' (Heap 0))"
proof -
  obtain s s' :: mem_state where s: "mem_ok s" "mem_alloc None 100 s = Inr (Heap 0, s')"
    "mem_rep s (\<lambda>_. [])" using boot_mem_alloc [of 100 1 "()" None] by auto
  from mem_alloc_separates [OF s(1,2)] mem_rep_live [OF s(3)] s(2) show ?thesis by auto
qed

text \<open>
  \<open>mem_realloc\<close> replaces the block by one of at least the new size and leaves all
  others alone; it carries the first \<open>old_size\<close> bytes over exactly when \<open>old_size\<close> is
  at most the size recorded in the block and at most the new size. In every other case the
  new block is all zero.
\<close>

lemma mem_realloc_content:
  assumes "mem_ok s" and "entries s p = Some e" and "refcount e = 1"
    and "mem_realloc p old_size new_size s = Inr (q, s')"
  shows "mem_ok s' \<and> q \<notin> live s \<and> live s' = insert q (live s - {p}) \<and>
    (\<forall>r \<in> live s - {p}. block_bytes s' r = block_bytes s r) \<and>
    unat new_size \<le> length (block_bytes s' q) \<and>
    (if old_size \<le> obj_size e \<and> old_size \<le> new_size
     then take (unat old_size) (block_bytes s' q) = take (unat old_size) (block_bytes s p)
     else set (block_bytes s' q) \<subseteq> {0})"
  using mem_realloc_aux [OF assms(1) _ assms(2,4)] assms(2,3)
  by (simp add: live_def realloc_copies_def)

lemma mem_realloc_total:
  assumes ok: "mem_ok s" and e: "entries s p = Some e" "refcount e = 1"
    and new: "new_size \<le> MAX_EXT_MEM_BLOCK" and left: "0 < malloc_left s"
  shows "\<exists>q s'. mem_realloc p old_size new_size s = Inr (q, s')"
proof -
  obtain f where rep: "mem_rep s f" and g: "guard_ok e" using ok e by (auto simp: mem_ok_def)
  have p: "p \<in> live s" using e by (auto simp: live_def)
  obtain q s1 where al: "mem_alloc (module e) new_size s = Inr (q, s1)"
    using mem_alloc_ok [OF rep new, of "module e"] left by blast
  note s1 = mem.alloc_law [OF ok al]
  have "\<exists>s2 s3. (if old_size \<le> obj_size e \<and> old_size \<le> new_size
      then bindE (mem_load p 0 (unat old_size) s1) (\<lambda>bs. mem_store q 0 bs s1) else Inr s1) = Inr s2
      \<and> mem_free p s2 = Inr s3"
  proof (cases "old_size \<le> obj_size e \<and> old_size \<le> new_size")
    case True
    then have old: "unat old_size \<le> unat (obj_size e)" "unat old_size \<le> unat new_size"
      by (auto simp: word_le_nat_alt)
    have "unat (obj_size e) \<le> class_bytes (block_class e)"
      using mem_rep_entry [OF rep e(1)] size_class_fits [of "obj_size e"] by (simp add: block_class_def)
    then have "unat old_size \<le> length (block_bytes s p)"
      using block_bytes_obj(2) [OF rep e(1) g] old by simp
    from mem.grow [OF ok p al this old(2)] True show ?thesis by auto
  next
    case False
    then show ?thesis using mem.free_law [of s1 p] s1 p by auto
  qed
  then show ?thesis using e al by (auto simp: mem_realloc_def get_entry_def)
qed

text \<open>One allocation after the start, with the size class of the request.\<close>

lemma boot_one_block:
  assumes "sz \<le> MAX_EXT_MEM_BLOCK"
  shows "\<exists>(s :: 'z mem_state_scheme) e. mem_rep s ((\<lambda>_. [])(MEM_USED_LIST := [Heap 0])) \<and> mem_ok s \<and>
     live s = {Heap 0} \<and> malloc_left s = n \<and> entries s (Heap 0) = Some e \<and> obj_size e = sz \<and>
     refcount e = 1 \<and> mem_state.more s = z"
proof -
  obtain s0 where s0: "mem_module_init (boot_mem (Suc n) z) = Inr s0" "mem_rep s0 (\<lambda>_. [])"
    "malloc_left s0 = Suc n" "heap_next s0 = 0" "mem_state.more s0 = z"
    using boot_mem_init [of "Suc n" z] by auto
  obtain s where s: "mem_alloc None sz s0 = Inr (Heap 0, s)" "alloc_result None sz (Heap 0) s0 s"
    "mem_rep s ((\<lambda>_. [])(MEM_USED_LIST := [Heap 0]))"
    using mem_alloc_first [OF s0(2,4) assms, of None] s0(3) by auto
  have "entries s0 (Heap 0) = None" using mem_rep_fresh_entry [OF s0(2)] s0(4) by simp
  with s(2) s0(3) obtain e where "entries s (Heap 0) = Some e" "obj_size e = sz" "entry_rep 1 e"
    "malloc_left s = n" unfolding alloc_result_def by auto
  moreover have "mem_ok s" "mem_state.more s = z"
    using mem_alloc_law [OF _ s(1)] mem_rep_init_ok [OF s0(2)] s0(5) by auto
  moreover have "live s = {Heap 0}" using mem_rep_live [OF s(3)] by simp
  ultimately show ?thesis using s(3) unfolding entry_rep_def by blast
qed


text \<open>
  \<open>mem_check_mod_count\<close> ends, and counts exactly the live blocks of the module.
\<close>

lemma mem_check_mod_count_counts:
  assumes "mem_rep s f"
  shows "\<exists>sz. mem_check_mod_count (Some m) osz s = Some (Inr (int (card
    {p \<in> live s. map_option module (entries s p) = Some (Some m)}), sz))"
  by (rule mem_check_mod_count_aux [OF assms])

text \<open>
  With a buffer of at least three bytes \<open>statistics_mem_info\<close> never writes outside it,
  however many pools are in use.
\<close>

lemma statistics_in_bounds:
  assumes "stats_small (mem_stat s)" and "unat buff_sz \<le> length buff" and "length buff < 2 ^ 31"
    and "3 \<le> unat buff_sz"
  shows "\<exists>n b. statistics_mem_info buff buff_sz s = Inr (n, b) \<and> length b = length buff"
  by (rule statistics_in_bounds_aux [OF assms])

text \<open>
  With a buffer of one byte the differences wrap around: as soon as two pools are in
  use, the second line is written behind the buffer.
\<close>

lemma statistics_overflows_tiny_buffer:
  assumes "stats_small (mem_stat s)"
    and "0 < blocks_used (mem_stat s ! 0)" and "0 < blocks_used (mem_stat s ! 1)"
  shows "statistics_mem_info [c] 1 s = Inl Invalid_access"
proof -
  let ?st = "mem_stat s"
  define b0 b1 :: size_t where
    "b0 = of_int (blocks_used (?st ! 0) + blocks_free (?st ! 0)) * (of_nat (class_bytes 0) + of_nat obj_offset)"
    and "b1 = of_int (blocks_used (?st ! 1) + blocks_free (?st ! 1)) * (of_nat (class_bytes 1) + of_nat obj_offset)"
  let ?l0 = "stat_line 0 b0 (?st ! 0)" and ?l1 = "stat_line 1 b1 (?st ! 1)"
  have pos: "blocks_used (?st ! 0) + blocks_free (?st ! 0) > 0" "blocks_used (?st ! 1) + blocks_free (?st ! 1) > 0"
    using assms by (auto simp: stats_small_def add_pos_nonneg)
  have len: "length ?l0 \<le> 52" "2 \<le> length ?l0" "2 \<le> length ?l1"
    using length_stat_line [OF assms(1), of 0 b0] by (auto simp: stat_line_def)
  obtain b where first: "snprintf [c] 0 1 ?l0 = Inr (b, length ?l0)" "length b = 1"
    using snprintf_ok [of 1 0 "[c]" ?l0] by auto
  have "\<not> (of_nat (length ?l0) :: size_t) > 1 - 3"
    using len(1) by (simp add: word_less_nat_alt unat_of_nat_size_t)
  then have 0: "stat_loop ?st 1 0 ([c], 0, 0) = stat_loop ?st 1 (Suc 0) (b, length ?l0, b0)"
    unfolding stat_loop.simps [of ?st 1 0 "[c]" 0 0] Let_def b0_def [symmetric]
    using pos(1) first by (simp add: b0_def)
  have n: "unat (1 - of_nat (length ?l0) :: size_t) = 2 ^ 64 + 1 - length ?l0"
    using len by (simp add: unat_sub_if' unat_of_nat_size_t word_size)
  then have "(1 - of_nat (length ?l0) :: size_t) \<noteq> 0" using len(1) by (auto simp: unat_eq_0 simp del: unat_0_iff)
  moreover have "\<not> length ?l0 + length (take (unat (1 - of_nat (length ?l0) :: size_t) - 1) ?l1 @ [CHR 0x00]) \<le> length b"
    using len(2) first(2) by auto
  ultimately have second: "snprintf b (length ?l0) (1 - of_nat (length ?l0)) ?l1 = Inl Invalid_access"
    by (simp add: snprintf_def Let_def del: length_append)
  have "stat_loop ?st 1 (Suc 0) (b, length ?l0, b0) = Inl Invalid_access"
    unfolding stat_loop.simps [of ?st 1 "Suc 0" b "length ?l0" b0] Let_def
    using pos(2) second by (simp add: b1_def)
  then show ?thesis using 0 by (simp add: statistics_mem_info_def)
qed

text \<open>
  The size class of a request is the smallest power of two from 16 bytes on that holds
  it, for every request up to 1 MB.
\<close>

lemma size_class_smallest:
  "(size_class sz < MEM_TYPE_MAX) = (unat sz \<le> 2 ^ 20) \<and>
   (size_class sz < MEM_TYPE_MAX \<longrightarrow> unat sz \<le> class_bytes (size_class sz)) \<and>
   (\<forall>j < size_class sz. class_bytes j < unat sz)"
  using size_class_lt_iff size_class_fits size_class_least by blast

end
