(* ===== verification/Buf.thy ===== *)
theory Buf
  imports Mem
begin

text \<open>
  The byte buffers of \<open>buf.c\<close> and \<open>buf.h\<close> on top of the pooled allocator.

  A \<open>buf_t\<close> lives in a block of its own, and its bytes in another; \<open>bufs\<close> is the typed
  view of the blocks that hold a \<open>buf_t\<close>. An access to a \<open>buf_t\<close> whose block has been
  released is a fault. The lemmas show that a buffer is a byte queue: \<open>buf_put\<close> appends
  (and grows the block when it must), \<open>buf_pick\<close> removes a prefix, and no other buffer
  or block is affected. The wrap-around of \<open>size_t\<close> is kept throughout.
\<close>

section \<open>State\<close>

record buf_t =
  buffer :: loc
  buf_len :: size_t
  data_len :: size_t

record buf_state = mem_state +
  bufs :: "loc \<Rightarrow> buf_t option"

text \<open>\<open>sizeof(buf_t)\<close>\<close>

abbreviation sizeof_buf_t :: size_t where
  "sizeof_buf_t \<equiv> 24"

definition is_live :: "'z mem_state_scheme \<Rightarrow> loc \<Rightarrow> bool" where
  "is_live s p = (case entries s p of None \<Rightarrow> False | Some e \<Rightarrow> refcount e = 1)"

lemma is_live_iff: "is_live s p \<longleftrightarrow> p \<in> live s"
  by (auto simp: is_live_def live_def split: option.splits)

definition get_buf :: "loc \<Rightarrow> 'z buf_state_scheme \<Rightarrow> buf_t res" where
  "get_buf b s = (case bufs s b of
      None \<Rightarrow> Inl Invalid_access
    | Some B \<Rightarrow> if is_live s b then Inr B else Inl Invalid_access)"

definition set_buf :: "loc \<Rightarrow> buf_t \<Rightarrow> 'z buf_state_scheme \<Rightarrow> 'z buf_state_scheme" where
  "set_buf b B s = s\<lparr>bufs := (bufs s)(b \<mapsto> B)\<rparr>"

section \<open>Operations\<close>

definition buf_free_space :: "loc \<Rightarrow> 'z buf_state_scheme \<Rightarrow> size_t res" where
  "buf_free_space b s = bindE (get_buf b s) (\<lambda>B. Inr (buf_len B - data_len B))"

definition clear_space :: "loc \<Rightarrow> 'z buf_state_scheme \<Rightarrow> 'z buf_state_scheme res" where
  "clear_space b s =
     bindE (get_buf b s) (\<lambda>B.
     bindE (mem_store (buffer B) 0 [0] s) (\<lambda>s.
     Inr (set_buf b (B\<lparr>data_len := 0\<rparr>) s)))"

definition buf_data_size :: "loc \<Rightarrow> 'z buf_state_scheme \<Rightarrow> size_t res" where
  "buf_data_size b s = bindE (get_buf b s) (\<lambda>B. Inr (data_len B))"

text \<open>A pointer into a block: the block and the offset.\<close>

definition buf_end_position :: "loc \<Rightarrow> 'z buf_state_scheme \<Rightarrow> (loc \<times> nat) res" where
  "buf_end_position b s = bindE (get_buf b s) (\<lambda>B. Inr (buffer B, unat (data_len B)))"

definition buf_pick :: "loc \<Rightarrow> size_t \<Rightarrow> 'z buf_state_scheme \<Rightarrow> 'z buf_state_scheme res" where
  "buf_pick b len s =
     bindE (get_buf b s) (\<lambda>B.
     bindE (assertE (data_len B \<ge> len)) (\<lambda>_.
     let B = B\<lparr>data_len := data_len B - len\<rparr>; s = set_buf b B s in
     if data_len B > 0
     then bindE (mem_load (buffer B) (unat len) (unat (data_len B)) s) (\<lambda>bs.
          mem_store (buffer B) 0 bs s)
     else Inr s))"

definition buf_realloc :: "loc \<Rightarrow> size_t \<Rightarrow> 'z buf_state_scheme \<Rightarrow> (int \<times> 'z buf_state_scheme) res" where
  "buf_realloc b len s =
     bindE (get_buf b s) (\<lambda>B.
     bindE (mem_alloc (Some ''buf'') (buf_len B + len) s) (\<lambda>(n, s).
     bindE (mem_load (buffer B) 0 (unat (data_len B)) s) (\<lambda>bs.
     bindE (mem_store n 0 bs s) (\<lambda>s.
     bindE (mem_free (buffer B) s) (\<lambda>s.
     Inr (0, set_buf b (B\<lparr>buffer := n, buf_len := buf_len B + len\<rparr>) s))))))"

text \<open>\<open>data\<close> is what can be read from the pointer \<open>data\<close> on.\<close>

definition buf_put :: "loc \<Rightarrow> byte list \<Rightarrow> size_t \<Rightarrow> 'z buf_state_scheme \<Rightarrow> (int \<times> 'z buf_state_scheme) res" where
  "buf_put b data len s =
     bindE (buf_free_space b s) (\<lambda>space.
     bindE (if space < len then buf_realloc b len s else Inr (0, s)) (\<lambda>(r, s).
     if r < 0 then Inr (- 1, s)
     else
       bindE (get_buf b s) (\<lambda>B.
       bindE (accessE (unat len \<le> length data)) (\<lambda>_.
       bindE (mem_store (buffer B) (unat (data_len B)) (take (unat len) data) s) (\<lambda>s.
       Inr (0, set_buf b (B\<lparr>data_len := data_len B + len\<rparr>) s))))))"

text \<open>
  How \<open>stream_create\<close> and \<open>alloc_work_buff\<close> make a buffer (a \<open>buf_t\<close> and a block of
  \<open>cap\<close> bytes; \<open>mem_alloc\<close> has cleared both), and how \<open>free_transaction_stream\<close> and
  \<open>close_stream\<close> give it back.
\<close>

definition buf_new ::
  "string \<Rightarrow> string \<Rightarrow> size_t \<Rightarrow> 'z buf_state_scheme \<Rightarrow> (loc \<times> 'z buf_state_scheme) res" where
  "buf_new m1 m2 cap s =
     bindE (mem_alloc (Some m1) sizeof_buf_t s) (\<lambda>(b, s).
     let s = set_buf b \<lparr>buffer = Null, buf_len = 0, data_len = 0\<rparr> s in
     bindE (mem_alloc (Some m2) cap s) (\<lambda>(d, s).
     Inr (b, set_buf b \<lparr>buffer = d, buf_len = cap, data_len = 0\<rparr> s)))"

definition buf_delete :: "loc \<Rightarrow> 'z buf_state_scheme \<Rightarrow> 'z buf_state_scheme res" where
  "buf_delete b s =
     bindE (get_buf b s) (\<lambda>B.
     bindE (mem_free (buffer B) s) (\<lambda>s.
     bindE (mem_free b s) (\<lambda>s.
     Inr (s\<lparr>bufs := (bufs s)(b := None)\<rparr>))))"

section \<open>Buffers as byte queues\<close>

definition buf_ok :: "'z buf_state_scheme \<Rightarrow> loc \<Rightarrow> bool" where
  "buf_ok s b \<longleftrightarrow> (\<exists>B. bufs s b = Some B \<and> b \<in> live s \<and> buffer B \<in> live s \<and> b \<noteq> buffer B \<and>
     data_len B \<le> buf_len B \<and> unat (buf_len B) \<le> length (block_bytes s (buffer B)) \<and> 0 < buf_len B)"

definition buf_bytes :: "'z buf_state_scheme \<Rightarrow> loc \<Rightarrow> byte list" where
  "buf_bytes s b = (case bufs s b of None \<Rightarrow> []
     | Some B \<Rightarrow> take (unat (data_len B)) (block_bytes s (buffer B)))"

definition buf_room :: "'z buf_state_scheme \<Rightarrow> loc \<Rightarrow> nat" where
  "buf_room s b = (case bufs s b of None \<Rightarrow> 0 | Some B \<Rightarrow> unat (buf_len B) - unat (data_len B))"

text \<open>The blocks a buffer owns.\<close>

definition buf_blocks :: "'z buf_state_scheme \<Rightarrow> loc \<Rightarrow> loc set" where
  "buf_blocks s b = (case bufs s b of None \<Rightarrow> {} | Some B \<Rightarrow> {b, buffer B})"

text \<open>
  \<open>buf_step s s' b\<close>: an operation on \<open>b\<close> has changed the blocks that \<open>b\<close> owns only,
  and has possibly exchanged its data block for another.
\<close>

definition buf_step :: "'z buf_state_scheme \<Rightarrow> 'z buf_state_scheme \<Rightarrow> loc \<Rightarrow> bool" where
  "buf_step s s' b \<longleftrightarrow> mem_ok s' \<and> buf_ok s' b \<and>
     live s' = (live s - buf_blocks s b) \<union> buf_blocks s' b \<and>
     buf_blocks s' b \<inter> live s \<subseteq> buf_blocks s b \<and>
     (\<forall>q \<in> live s - buf_blocks s b. block_bytes s' q = block_bytes s q) \<and>
     (\<forall>c. c \<noteq> b \<longrightarrow> bufs s' c = bufs s c) \<and> buf_state.more s' = buf_state.more s"

lemma buf_ok_get: "buf_ok s b \<Longrightarrow> \<exists>B. bufs s b = Some B \<and> get_buf b s = Inr B"
  by (auto simp: buf_ok_def get_buf_def is_live_iff)

lemma set_buf_sel [simp]:
  "links (set_buf b B s) = links s" "entries (set_buf b B s) = entries s"
  "mem_stat (set_buf b B s) = mem_stat s" "heap_next (set_buf b B s) = heap_next s"
  "malloc_left (set_buf b B s) = malloc_left s" "bufs (set_buf b B s) = (bufs s)(b \<mapsto> B)"
  "buf_state.more (set_buf b B s) = buf_state.more s"
  by (simp_all add: set_buf_def)

text \<open>The allocator reads its own fields only.\<close>

lemma mem_fields_cong:
  assumes "links s' = links s" "entries s' = entries s" "mem_stat s' = mem_stat s"
    "heap_next s' = heap_next s"
  shows "mem_rep s' f = mem_rep s f" "mem_ok s' = mem_ok s" "live s' = live s"
    "block_bytes s' = block_bytes s"
proof -
  have "in_class s' = in_class s" using assms by (auto simp: in_class_def fun_eq_iff)
  then have rep: "mem_rep s' f = mem_rep s f" for f
    using assms by (simp add: mem_rep_def stats_rep_def)
  then show "mem_rep s' f = mem_rep s f" .
  show "mem_ok s' = mem_ok s" using rep assms by (simp add: mem_ok_def)
  show "live s' = live s" "block_bytes s' = block_bytes s"
    using assms by (auto simp: live_def block_bytes_def fun_eq_iff)
qed

lemma set_buf_mem [simp]:
  "mem_ok (set_buf b B s) = mem_ok s" "live (set_buf b B s) = live s"
  "block_bytes (set_buf b B s) = block_bytes s"
  by (rule mem_fields_cong; simp)+

lemma mem_more_buf:
  "mem_state.more s' = mem_state.more s \<Longrightarrow> bufs s' = bufs s \<and> buf_state.more s' = buf_state.more s"
  for s s' :: "'z buf_state_scheme"
  by (cases s; cases s') simp

text \<open>Storing bytes in the block of a buffer and setting its length.\<close>

lemma buf_write:
  assumes ok: "mem_ok s" "buf_ok s b" and B: "bufs s b = Some B"
    and len: "off + length bs \<le> unat (buf_len B)"
    and B': "buffer B' = buffer B" "buf_len B' = buf_len B" "data_len B' \<le> buf_len B"
  shows "\<exists>s1. mem_store (buffer B) off bs s = Inr s1 \<and> bufs s1 = bufs s \<and>
     mem_ok s1 \<and> live s1 = live s \<and> buf_step s (set_buf b B' s1) b \<and>
     buf_bytes (set_buf b B' s1) b = take (unat (data_len B')) (splice off bs (block_bytes s (buffer B)))"
proof -
  have own: "b \<in> live s" "buffer B \<in> live s" "b \<noteq> buffer B" "0 < buf_len B"
    and cap: "unat (buf_len B) \<le> length (block_bytes s (buffer B))"
    using ok(2) B by (auto simp: buf_ok_def)
  obtain s1 where s1: "mem_store (buffer B) off bs s = Inr s1" "mem_ok s1" "live s1 = live s"
    "block_bytes s1 = (block_bytes s)(buffer B := splice off bs (block_bytes s (buffer B)))"
    "mem_state.more s1 = mem_state.more s"
    using mem.store_law [OF ok(1) own(2), of off bs] len cap by auto
  have b1: "bufs s1 = bufs s" "buf_state.more s1 = buf_state.more s" using mem_more_buf [OF s1(5)] by auto
  have "buf_ok (set_buf b B' s1) b"
    using own cap B' s1(3,4) len unfolding buf_ok_def by auto
  then have "buf_step s (set_buf b B' s1) b"
    using s1 b1 B B' own unfolding buf_step_def buf_blocks_def by auto
  then show ?thesis using s1 b1 B' by (auto simp: buf_bytes_def)
qed

lemma set_buf_idem: "bufs s b = Some B \<Longrightarrow> set_buf b B s = s"
  by (cases s) (simp add: set_buf_def fun_upd_idem)

lemma clear_space_ok:
  assumes "mem_ok s" "buf_ok s b"
  shows "\<exists>s'. clear_space b s = Inr s' \<and> buf_step s s' b \<and> buf_bytes s' b = []"
proof -
  obtain B where B: "bufs s b = Some B" "get_buf b s = Inr B" using buf_ok_get [OF assms(2)] by blast
  have "0 < unat (buf_len B)" using assms(2) B by (simp add: buf_ok_def unat_gt_0 word_gt_0)
  then obtain s1 where "mem_store (buffer B) 0 [0] s = Inr s1"
    "buf_step s (set_buf b (B\<lparr>data_len := 0\<rparr>) s1) b"
    "buf_bytes (set_buf b (B\<lparr>data_len := 0\<rparr>) s1) b = []"
    using buf_write [OF assms B(1), of 0 "[0]" "B\<lparr>data_len := 0\<rparr>"] by auto
  then show ?thesis using B by (simp add: clear_space_def)
qed

lemma buf_data_size_ok:
  assumes "buf_ok s b"
  shows "\<exists>n. buf_data_size b s = Inr n \<and> unat n = length (buf_bytes s b)"
  using assms by (auto simp: buf_ok_def buf_data_size_def get_buf_def is_live_iff buf_bytes_def
      word_le_nat_alt min_def)

lemma buf_free_space_ok:
  assumes "buf_ok s b"
  shows "\<exists>n. buf_free_space b s = Inr n \<and> unat n = buf_room s b"
  using assms by (auto simp: buf_ok_def buf_free_space_def get_buf_def is_live_iff buf_room_def
      unat_sub_small)

lemma buf_step_set_data:
  assumes "buf_step s (set_buf b B' (set_buf b B'' s1)) b"
  shows "buf_step s (set_buf b B' s1) b"
  using assms by (simp add: set_buf_def)

lemma buf_pick_ok:
  assumes ok: "mem_ok s" "buf_ok s b" and len: "unat len \<le> length (buf_bytes s b)"
  shows "\<exists>s'. buf_pick b len s = Inr s' \<and> buf_step s s' b \<and>
    buf_bytes s' b = drop (unat len) (buf_bytes s b)"
proof -
  obtain B where B: "bufs s b = Some B" "get_buf b s = Inr B" using buf_ok_get [OF ok(2)] by blast
  let ?bb = "block_bytes s (buffer B)" and ?B' = "B\<lparr>data_len := data_len B - len\<rparr>"
  have own: "b \<in> live s" "buffer B \<in> live s" "b \<noteq> buffer B"
    and caps: "unat (data_len B) \<le> unat (buf_len B)" "unat (buf_len B) \<le> length ?bb"
    using ok(2) B by (auto simp: buf_ok_def word_le_nat_alt)
  have le: "len \<le> data_len B" using len caps B by (simp add: buf_bytes_def word_le_nat_alt)
  define k where "k = unat (data_len B - len)"
  have k: "unat len + k = unat (data_len B)" using le by (simp add: k_def unat_sub_small word_le_nat_alt)
  let ?bs = "take k (drop (unat len) ?bb)"
  have lenbs: "length ?bs = k" using k caps by simp
  have ok1: "mem_ok (set_buf b ?B' s)" "buf_ok (set_buf b ?B' s) b"
    using ok B own caps le by (auto simp: buf_ok_def word_le_nat_alt unat_sub_small)
  have load: "mem_load (buffer B) (unat len) k (set_buf b ?B' s) = Inr ?bs"
    using mem.load_law [OF ok1(1), of "buffer B" "unat len" k] own(2) k caps by simp
  obtain s1 where s1: "mem_store (buffer B) 0 ?bs (set_buf b ?B' s) = Inr s1"
    "bufs s1 = (bufs s)(b \<mapsto> ?B')" "buf_step (set_buf b ?B' s) (set_buf b ?B' s1) b"
    "buf_bytes (set_buf b ?B' s1) b = take k (splice 0 ?bs ?bb)"
    using buf_write [OF ok1, of ?B' 0 ?bs ?B'] k lenbs caps by (auto simp: k_def word_le_nat_alt)
  have idem: "set_buf b ?B' s1 = s1" using s1(2) by (intro set_buf_idem) simp
  have drop: "drop (unat len) (buf_bytes s b) = ?bs"
    using B k [symmetric] by (simp add: buf_bytes_def drop_take)
  have "buf_step s s1 b" using s1(3) B unfolding idem
    by (auto simp: buf_step_def buf_blocks_def split: option.splits)
  moreover have "buf_bytes s1 b = ?bs"
    using s1(4) take_splice_0 [of ?bs ?bb] unfolding idem lenbs by simp
  moreover have "buf_step s (set_buf b ?B' s) b \<and> buf_bytes (set_buf b ?B' s) b = ?bs" if "k = 0"
    using that ok1 B own by (auto simp: buf_step_def buf_blocks_def buf_bytes_def k_def)
  moreover have "data_len ?B' > 0 \<longleftrightarrow> k \<noteq> 0" by (simp add: k_def word_gt_0 unat_eq_0)
  ultimately show ?thesis
    using B le load s1(1) drop by (cases "k = 0") (auto simp: buf_pick_def Let_def k_def [symmetric])
qed

lemma buf_pick_too_much:
  assumes "buf_ok s b" and "length (buf_bytes s b) < unat len"
  shows "buf_pick b len s = Inl Assertion"
proof -
  obtain B where B: "bufs s b = Some B" "get_buf b s = Inr B" using buf_ok_get [OF assms(1)] by blast
  then have "\<not> len \<le> data_len B"
    using assms by (auto simp: buf_bytes_def buf_ok_def word_le_nat_alt)
  then show ?thesis using B by (simp add: buf_pick_def)
qed

lemma buf_step_trans:
  assumes 1: "buf_step s s1 b" and 2: "buf_step s1 s2 b"
  shows "buf_step s s2 b"
proof -
  let ?b0 = "buf_blocks s b" and ?b1 = "buf_blocks s1 b" and ?b2 = "buf_blocks s2 b"
  have l1: "live s1 = (live s - ?b0) \<union> ?b1" "?b1 \<inter> live s \<subseteq> ?b0" using 1 by (auto simp: buf_step_def)
  have l2: "live s2 = (live s1 - ?b1) \<union> ?b2" "?b2 \<inter> live s1 \<subseteq> ?b1" using 2 by (auto simp: buf_step_def)
  have "live s2 = (live s - ?b0) \<union> ?b2" "?b2 \<inter> live s \<subseteq> ?b0" using l1 l2 by blast+
  moreover have "block_bytes s2 q = block_bytes s q" if "q \<in> live s - ?b0" for q
  proof -
    have "q \<in> live s1 - ?b1" using that l1 by blast
    then show ?thesis using that 1 2 unfolding buf_step_def by metis
  qed
  ultimately show ?thesis using 1 2 unfolding buf_step_def by metis
qed

lemma buf_step_refl: "mem_ok s \<Longrightarrow> buf_ok s b \<Longrightarrow> buf_step s s b"
  by (auto simp: buf_step_def buf_blocks_def buf_ok_def)

lemma buf_realloc_grow:
  assumes ok: "mem_ok s" "buf_ok s b" and B: "bufs s b = Some B"
    and small: "unat (buf_len B) + unat len < 2 ^ 64"
    and al: "mem_alloc (Some ''buf'') (buf_len B + len) s = Inr (n, s1)"
  shows "\<exists>s'. buf_realloc b len s = Inr (0, s') \<and> buf_step s s' b \<and> buf_bytes s' b = buf_bytes s b \<and>
     bufs s' b = Some (B\<lparr>buffer := n, buf_len := buf_len B + len\<rparr>)"
proof -
  let ?k = "unat (data_len B)" and ?B' = "B\<lparr>buffer := n, buf_len := buf_len B + len\<rparr>"
  have own: "b \<in> live s" "buffer B \<in> live s" "b \<noteq> buffer B" "0 < unat (buf_len B)"
    and caps: "?k \<le> unat (buf_len B)" "unat (buf_len B) \<le> length (block_bytes s (buffer B))"
    using ok(2) B by (auto simp: buf_ok_def word_le_nat_alt word_less_nat_alt)
  have sum: "unat (buf_len B + len) = unat (buf_len B) + unat len" using small by (rule unat_add_small)
  have k: "?k \<le> length (block_bytes s (buffer B))" "?k \<le> unat (buf_len B + len)" using caps sum by auto
  note grown = mem.grow [OF ok(1) own(2) al k]
  then obtain s2 s3 where s2: "mem_store n 0 (take ?k (block_bytes s (buffer B))) s1 = Inr s2"
    and s3: "mem_free (buffer B) s2 = Inr s3" "mem_ok s3" "n \<notin> live s"
      "live s3 = insert n (live s - {buffer B})"
      "take ?k (block_bytes s3 n) = take ?k (block_bytes s (buffer B))"
      "unat (buf_len B + len) \<le> length (block_bytes s3 n)"
      "\<forall>q \<in> live s - {buffer B}. block_bytes s3 q = block_bytes s q"
      "mem_state.more s3 = mem_state.more s" by blast
  have more: "bufs s3 = bufs s" "buf_state.more s3 = buf_state.more s" using mem_more_buf [OF s3(8)] by auto
  have get: "get_buf b s = Inr B" using buf_ok_get [OF ok(2)] B by auto
  have run: "buf_realloc b len s = Inr (0, set_buf b ?B' s3)"
    using get al grown(1) s2 s3(1) by (simp add: buf_realloc_def)
  have ne: "n \<noteq> b" using s3(3) own(1) by blast
  have "buf_ok (set_buf b ?B' s3) b"
    using own caps sum s3(4,6) ne by (auto simp: buf_ok_def word_le_nat_alt word_less_nat_alt)
  then have "buf_step s (set_buf b ?B' s3) b"
    using s3(2-4,7) more B own ne unfolding buf_step_def buf_blocks_def by auto
  moreover have "buf_bytes (set_buf b ?B' s3) b = buf_bytes s b" using B s3(5) by (simp add: buf_bytes_def)
  ultimately show ?thesis using run by auto
qed

lemma buf_append:
  assumes ok: "mem_ok s" "buf_ok s b" and B: "bufs s b = Some B"
    and room: "unat (data_len B) + unat len \<le> unat (buf_len B)" and len: "unat len \<le> length data"
  shows "\<exists>s1. mem_store (buffer B) (unat (data_len B)) (take (unat len) data) s = Inr s1 \<and>
     buf_step s (set_buf b (B\<lparr>data_len := data_len B + len\<rparr>) s1) b \<and>
     buf_bytes (set_buf b (B\<lparr>data_len := data_len B + len\<rparr>) s1) b = buf_bytes s b @ take (unat len) data"
proof -
  let ?bs = "take (unat len) data" and ?k = "unat (data_len B)" and ?bb = "block_bytes s (buffer B)"
  have lenbs: "length ?bs = unat len" using len by simp
  have cap: "unat (buf_len B) \<le> length ?bb" using ok(2) B by (auto simp: buf_ok_def)
  have sum: "unat (data_len B + len) = ?k + unat len"
    using room unat_size_t_lt [of "buf_len B"] by (intro unat_add_small) linarith
  obtain s1 where s1: "mem_store (buffer B) ?k ?bs s = Inr s1"
    "buf_step s (set_buf b (B\<lparr>data_len := data_len B + len\<rparr>) s1) b"
    "buf_bytes (set_buf b (B\<lparr>data_len := data_len B + len\<rparr>) s1) b
       = take (?k + unat len) (splice ?k ?bs ?bb)"
    using buf_write [OF ok B, of ?k ?bs "B\<lparr>data_len := data_len B + len\<rparr>"] room lenbs sum
    by (auto simp: word_le_nat_alt)
  moreover have "take (?k + length ?bs) (splice ?k ?bs ?bb) = take ?k ?bb @ ?bs"
    using room cap by (intro take_splice_upto) linarith
  ultimately show ?thesis using B lenbs by (auto simp: buf_bytes_def)
qed

text \<open>\<open>buf_put\<close> when the bytes fit, and when the buffer has to grow.\<close>

lemma buf_put_fits:
  assumes ok: "mem_ok s" "buf_ok s b" and room: "unat len \<le> buf_room s b" and len: "unat len \<le> length data"
  shows "\<exists>s'. buf_put b data len s = Inr (0, s') \<and> buf_step s s' b \<and>
    buf_bytes s' b = buf_bytes s b @ take (unat len) data"
proof -
  obtain B where B: "bufs s b = Some B" "get_buf b s = Inr B" using buf_ok_get [OF ok(2)] by blast
  obtain n where n: "buf_free_space b s = Inr n" "unat n = buf_room s b"
    using buf_free_space_ok [OF ok(2)] by blast
  have "unat (data_len B) + unat len \<le> unat (buf_len B)"
    using room B ok(2) by (auto simp: buf_room_def buf_ok_def word_le_nat_alt)
  from buf_append [OF ok B(1) this len] show ?thesis
    using B n room len by (auto simp: buf_put_def word_less_nat_alt)
qed

lemma buf_put_room:
  assumes ok: "mem_ok s" "buf_ok s b" and room: "unat len \<le> buf_room s b" and len: "unat len \<le> length data"
  shows "\<exists>s'. buf_put b data len s = Inr (0, s') \<and> buf_step s s' b \<and> buf_room s' b = buf_room s b - unat len"
proof -
  obtain B where B: "bufs s b = Some B" "get_buf b s = Inr B" using buf_ok_get [OF ok(2)] by blast
  obtain n where n: "buf_free_space b s = Inr n" "unat n = buf_room s b"
    using buf_free_space_ok [OF ok(2)] by blast
  have le: "unat (data_len B) + unat len \<le> unat (buf_len B)"
    using room B ok(2) by (auto simp: buf_room_def buf_ok_def word_le_nat_alt)
  then have "unat (data_len B + len) = unat (data_len B) + unat len"
    using unat_size_t_lt [of "buf_len B"] by (intro unat_add_small) linarith
  then have "buf_room (set_buf b (B\<lparr>data_len := data_len B + len\<rparr>) t) b = buf_room s b - unat len" for t
    using B by (simp add: buf_room_def)
  then show ?thesis using buf_append [OF ok B(1) le len] B n room len
    by (auto simp: buf_put_def word_less_nat_alt)
qed

lemma buf_put_grows:
  assumes ok: "mem_ok s" "buf_ok s b" and B: "bufs s b = Some B"
    and room: "buf_room s b < unat len" and len: "unat len \<le> length data"
    and small: "unat (buf_len B) + unat len < 2 ^ 64"
    and al: "mem_alloc (Some ''buf'') (buf_len B + len) s = Inr (n, s1)"
  shows "\<exists>s'. buf_put b data len s = Inr (0, s') \<and> buf_step s s' b \<and>
    buf_bytes s' b = buf_bytes s b @ take (unat len) data"
proof -
  let ?B = "B\<lparr>buffer := n, buf_len := buf_len B + len\<rparr>"
  obtain m where m: "buf_free_space b s = Inr m" "unat m = buf_room s b"
    using buf_free_space_ok [OF ok(2)] by blast
  obtain s2 where s2: "buf_realloc b len s = Inr (0, s2)" "buf_step s s2 b"
    "buf_bytes s2 b = buf_bytes s b" "bufs s2 b = Some ?B"
    using buf_realloc_grow [OF ok B small al] by blast
  have ok2: "mem_ok s2" "buf_ok s2 b" using s2(2) by (auto simp: buf_step_def)
  have "unat (data_len B) \<le> unat (buf_len B)" using ok(2) B by (auto simp: buf_ok_def word_le_nat_alt)
  then have "unat (data_len ?B) + unat len \<le> unat (buf_len ?B)" using unat_add_small [OF small] by simp
  from buf_append [OF ok2 s2(4) this len]
  obtain s3 where s3: "mem_store n (unat (data_len B)) (take (unat len) data) s2 = Inr s3"
    "buf_step s2 (set_buf b (?B\<lparr>data_len := data_len B + len\<rparr>) s3) b"
    "buf_bytes (set_buf b (?B\<lparr>data_len := data_len B + len\<rparr>) s3) b = buf_bytes s b @ take (unat len) data"
    using s2(3) by auto
  have "get_buf b s2 = Inr ?B" using buf_ok_get [OF ok2(2)] s2(4) by auto
  then have "buf_put b data len s = Inr (0, set_buf b (?B\<lparr>data_len := data_len B + len\<rparr>) s3)"
    using m room s2(1) s3(1) len by (simp add: buf_put_def word_less_nat_alt)
  then show ?thesis using buf_step_trans [OF s2(2) s3(2)] s3(3) by auto
qed

text \<open>The capacity of a buffer is at most the largest block.\<close>

lemma buf_len_bound:
  assumes "mem_ok s" "buf_ok s b" "bufs s b = Some B"
  shows "unat (buf_len B) \<le> 2 ^ 20"
proof -
  obtain f where rep: "mem_rep s f" using assms(1) by (auto simp: mem_ok_def)
  have live: "buffer B \<in> live s" and cap: "unat (buf_len B) \<le> length (block_bytes s (buffer B))"
    using assms by (auto simp: buf_ok_def)
  from live obtain e where e: "entries s (buffer B) = Some e" by (auto simp: live_def)
  then have "length (block_bytes s (buffer B)) = class_bytes (block_class e)" "block_class e < MEM_TYPE_MAX"
    using mem_rep_entry [OF rep e] assms(1) block_bytes_obj(2) [OF rep e] by (auto simp: mem_ok_def)
  moreover from this(2) have "class_bytes (block_class e) \<le> 2 ^ 20" by (intro power_increasing) auto
  ultimately show ?thesis using cap by linarith
qed

lemma buf_put_returns:
  assumes ok: "mem_ok s" "buf_ok s b" and real: "length data < 2 ^ 63"
    and run: "buf_put b data len s = Inr (r, s')"
  shows "r = 0 \<and> buf_step s s' b \<and> buf_bytes s' b = buf_bytes s b @ take (unat len) data"
proof -
  obtain B where B: "bufs s b = Some B" "get_buf b s = Inr B" using buf_ok_get [OF ok(2)] by blast
  obtain n where n: "buf_free_space b s = Inr n" "unat n = buf_room s b"
    using buf_free_space_ok [OF ok(2)] by blast
  obtain r1 s1 where grow: "(if n < len then buf_realloc b len s else Inr (0, s)) = Inr (r1, s1)"
    using run n(1) by (auto simp: buf_put_def res_simps)
  have r1: "r1 = 0" using grow by (auto simp: buf_realloc_def res_simps split: if_splits)
  then have len: "unat len \<le> length data" using run n(1) grow by (auto simp: buf_put_def res_simps)
  show ?thesis
  proof (cases "n < len")
    case False
    then show ?thesis using buf_put_fits [OF ok _ len] n run by (auto simp: word_less_nat_alt not_less)
  next
    case True
    then obtain p s2 where al: "mem_alloc (Some ''buf'') (buf_len B + len) s = Inr (p, s2)"
      using grow B(2) by (auto simp: buf_realloc_def res_simps)
    have small: "unat (buf_len B) + unat len < 2 ^ 64" using buf_len_bound [OF ok B(1)] len real by simp
    have "buf_room s b < unat len" using True n(2) by (simp add: word_less_nat_alt)
    from buf_put_grows [OF ok B(1) this len small al] run show ?thesis by auto
  qed
qed

section \<open>The interface of the buffers\<close>

definition buf_apart :: "'z buf_state_scheme \<Rightarrow> loc \<Rightarrow> loc \<Rightarrow> bool" where
  "buf_apart s b c \<longleftrightarrow> b \<noteq> c \<and> buf_blocks s b \<inter> buf_blocks s c = {}"

locale byte_queue =
  fixes queue :: "'s \<Rightarrow> 'b \<Rightarrow> bool"
    and bytes :: "'s \<Rightarrow> 'b \<Rightarrow> byte list"
    and room :: "'s \<Rightarrow> 'b \<Rightarrow> nat"
    and apart :: "'s \<Rightarrow> 'b \<Rightarrow> 'b \<Rightarrow> bool"
    and step :: "'s \<Rightarrow> 's \<Rightarrow> 'b \<Rightarrow> bool"
    and put :: "'b \<Rightarrow> byte list \<Rightarrow> size_t \<Rightarrow> 's \<Rightarrow> 'e + (int \<times> 's)"
    and pick :: "'b \<Rightarrow> size_t \<Rightarrow> 's \<Rightarrow> 'e + 's"
    and clear :: "'b \<Rightarrow> 's \<Rightarrow> 'e + 's"
  assumes step_queue: "step s s' b \<Longrightarrow> queue s' b"
    and step_trans: "step s s1 b \<Longrightarrow> step s1 s2 b \<Longrightarrow> step s s2 b"
    and apart_sym: "apart s b c \<Longrightarrow> apart s c b"
    and step_other: "queue s c \<Longrightarrow> apart s b c \<Longrightarrow> step s s' b \<Longrightarrow>
      queue s' c \<and> bytes s' c = bytes s c \<and> room s' c = room s c \<and> apart s' b c"
    and put_fits: "queue s b \<Longrightarrow> unat len \<le> room s b \<Longrightarrow> unat len \<le> length data \<Longrightarrow>
      \<exists>s'. put b data len s = Inr (0, s') \<and> step s s' b \<and> bytes s' b = bytes s b @ take (unat len) data"
    and put_returns: "queue s b \<Longrightarrow> length data < 2 ^ 63 \<Longrightarrow> put b data len s = Inr (r, s') \<Longrightarrow>
      r = 0 \<and> step s s' b \<and> bytes s' b = bytes s b @ take (unat len) data"
    and pick_ok: "queue s b \<Longrightarrow> unat len \<le> length (bytes s b) \<Longrightarrow>
      \<exists>s'. pick b len s = Inr s' \<and> step s s' b \<and> bytes s' b = drop (unat len) (bytes s b)"
    and clear_ok: "queue s b \<Longrightarrow> \<exists>s'. clear b s = Inr s' \<and> step s s' b \<and> bytes s' b = []"
begin

text \<open>Moving all bytes of one queue to the end of another.\<close>

lemma move_all:
  assumes b: "queue s b" and c: "queue s c" and ap: "apart s c b"
    and put: "put c data len s = Inr (r, s1)" and data: "take (unat len) data = bytes s b"
      "length data < 2 ^ 63"
  shows "\<exists>s2. clear b s1 = Inr s2 \<and> queue s2 b \<and> queue s2 c \<and> apart s2 b c \<and>
    bytes s2 b = [] \<and> bytes s2 c = bytes s c @ bytes s b \<and> r = 0 \<and> step s s1 c \<and> step s1 s2 b"
proof -
  from put_returns [OF c data(2) put]
  have s1: "r = 0" "step s s1 c" "bytes s1 c = bytes s c @ bytes s b" using data(1) by auto
  from step_other [OF b ap s1(2)] have b1: "queue s1 b" "apart s1 c b" by auto
  obtain s2 where s2: "clear b s1 = Inr s2" "step s1 s2 b" "bytes s2 b = []"
    using clear_ok [OF b1(1)] by blast
  from step_other [OF step_queue [OF s1(2)] apart_sym [OF b1(2)] s2(2)]
  show ?thesis using s1 s2 step_queue [OF s2(2)] by auto
qed

text \<open>Two appends in a row, both within the room of the queue.\<close>

lemma put_two:
  assumes q: "queue s b" and room: "unat l1 + unat l2 \<le> room s b"
    and len: "unat l1 \<le> length d1" "unat l2 \<le> length d2" and real: "length d2 < 2 ^ 63"
    and enough: "\<And>s1. step s s1 b \<Longrightarrow> \<exists>x. put b d2 l2 s1 = Inr x"
  shows "\<exists>s1 s2. put b d1 l1 s = Inr (0, s1) \<and> put b d2 l2 s1 = Inr (0, s2) \<and> step s s2 b \<and>
    bytes s2 b = bytes s b @ take (unat l1) d1 @ take (unat l2) d2"
proof -
  obtain s1 where s1: "put b d1 l1 s = Inr (0, s1)" "step s s1 b" "bytes s1 b = bytes s b @ take (unat l1) d1"
    using put_fits [OF q _ len(1)] room by auto
  obtain r s2 where s2: "put b d2 l2 s1 = Inr (r, s2)" using enough [OF s1(2)] by auto
  from put_returns [OF step_queue [OF s1(2)] real s2] s1 s2 step_trans show ?thesis by auto
qed

text \<open>What is put in comes out again, behind what was there before.\<close>

lemma put_then_pick:
  assumes q: "queue s b" and put: "put b data len s = Inr (r, s1)" and real: "length data < 2 ^ 63"
    and n: "unat n = length (bytes s b)"
  shows "\<exists>s2. pick b n s1 = Inr s2 \<and> bytes s2 b = take (unat len) data"
proof -
  from put_returns [OF q real put] have "step s s1 b" "bytes s1 b = bytes s b @ take (unat len) data"
    by auto
  then show ?thesis using pick_ok [OF step_queue, of s s1 b n] n by auto
qed

end

lemma buf_step_other:
  assumes c: "mem_ok s \<and> buf_ok s c" and ap: "buf_apart s b c" and st: "buf_step s s' b"
  shows "(mem_ok s' \<and> buf_ok s' c) \<and> buf_bytes s' c = buf_bytes s c \<and>
    buf_room s' c = buf_room s c \<and> buf_apart s' b c"
proof -
  obtain C where C: "bufs s c = Some C" "c \<in> live s" "buffer C \<in> live s" using c by (auto simp: buf_ok_def)
  have C': "bufs s' c = Some C" using C st ap by (auto simp: buf_step_def buf_apart_def)
  have bc: "buf_blocks s c = {c, buffer C}" "buf_blocks s' c = {c, buffer C}"
    using C C' by (auto simp: buf_blocks_def)
  have keep: "q \<in> live s' \<and> block_bytes s' q = block_bytes s q \<and> q \<notin> buf_blocks s' b"
    if "q \<in> {c, buffer C}" for q
    using that st ap C bc unfolding buf_step_def buf_apart_def by blast
  then show ?thesis using c st ap C C' bc
    by (auto simp: buf_ok_def buf_bytes_def buf_room_def buf_apart_def buf_step_def)
qed

interpretation bq: byte_queue "\<lambda>s b. mem_ok s \<and> buf_ok s b" buf_bytes buf_room buf_apart buf_step
  buf_put buf_pick clear_space
proof (unfold_locales, goal_cases)
  case 1
  then show ?case by (simp add: buf_step_def)
next
  case 2
  then show ?case by (rule buf_step_trans)
next
  case 3
  then show ?case by (auto simp: buf_apart_def)
next
  case 4
  then show ?case by (rule buf_step_other)
next
  case 5
  then show ?case using buf_put_fits by blast
next
  case 6
  then show ?case using buf_put_returns by blast
next
  case 7
  then show ?case using buf_pick_ok by blast
next
  case 8
  then show ?case using clear_space_ok by blast
qed

section \<open>Making and releasing a buffer\<close>

lemma buf_new_returns:
  assumes ok: "mem_ok s" and cap: "0 < cap" and run: "buf_new m1 m2 cap s = Inr (b, s')"
  shows "mem_ok s' \<and> buf_ok s' b \<and> buf_bytes s' b = [] \<and> buf_room s' b = unat cap \<and>
    buf_blocks s' b \<inter> live s = {} \<and> live s' = live s \<union> buf_blocks s' b \<and>
    (\<forall>q \<in> live s. block_bytes s' q = block_bytes s q) \<and> (\<forall>c. c \<noteq> b \<longrightarrow> bufs s' c = bufs s c) \<and>
    buf_state.more s' = buf_state.more s \<and> malloc_left s - 2 \<le> malloc_left s' \<and>
    (\<exists>d. bufs s' b = Some \<lparr>buffer = d, buf_len = cap, data_len = 0\<rparr>)"
proof -
  let ?B0 = "\<lparr>buffer = Null, buf_len = 0, data_len = 0\<rparr>"
  obtain s1 d s2 where al: "mem_alloc (Some m1) sizeof_buf_t s = Inr (b, s1)"
    "mem_alloc (Some m2) cap (set_buf b ?B0 s1) = Inr (d, s2)"
    and s': "s' = set_buf b \<lparr>buffer = d, buf_len = cap, data_len = 0\<rparr> s2"
    using run by (auto simp: buf_new_def Let_def res_simps)
  note s1 = mem.alloc_law [OF ok al(1)]
  have more1: "bufs s1 = bufs s" "buf_state.more s1 = buf_state.more s"
    using s1 mem_more_buf [of s1 s] by auto
  have ok1: "mem_ok (set_buf b ?B0 s1)" using s1 by simp
  note s2 = mem.alloc_law [OF ok1 al(2)]
  have more2: "bufs s2 = (bufs s1)(b \<mapsto> ?B0)" "buf_state.more s2 = buf_state.more s1"
    using s2 mem_more_buf [of s2 "set_buf b ?B0 s1"] by auto
  have lv: "live s2 = insert d (insert b (live s))" "b \<notin> live s" "d \<notin> live s" "d \<noteq> b"
    using s1 s2 by auto
  have blk: "block_bytes s2 q = block_bytes s q" if "q \<in> live s" for q using that s1 s2 by auto
  have left: "malloc_left s - 2 \<le> malloc_left s2"
    using mem_alloc_left [OF ok al(1)] mem_alloc_left [OF ok1 al(2)] by simp
  have "unat cap \<le> length (block_bytes s2 d)" using s2 by simp
  then have "buf_ok s' b" using lv cap s' by (auto simp: buf_ok_def)
  then show ?thesis using lv blk more1 more2 left s2 s'
    by (auto simp: buf_bytes_def buf_room_def buf_blocks_def)
qed

lemma buf_new_total:
  assumes ok: "mem_ok s" and cap: "cap \<le> MAX_EXT_MEM_BLOCK" and left: "2 \<le> malloc_left s"
  shows "\<exists>b s'. buf_new m1 m2 cap s = Inr (b, s')"
proof -
  let ?B0 = "\<lparr>buffer = Null, buf_len = 0, data_len = 0\<rparr>"
  obtain b s1 where al: "mem_alloc (Some m1) sizeof_buf_t s = Inr (b, s1)"
    using mem_alloc_total [OF ok, of sizeof_buf_t "Some m1"] left by auto
  have "mem_ok (set_buf b ?B0 s1)" using mem.alloc_law [OF ok al] by simp
  moreover have "0 < malloc_left (set_buf b ?B0 s1)" using mem_alloc_left [OF ok al] left by simp
  ultimately obtain d s2 where "mem_alloc (Some m2) cap (set_buf b ?B0 s1) = Inr (d, s2)"
    using mem_alloc_total [of "set_buf b ?B0 s1" cap "Some m2"] cap by blast
  then show ?thesis using al by (simp add: buf_new_def)
qed

lemma buf_delete_ok:
  assumes ok: "mem_ok s" "buf_ok s b"
  shows "\<exists>s'. buf_delete b s = Inr s' \<and> mem_ok s' \<and> live s' = live s - buf_blocks s b \<and>
    (\<forall>q. block_bytes s' q = block_bytes s q) \<and> bufs s' = (bufs s)(b := None) \<and>
    buf_state.more s' = buf_state.more s"
proof -
  obtain B where B: "bufs s b = Some B" "get_buf b s = Inr B" using buf_ok_get [OF ok(2)] by blast
  have own: "b \<in> live s" "buffer B \<in> live s" "b \<noteq> buffer B" using ok(2) B by (auto simp: buf_ok_def)
  obtain s1 where s1: "mem_free (buffer B) s = Inr s1" "mem_ok s1" "live s1 = live s - {buffer B}"
    "block_bytes s1 = block_bytes s" "mem_state.more s1 = mem_state.more s"
    using mem.free_law [OF ok(1) own(2)] by blast
  obtain s2 where s2: "mem_free b s1 = Inr s2" "mem_ok s2" "live s2 = live s1 - {b}"
    "block_bytes s2 = block_bytes s1" "mem_state.more s2 = mem_state.more s1"
    using mem.free_law [OF s1(2), of b] own s1(3) by blast
  let ?s = "s2\<lparr>bufs := (bufs s2)(b := None)\<rparr>"
  have "mem_ok ?s = mem_ok s2" "live ?s = live s2" "block_bytes ?s = block_bytes s2"
    by (rule mem_fields_cong; simp)+
  moreover have "bufs s2 = bufs s" "buf_state.more s2 = buf_state.more s"
    using mem_more_buf [of s2 s] s1(5) s2(5) by auto
  ultimately show ?thesis using B s1 s2 by (auto simp: buf_delete_def buf_blocks_def)
qed

lemma buf_new_other:
  assumes ok: "mem_ok s" and cap: "0 < cap" and run: "buf_new m1 m2 cap s = Inr (c, s')"
    and b: "buf_ok s b"
  shows "buf_ok s' b \<and> buf_bytes s' b = buf_bytes s b \<and> buf_room s' b = buf_room s b \<and>
    buf_apart s' c b \<and> bufs s' b = bufs s b"
proof -
  note new = buf_new_returns [OF ok cap run]
  obtain B where B: "bufs s b = Some B" "b \<in> live s" "buffer B \<in> live s"
    using b by (auto simp: buf_ok_def)
  have "c \<in> buf_blocks s' c" using new by (auto simp: buf_blocks_def)
  then have "b \<noteq> c" using new B(2) by blast
  then have eq: "bufs s' b = bufs s b" using new by auto
  then have blocks: "buf_blocks s' b = {b, buffer B}" using B by (simp add: buf_blocks_def)
  have "buf_ok s' b" using b B new eq by (auto simp: buf_ok_def)
  moreover have "buf_bytes s' b = buf_bytes s b" "buf_room s' b = buf_room s b"
    using B new eq by (auto simp: buf_bytes_def buf_room_def)
  moreover have "buf_apart s' c b" using blocks new B \<open>b \<noteq> c\<close> by (auto simp: buf_apart_def)
  ultimately show ?thesis using eq by blast
qed

lemma buf_delete_left: "buf_delete b s = Inr s' \<Longrightarrow> malloc_left s' = malloc_left s"
  by (auto simp: buf_delete_def res_simps dest!: mem_free_left)

lemma buf_delete_other:
  assumes ok: "mem_ok s" "buf_ok s b" and run: "buf_delete b s = Inr s'" and c: "buf_ok s c" "buf_apart s b c"
  shows "buf_ok s' c \<and> buf_blocks s' c = buf_blocks s c"
proof -
  have s': "live s' = live s - buf_blocks s b" "\<And>q. block_bytes s' q = block_bytes s q"
    "bufs s' = (bufs s)(b := None)" using buf_delete_ok [OF ok] run by auto
  obtain C where C: "bufs s c = Some C" using c(1) by (auto simp: buf_ok_def)
  have "b \<noteq> c" "buf_blocks s b \<inter> {c, buffer C} = {}" using c(2) C by (auto simp: buf_apart_def buf_blocks_def)
  then show ?thesis using c(1) C s' by (auto simp: buf_ok_def buf_blocks_def)
qed

text \<open>Releasing several buffers, one after the other.\<close>

lemma delete_all:
  assumes "mem_ok s" and "distinct bs" and "\<forall>b \<in> set bs. buf_ok s b"
    and "\<forall>b \<in> set bs. \<forall>c \<in> set bs. b \<noteq> c \<longrightarrow> buf_apart s b c"
  shows "\<exists>s'. each buf_delete bs s = Inr s' \<and> mem_ok s' \<and>
    live s' = live s - (\<Union>b \<in> set bs. buf_blocks s b) \<and> block_bytes s' = block_bytes s \<and>
    (\<forall>c. c \<notin> set bs \<longrightarrow> bufs s' c = bufs s c) \<and> buf_state.more s' = buf_state.more s"
  using assms
proof (induction bs arbitrary: s)
  case Nil
  then show ?case by simp
next
  case (Cons b bs)
  have b: "buf_ok s b" using Cons.prems(3) by simp
  obtain s1 where s1: "buf_delete b s = Inr s1" "mem_ok s1" "live s1 = live s - buf_blocks s b"
    "\<forall>q. block_bytes s1 q = block_bytes s q" "bufs s1 = (bufs s)(b := None)"
    "buf_state.more s1 = buf_state.more s" using buf_delete_ok [OF Cons.prems(1) b] by blast
  have other: "buf_ok s1 c \<and> buf_blocks s1 c = buf_blocks s c" if "c \<in> set bs" for c
    using that Cons.prems by (intro buf_delete_other [OF Cons.prems(1) b s1(1)]) auto
  have "\<forall>c \<in> set bs. \<forall>d \<in> set bs. c \<noteq> d \<longrightarrow> buf_apart s1 c d"
    using Cons.prems(4) other by (simp add: buf_apart_def)
  then obtain s' where s': "each buf_delete bs s1 = Inr s'" "mem_ok s'"
    "live s' = live s1 - (\<Union>c \<in> set bs. buf_blocks s1 c)" "block_bytes s' = block_bytes s1"
    "\<forall>c. c \<notin> set bs \<longrightarrow> bufs s' c = bufs s1 c" "buf_state.more s' = buf_state.more s1"
    using Cons.IH [OF s1(2)] other Cons.prems(2) by auto
  have "live s' = live s - (\<Union>c \<in> set (b # bs). buf_blocks s c)" using s'(3) s1(3) other by auto
  moreover have "block_bytes s' = block_bytes s" using s'(4) s1(4) by (simp add: fun_eq_iff)
  moreover have "\<forall>c. c \<notin> set (b # bs) \<longrightarrow> bufs s' c = bufs s c" using s'(5) s1(5) by simp
  ultimately show ?case using s1(1,6) s'(1,2,6) by simp
qed

text \<open>A state with one buffer, for examples.\<close>

lemma boot_one_buf:
  assumes "0 < cap" and "cap \<le> MAX_EXT_MEM_BLOCK"
  shows "\<exists>(s :: buf_state) b. mem_ok s \<and> buf_ok s b \<and> buf_bytes s b = [] \<and> buf_room s b = unat cap \<and>
    n \<le> malloc_left s \<and> (\<exists>d. bufs s b = Some \<lparr>buffer = d, buf_len = cap, data_len = 0\<rparr>)"
proof -
  let ?z = "mem_state.more (buf_state.make boot_node (\<lambda>_. None) [] 0 0 (\<lambda>_. None))"
  obtain s0 :: buf_state where s0: "mem_rep s0 (\<lambda>_. [])" "malloc_left s0 = n + 2"
    using boot_mem_init [of "n + 2" ?z] by auto
  have ok: "mem_ok s0" using mem_rep_init_ok [OF s0(1)] by simp
  obtain b s where "buf_new ''b'' ''d'' cap s0 = Inr (b, s)"
    using buf_new_total [OF ok assms(2), of "''b''" "''d''"] s0(2) by auto
  from buf_new_returns [OF ok assms(1) this] s0(2) show ?thesis
    by (intro exI [of _ s] exI [of _ b]) simp
qed

lemma boot_two_bufs:
  assumes "0 < cap" and "cap \<le> MAX_EXT_MEM_BLOCK"
  shows "\<exists>(s :: buf_state) b c. mem_ok s \<and> buf_ok s b \<and> buf_ok s c \<and> buf_apart s c b \<and>
    buf_bytes s b = [] \<and> buf_bytes s c = [] \<and> buf_room s b = unat cap \<and> buf_room s c = unat cap \<and>
    n \<le> malloc_left s"
proof -
  obtain s0 :: buf_state and b where s0: "mem_ok s0" "buf_ok s0 b" "buf_bytes s0 b = []"
    "buf_room s0 b = unat cap" "n + 2 \<le> malloc_left s0" using boot_one_buf [OF assms, of "n + 2"] by auto
  obtain c s where new: "buf_new ''b'' ''d'' cap s0 = Inr (c, s)"
    using buf_new_total [OF s0(1) assms(2), of "''b''" "''d''"] s0(5) by auto
  have "n \<le> malloc_left s" using buf_new_returns [OF s0(1) assms(1) new] s0(5) by linarith
  with buf_new_returns [OF s0(1) assms(1) new] buf_new_other [OF s0(1) assms(1) new s0(2)] s0(3,4)
  show ?thesis by metis
qed

section \<open>Properties\<close>

text \<open>
  C24. \<open>buf_put\<close> appends: whenever it returns, it returns 0, the buffer holds its old bytes
  followed by the first \<open>len\<close> bytes of the data, and no block and no buffer that is not
  this buffer's own has changed. This holds also when the buffer was moved to a larger block.
\<close>

theorem buf_put_appends:
  assumes "mem_ok s" and "buf_ok s b" and "length data < 2 ^ 63"
    and "buf_put b data len s = Inr (r, s')"
  shows "r = 0 \<and> buf_bytes s' b = buf_bytes s b @ take (unat len) data \<and> buf_step s s' b"
  using bq.put_returns [OF conjI [OF assms(1,2)] assms(3,4)] by blast

theorem buf_put_appends_witness:
  "\<exists>(s :: buf_state) b s'. buf_room s b = 16 \<and> buf_put b (replicate 40 7) 40 s = Inr (0, s') \<and>
     buf_bytes s' b = replicate 40 7"
proof -
  obtain s :: buf_state and b d where s: "mem_ok s" "buf_ok s b" "buf_bytes s b = []"
    "buf_room s b = 16" "1 \<le> malloc_left s"
    and B0: "bufs s b = Some \<lparr>buffer = d, buf_len = 16, data_len = 0\<rparr>"
    using boot_one_buf [of 16 1] by auto
  define B where "B = \<lparr>buffer = d, buf_len = 16, data_len = 0\<rparr>"
  have B: "bufs s b = Some B" "buf_len B = 16" "data_len B = 0" using B0 by (simp_all add: B_def)
  obtain n s1 where al: "mem_alloc (Some ''buf'') (buf_len B + 40) s = Inr (n, s1)"
    using mem_alloc_total [OF s(1), of "buf_len B + 40" "Some ''buf''"] s(5) B by auto
  obtain s' where run: "buf_put b (replicate 40 7) 40 s = Inr (0, s')"
    using buf_put_grows [OF s(1,2) B(1) _ _ _ al, of "replicate 40 7"] s(4) B by auto
  from buf_put_appends [OF s(1,2) _ run] s(3,4) run show ?thesis by auto
qed

text \<open>
  C25. What becomes of a \<open>buf_put\<close> whose data can be read: it succeeds when the bytes fit;
  when they do not, it succeeds if the enlarged block (old capacity plus \<open>len\<close>) is at most
  1 MB and memory is left, and it stops the process by the assertion of \<open>mem_alloc\<close> when the
  enlarged block would be larger. It never reports an error to its caller.
\<close>

theorem buf_put_outcome:
  assumes ok: "mem_ok s" "buf_ok s b" and B: "bufs s b = Some B"
    and len: "unat len \<le> length data" "length data < 2 ^ 63"
  shows "(unat len \<le> buf_room s b \<longrightarrow> (\<exists>s'. buf_put b data len s = Inr (0, s'))) \<and>
    (buf_room s b < unat len \<and> unat (buf_len B) + unat len \<le> 2 ^ 20 \<and> 0 < malloc_left s \<longrightarrow>
      (\<exists>s'. buf_put b data len s = Inr (0, s'))) \<and>
    (2 ^ 20 < unat (buf_len B) + unat len \<and> buf_room s b < unat len \<longrightarrow>
      buf_put b data len s = Inl Assertion)"
proof (intro conjI impI)
  assume "unat len \<le> buf_room s b"
  from buf_put_fits [OF ok this len(1)] show "\<exists>s'. buf_put b data len s = Inr (0, s')" by blast
next
  assume *: "buf_room s b < unat len \<and> unat (buf_len B) + unat len \<le> 2 ^ 20 \<and> 0 < malloc_left s"
  then have small: "buf_len B + len \<le> MAX_EXT_MEM_BLOCK" and left: "0 < malloc_left s"
    by (simp_all add: word_le_nat_alt unat_add_small)
  obtain n s1 where "mem_alloc (Some ''buf'') (buf_len B + len) s = Inr (n, s1)"
    using mem_alloc_total [OF ok(1) small left, of "Some ''buf''"] by auto
  from buf_put_grows [OF ok B _ len(1) _ this] *
  show "\<exists>s'. buf_put b data len s = Inr (0, s')" by auto
next
  assume *: "2 ^ 20 < unat (buf_len B) + unat len \<and> buf_room s b < unat len"
  obtain n where n: "buf_free_space b s = Inr n" "unat n = buf_room s b"
    using buf_free_space_ok [OF ok(2)] by blast
  have "unat (buf_len B) + unat len < 2 ^ 64" using buf_len_bound [OF ok B] len by simp
  then have "\<not> buf_len B + len \<le> MAX_EXT_MEM_BLOCK"
    using * by (simp add: word_le_nat_alt unat_add_small)
  then have "mem_alloc (Some ''buf'') (buf_len B + len) s = Inl Assertion"
    by (simp add: mem_alloc_def assertE_def)
  moreover have "get_buf b s = Inr B" using buf_ok_get [OF ok(2)] B by auto
  ultimately show "buf_put b data len s = Inl Assertion"
    using n * by (simp add: buf_put_def buf_realloc_def word_less_nat_alt)
qed

theorem buf_put_outcome_witness:
  "\<exists>(s :: buf_state) b s'. buf_put b (replicate 16 7) 16 s = Inr (0, s') \<and>
     buf_put b (replicate 1048577 7) 1048577 s = Inl Assertion"
proof -
  obtain s :: buf_state and b d where s: "mem_ok s" "buf_ok s b" "buf_room s b = 16"
    and B: "bufs s b = Some \<lparr>buffer = d, buf_len = 16, data_len = 0\<rparr>"
    using boot_one_buf [of 16 1] by auto
  from buf_put_outcome [OF s(1,2) B, of 16 "replicate 16 7"] s(3)
  have "\<exists>s'. buf_put b (replicate 16 7) 16 s = Inr (0, s')" by simp
  moreover from buf_put_outcome [OF s(1,2) B, of 1048577 "replicate 1048577 7"] s(3)
  have "buf_put b (replicate 1048577 7) 1048577 s = Inl Assertion" by simp
  ultimately show ?thesis by blast
qed

text \<open>
  \<open>buf_pick\<close> drops exactly the first \<open>len\<close> bytes and keeps the rest in order; asked
  for more bytes than the buffer holds it stops at its assertion.
\<close>

lemma buf_pick_outcome:
  assumes ok: "mem_ok s" "buf_ok s b"
  shows "if unat len \<le> length (buf_bytes s b)
    then \<exists>s'. buf_pick b len s = Inr s' \<and> buf_step s s' b \<and>
           buf_bytes s' b = drop (unat len) (buf_bytes s b)
    else buf_pick b len s = Inl Assertion"
proof (cases "unat len \<le> length (buf_bytes s b)")
  case True
  from buf_pick_ok [OF ok this] True show ?thesis by simp
next
  case False
  then show ?thesis using buf_pick_too_much [OF ok(2)] by simp
qed

text \<open>
  Moving the contents of one buffer to another, the way \<open>data_transfer\<close> does it
  (\<open>buf_put\<close> of all the bytes of \<open>b\<close> into \<open>c\<close>, then \<open>clear_space\<close> of
  \<open>b\<close>): \<open>b\<close> ends empty, \<open>c\<close> holds its old bytes followed by those of \<open>b\<close>,
  both stay well formed and share no block, even when \<open>c\<close> had to be moved.
\<close>

lemma buf_move_all:
  assumes "mem_ok s" and "buf_ok s b" and "buf_ok s c" and "buf_apart s c b"
    and "take (unat len) data = buf_bytes s b" and "length data < 2 ^ 63"
    and "buf_put c data len s = Inr (r, s1)"
  shows "\<exists>s2. clear_space b s1 = Inr s2 \<and> mem_ok s2 \<and> buf_ok s2 b \<and> buf_ok s2 c \<and>
    buf_apart s2 b c \<and> buf_bytes s2 b = [] \<and> buf_bytes s2 c = buf_bytes s c @ buf_bytes s b"
  using bq.move_all [OF conjI [OF assms(1,2)] conjI [OF assms(1,3)] assms(4,7,5,6)] by blast

text \<open>
  A buffer that is made and released leaves nothing behind: the same blocks are live
  as before and their bytes are unchanged.
\<close>

lemma buf_new_delete:
  assumes ok: "mem_ok s" and cap: "0 < cap" and run: "buf_new m1 m2 cap s = Inr (b, s1)"
  shows "\<exists>s2. buf_delete b s1 = Inr s2 \<and> mem_ok s2 \<and> live s2 = live s \<and> bufs s2 b = None \<and>
    (\<forall>q \<in> live s. block_bytes s2 q = block_bytes s q) \<and> (\<forall>c. c \<noteq> b \<longrightarrow> bufs s2 c = bufs s c)"
proof -
  note new = buf_new_returns [OF ok cap run]
  from new obtain s2 where "buf_delete b s1 = Inr s2" "mem_ok s2" "live s2 = live s1 - buf_blocks s1 b"
    "\<forall>q. block_bytes s2 q = block_bytes s1 q" "bufs s2 = (bufs s1)(b := None)"
    using buf_delete_ok [of s1 b] by blast
  with new show ?thesis by (intro exI [of _ s2]) auto
qed

end
