(* ===== verification/Ip.thy ===== *)
theory Ip
  imports Prelude
begin

text \<open>
  Address parsing of \<open>ip.c\<close> and \<open>ip.h\<close>.

  A \<open>char *\<close> that a function only reads is the list of the characters from the pointer
  to the end of the array, terminating NUL included; reading behind the end of the array is
  \<open>Inl Invalid_access\<close>. A function that writes through the pointer returns the array
  again. \<open>inet_pton\<close> and \<open>inet_ntop\<close> are parameters. \<open>isdigit\<close> and \<open>atoi\<close> are those
  of glibc on LP64 (\<open>atoi\<close> is \<open>(int) strtol\<close>, and \<open>strtol\<close> saturates).
\<close>

abbreviation NUL :: char where
  "NUL \<equiv> CHR 0x00"

section \<open>State\<close>

record jujube_in_addr =
  inx_addr :: "byte list"
  flag :: uint32

abbreviation (input) NONE_IP :: uint32 where "NONE_IP \<equiv> 1"
abbreviation (input) USE_IPV4 :: uint32 where "USE_IPV4 \<equiv> 2"
abbreviation (input) USE_IPV6 :: uint32 where "USE_IPV6 \<equiv> 4"

abbreviation (input) AF_INET :: int where "AF_INET \<equiv> 2"
abbreviation (input) AF_INET6 :: int where "AF_INET6 \<equiv> 10"

definition jujube_in_addr_init :: jujube_in_addr where
  "jujube_in_addr_init = \<lparr>inx_addr = replicate 16 0, flag = NONE_IP\<rparr>"

section \<open>Scanning a string\<close>

fun skip_blanks :: "string \<Rightarrow> string res" where
  "skip_blanks [] = Inl Invalid_access"
| "skip_blanks (c # cs) =
     (if c \<noteq> NUL \<and> (c = CHR '' '' \<or> c = CHR 0x09) then skip_blanks cs else Inr (c # cs))"

fun count_words :: "string \<Rightarrow> int \<Rightarrow> int \<Rightarrow> int res" where
  "count_words [] blank i = Inl Invalid_access"
| "count_words (c # cs) blank i =
     (if c = NUL then Inr i
      else if c \<noteq> CHR '' '' \<and> c \<noteq> CHR 0x09
      then count_words cs (blank + 1) (if blank + 1 = 1 then i + 1 else i)
      else count_words cs 0 i)"

definition get_str_num :: "string \<Rightarrow> int res" where
  "get_str_num buf = bindE (skip_blanks buf) (\<lambda>p. count_words p 0 0)"

text \<open>The argument is \<open>None\<close> for the null pointer.\<close>

definition check_blank :: "string option \<Rightarrow> int res" where
  "check_blank instr = (case instr of
      None \<Rightarrow> Inr 0
    | Some p \<Rightarrow>
        bindE (accessE (p \<noteq> [])) (\<lambda>_.
        if p ! 0 = NUL then Inr 0
        else bindE (get_str_num p) (\<lambda>num.
          if num = 0 then Inr 0 else if num = 1 then Inr 1 else Inr (- 1))))"

fun check_symbol :: "string \<Rightarrow> char \<Rightarrow> int res" where
  "check_symbol [] symbol = Inl Invalid_access"
| "check_symbol (c # cs) symbol =
     (if c = NUL then Inr 0
      else bindE (check_symbol cs symbol) (\<lambda>i. Inr (i + (if c = symbol then 1 else 0))))"

section \<open>Numbers\<close>

definition isdigit :: "char \<Rightarrow> bool" where
  "isdigit c \<longleftrightarrow> 48 \<le> (of_char c :: int) \<and> (of_char c :: int) \<le> 57"

definition digit_val :: "char \<Rightarrow> int" where
  "digit_val c = of_char c - 48"

fun digits_val :: "int \<Rightarrow> string \<Rightarrow> int" where
  "digits_val n [] = n"
| "digits_val n (c # cs) = (if isdigit c then digits_val (10 * n + digit_val c) cs else n)"

text \<open>
  \<open>atoi\<close>, for a string that does not start with white space or a sign (those of the
  callers start with a digit or are empty).
\<close>

definition atoi :: "string \<Rightarrow> int" where
  "atoi cs = sint (word_of_int (min (digits_val 0 cs) (2 ^ 63 - 1)) :: 32 word)"

fun my_atoi :: "string \<Rightarrow> int res" where
  "my_atoi [] = Inl Invalid_access"
| "my_atoi (c # cs) =
     (if c = CHR ''0'' then my_atoi cs else if c = NUL then Inr 0 else Inr (atoi (c # cs)))"

section \<open>Dotted quads\<close>

text \<open>
  The loop that looks for two dots in a row; \<open>True\<close> when it returns -1. \<open>*(++p)\<close> moves
  on before the loop moves on again.
\<close>

fun dots_loop :: "string \<Rightarrow> bool res" where
  "dots_loop [] = Inl Invalid_access"
| "dots_loop (c # cs) =
     (if c = NUL then Inr False
      else if c = CHR ''.'' then
        (case cs of
           [] \<Rightarrow> Inl Invalid_access
         | d # ds \<Rightarrow> if d = CHR ''.'' then Inr True else dots_loop ds)
      else dots_loop cs)"

definition strlen :: "string \<Rightarrow> nat" where
  "strlen p = length (takeWhile (\<lambda>c. c \<noteq> NUL) p)"

definition strncpy20 :: "string \<Rightarrow> string" where
  "strncpy20 dotted = take 19 (take (strlen dotted) dotted @ replicate 19 NUL) @ [NUL]"

text \<open>
  \<open>strchr (p, '.')\<close> and the write of NUL there: the segment before the dot as a string
  of its own, and what follows the dot.
\<close>

fun cut_dot :: "string \<Rightarrow> (string \<times> string) option" where
  "cut_dot [] = None"
| "cut_dot (c # cs) =
     (if c = CHR ''.'' then Some ([NUL], cs)
      else if c = NUL then None
      else map_option (\<lambda>(seg, rest). (c # seg, rest)) (cut_dot cs))"

text \<open>
  The loop over the first three bytes: whether all three were good, the bytes stored so far
  and the position reached.
\<close>

primrec octets :: "nat \<Rightarrow> string \<Rightarrow> int list \<Rightarrow> (bool \<times> int list \<times> string) res" where
  "octets 0 p validip = Inr (True, validip, p)"
| "octets (Suc n) p validip = (case cut_dot p of
      None \<Rightarrow> Inr (False, validip, p)
    | Some (seg, rest) \<Rightarrow>
        bindE (my_atoi seg) (\<lambda>onebyte.
        if onebyte < 0 \<or> onebyte > 255 then Inr (False, validip, p)
        else octets n rest (validip @ [onebyte])))"

definition sprintf_quad :: "int list \<Rightarrow> string" where
  "sprintf_quad v = dec_int (v ! 0) @ ''.'' @ dec_int (v ! 1) @ ''.'' @ dec_int (v ! 2) @ ''.'' @ dec_int (v ! 3)"

definition store_octets :: "int list \<Rightarrow> byte list \<Rightarrow> byte list" where
  "store_octets v ipaddr = splice 0 (map of_int v) ipaddr"

definition dotted_body :: "string \<Rightarrow> byte list \<Rightarrow> (int \<times> string \<times> byte list) res" where
  "dotted_body dotted ipaddr =
     bindE (octets 3 (strncpy20 dotted) []) (\<lambda>(good, validip, p).
     let ipaddr = store_octets validip ipaddr in
     if \<not> good then Inr (- 1, dotted, ipaddr)
     else
       bindE (accessE (p \<noteq> [])) (\<lambda>_.
       if \<not> isdigit (p ! 0) then Inr (- 1, dotted, ipaddr)
       else
         bindE (my_atoi (takeWhile isdigit p @ [NUL])) (\<lambda>onebyte.
         if onebyte < 0 \<or> onebyte > 255 then Inr (- 1, dotted, ipaddr)
         else
           let validip = validip @ [onebyte]; out = sprintf_quad validip @ [NUL] in
           bindE (accessE (length out \<le> length dotted)) (\<lambda>_.
           Inr (1, splice 0 out dotted, store_octets validip ipaddr)))))"

text \<open>The result, the array \<open>dotted\<close> and the four bytes of \<open>*ipaddr\<close>.\<close>

definition dotted_to_ipaddr ::
  "string option \<Rightarrow> byte list \<Rightarrow> (int \<times> string option \<times> byte list) res" where
  "dotted_to_ipaddr dotted ipaddr =
     bindE (check_blank dotted) (\<lambda>blank.
     case dotted of
       None \<Rightarrow> Inr (blank, dotted, ipaddr)
     | Some p \<Rightarrow>
         if blank \<noteq> 1 then Inr (blank, dotted, ipaddr)
         else
           bindE (check_symbol p CHR ''.'') (\<lambda>symbol.
           if symbol \<noteq> 3 then Inr (- 1, dotted, ipaddr)
           else
             bindE (dots_loop p) (\<lambda>twice.
             if twice then Inr (- 1, dotted, ipaddr)
             else if \<not> list_all (\<lambda>c. isdigit c \<or> c = CHR ''.'') (take (strlen p) p)
             then Inr (- 1, dotted, ipaddr)
             else
               bindE (dotted_body p ipaddr) (\<lambda>(r, p, ipaddr).
               Inr (r, Some p, ipaddr)))))"

section \<open>Classification\<close>

text \<open>
  \<open>tempip\<close> is not initialised; its old bytes do not matter. When the inner result is
  neither 1 nor -1 the function ends without a \<open>return\<close>.
\<close>

definition check_host_ipv4 :: "string option \<Rightarrow> (int \<times> string option) res" where
  "check_host_ipv4 ip =
     bindE (dotted_to_ipaddr ip [0, 0, 0, 0]) (\<lambda>(result, ip, p).
     if result = 1 then
       (if p ! 0 = 0 \<or> p ! 0 > 223 \<or> p ! 3 = 255 \<or> p ! 0 = 127 then Inr (- 1, ip) else Inr (1, ip))
     else if result = - 1 then Inr (- 1, ip)
     else Inl Undefined_value)"

definition check_host_ipv6 :: "jujube_in_addr \<Rightarrow> int" where
  "check_host_ipv6 jaddr =
     (if inx_addr jaddr = replicate 16 0 then - 1
      else if inx_addr jaddr = replicate 15 0 @ [1] then - 2
      else 0)"

definition check_host_ip :: "string option \<Rightarrow> jujube_in_addr \<Rightarrow> (int \<times> string option) res" where
  "check_host_ip server_ip jaddr =
     (if and (flag jaddr) USE_IPV4 \<noteq> 0
      then bindE (check_host_ipv4 server_ip) (\<lambda>(ret, server_ip).
           Inr (if ret \<noteq> 1 then - 1 else 0, server_ip))
      else if and (flag jaddr) USE_IPV6 \<noteq> 0
      then (let ret = check_host_ipv6 jaddr in Inr (ret, server_ip))
      else Inr (0, server_ip))"

text \<open>
  \<open>inet_pton fam s\<close> is the result of the C function and the bytes it writes (4 or 16 of
  them, when the result is 1).
\<close>

type_synonym pton = "int \<Rightarrow> string \<Rightarrow> int \<times> byte list"

definition jujube_pton :: "pton \<Rightarrow> int \<Rightarrow> string \<Rightarrow> jujube_in_addr \<Rightarrow> int \<times> jujube_in_addr" where
  "jujube_pton inet_pton family ip jaddr =
     (if \<not> (family = AF_INET \<or> family = AF_INET6) then (- 1, jaddr)
      else (case inet_pton family (take (strlen ip) ip) of (ret, bs) \<Rightarrow>
        if ret \<noteq> 1 then (ret, jaddr)
        else (ret, jaddr\<lparr>inx_addr := splice 0 bs (replicate 16 0)\<rparr>)))"

definition check_host_ip_and_get_verion ::
  "pton \<Rightarrow> string \<Rightarrow> jujube_in_addr \<Rightarrow> (int \<times> string option \<times> jujube_in_addr) res" where
  "check_host_ip_and_get_verion inet_pton server_ip jaddr =
     (case jujube_pton inet_pton AF_INET server_ip jujube_in_addr_init of (ret, tmp_addr) \<Rightarrow>
      if ret = 1 then
        bindE (check_host_ip (Some server_ip) (tmp_addr\<lparr>flag := USE_IPV4\<rparr>)) (\<lambda>(ret, server_ip).
        Inr (ret, server_ip, tmp_addr\<lparr>flag := USE_IPV4\<rparr>))
      else if ret = 0 then
        (case jujube_pton inet_pton AF_INET6 server_ip tmp_addr of (ret, tmp_addr) \<Rightarrow>
         if ret \<noteq> 1 then Inr (- 1, Some server_ip, jaddr)
         else
           bindE (check_host_ip (Some server_ip) (tmp_addr\<lparr>flag := USE_IPV6\<rparr>)) (\<lambda>(ret, server_ip).
           Inr (ret, server_ip, tmp_addr\<lparr>flag := USE_IPV6\<rparr>)))
      else Inr (- 2, Some server_ip, jaddr))"

text \<open>\<open>inet_ntop fam bs\<close> is the string written to \<open>str\<close>, or \<open>None\<close> for NULL.\<close>

definition ip_2_str :: "(int \<Rightarrow> byte list \<Rightarrow> string option) \<Rightarrow> jujube_in_addr \<Rightarrow> string \<Rightarrow> string" where
  "ip_2_str inet_ntop in_addr str =
     (case inet_ntop (if flag in_addr = USE_IPV4 then AF_INET else AF_INET6) (inx_addr in_addr) of
        None \<Rightarrow> str[0 := NUL]
      | Some t \<Rightarrow> splice 0 (t @ [NUL]) str)"

section \<open>Decimal numbers\<close>

lemma of_char_digit: "d < 10 \<Longrightarrow> (of_char (digit d) :: int) = 48 + int d"
  using of_nat_of_char [of "digit d", where 'a = int] by (simp add: digit_def)

lemma isdigit_digit: "d < 10 \<Longrightarrow> isdigit (digit d)"
  by (simp add: isdigit_def of_char_digit)

lemma digit_val_digit: "d < 10 \<Longrightarrow> digit_val (digit d) = int d"
  by (simp add: digit_val_def of_char_digit)

lemma isdigit_dec: "c \<in> set (dec n) \<Longrightarrow> isdigit c"
proof (induction n arbitrary: c rule: dec.induct)
  case (1 n)
  then show ?case using dec.simps [of n] by (auto simp: isdigit_digit split: if_splits)
qed

lemma isdigit_not: "isdigit c \<Longrightarrow> c \<noteq> CHR ''.'' \<and> c \<noteq> NUL \<and> c \<noteq> CHR '' '' \<and> c \<noteq> CHR 0x09"
  by (auto simp: isdigit_def)

lemma not_isdigit [simp]: "\<not> isdigit NUL" "\<not> isdigit CHR ''.''"
  by (simp_all add: isdigit_def)

lemma digits_val_dec: "digits_val 0 (dec n @ cs) = digits_val (int n) cs"
proof (induction n arbitrary: cs rule: dec.induct)
  case (1 n)
  show ?case
  proof (cases "n < 10")
    case True
    then show ?thesis using dec.simps [of n] by (simp add: isdigit_digit digit_val_digit)
  next
    case False
    have "10 * int (n div 10) + int (n mod 10) = int n" by presburger
    then show ?thesis using 1 [OF False, of "digit (n mod 10) # cs"] dec.simps [of n] False
      by (simp only: append_assoc append_Cons append_Nil if_False digits_val.simps isdigit_digit
          digit_val_digit mod_less_divisor zero_less_numeral if_True)
  qed
qed

lemma dec_starts: "0 < n \<Longrightarrow> \<exists>c cs. dec n = c # cs \<and> c \<noteq> CHR ''0''"
proof (induction n rule: dec.induct)
  case (1 n)
  show ?case
  proof (cases "n < 10")
    case True
    then have "int n = digit_val (digit n)" by (simp add: digit_val_digit)
    then have "digit n \<noteq> CHR ''0''" using 1(2) by (auto simp: digit_val_def)
    then show ?thesis using True dec.simps [of n] by simp
  next
    case False
    then have "0 < n div 10" by (simp add: div_greater_zero_iff)
    then obtain c cs where "dec (n div 10) = c # cs" "c \<noteq> CHR ''0''" using 1(1) False by blast
    then show ?thesis using False dec.simps [of n] by simp
  qed
qed

lemma my_atoi_dec: "n < 2 ^ 31 \<Longrightarrow> my_atoi (dec n @ [NUL]) = Inr (int n)"
proof (cases "n = 0")
  case True
  moreover have "dec 0 = ''0''" by (simp add: dec.simps [of 0] digit_def char_of_def bit_iff_odd)
  ultimately show ?thesis by simp
next
  case False
  assume n: "n < 2 ^ 31"
  obtain c cs where c: "dec n = c # cs" "c \<noteq> CHR ''0''" using dec_starts False by blast
  have "c \<noteq> NUL" using isdigit_dec [of c n] c isdigit_not by auto
  moreover have "atoi (dec n @ [NUL]) = int n"
    using n by (simp add: atoi_def digits_val_dec signed_of_nat signed_of_int signed_take_bit_int_eq_self)
  ultimately show ?thesis using c by simp
qed

section \<open>Canonical dotted quads\<close>

definition dotted_quad :: "byte \<Rightarrow> byte \<Rightarrow> byte \<Rightarrow> byte \<Rightarrow> string" where
  "dotted_quad a b c d = sprintf_quad [uint a, uint b, uint c, uint d]"

lemma dec_int_byte: "dec_int (uint (a :: byte)) = dec (unat a)"
  by (simp add: dec_int_def)

lemma dotted_quad_eq:
  "dotted_quad a b c d = dec (unat a) @ CHR ''.'' # dec (unat b) @ CHR ''.'' # dec (unat c) @
     CHR ''.'' # dec (unat d)"
  by (simp add: dotted_quad_def sprintf_quad_def dec_int_byte)

lemma unat_byte_lt: "unat (a :: byte) < 256"
  using unsigned_less [of a] by simp

lemma length_dotted_quad: "length (dotted_quad a b c d) \<le> 15"
proof -
  have "length (dec (unat x)) \<le> 3" for x :: byte
    using length_dec [of "unat x" 2] unat_byte_lt [of x] by simp
  from this [of a] this [of b] this [of c] this [of d] show ?thesis by (simp add: dotted_quad_eq)
qed

lemma dotted_quad_chars: "x \<in> set (dotted_quad a b c d) \<Longrightarrow> isdigit x \<or> x = CHR ''.''"
  using isdigit_dec by (auto simp: dotted_quad_eq)

lemma strlen_NUL: "NUL \<notin> set cs \<Longrightarrow> strlen (cs @ NUL # r) = length cs"
  unfolding strlen_def by (induction cs) auto

lemma skip_blanks_none: "c \<noteq> CHR '' '' \<Longrightarrow> c \<noteq> CHR 0x09 \<Longrightarrow> skip_blanks (c # cs) = Inr (c # cs)"
  by simp

lemma count_words_one:
  assumes "\<forall>c \<in> set cs. c \<noteq> NUL \<and> c \<noteq> CHR '' '' \<and> c \<noteq> CHR 0x09" and "0 \<le> blank"
  shows "count_words (cs @ NUL # r) blank i = Inr (if blank = 0 \<and> cs \<noteq> [] then i + 1 else i)"
  using assms by (induction cs arbitrary: blank i) auto

lemma check_blank_word:
  assumes "\<forall>c \<in> set cs. c \<noteq> NUL \<and> c \<noteq> CHR '' '' \<and> c \<noteq> CHR 0x09" and "cs \<noteq> []"
  shows "check_blank (Some (cs @ NUL # r)) = Inr 1"
proof -
  obtain d ds where d: "cs = d # ds" using assms(2) by (cases cs) auto
  have "get_str_num (cs @ NUL # r) = Inr 1"
    using assms d count_words_one [OF assms(1), of 0 r 0] by (simp add: get_str_num_def)
  then show ?thesis using assms d by (simp add: check_blank_def)
qed

lemma check_symbol_skip:
  "\<forall>c \<in> set cs. c \<noteq> NUL \<and> c \<noteq> x \<Longrightarrow> check_symbol (cs @ r) x = check_symbol r x"
proof (induction cs)
  case (Cons a cs)
  then have "check_symbol ((a # cs) @ r) x = bindE (check_symbol r x) (\<lambda>i. Inr (i + 0))" by simp
  then show ?case by (cases "check_symbol r x") auto
qed simp

lemma dots_loop_skip:
  "\<forall>c \<in> set cs. c \<noteq> NUL \<and> c \<noteq> CHR ''.'' \<Longrightarrow> dots_loop (cs @ r) = dots_loop r"
  by (induction cs) auto

lemma dots_loop_segment:
  assumes "\<forall>c \<in> set cs. c \<noteq> NUL \<and> c \<noteq> CHR ''.''" and "cs \<noteq> []"
  shows "dots_loop (CHR ''.'' # cs @ r) = dots_loop r"
  using assms dots_loop_skip [of "tl cs" r] by (cases cs) auto

lemma cut_dot_segment:
  "\<forall>c \<in> set cs. c \<noteq> NUL \<and> c \<noteq> CHR ''.'' \<Longrightarrow> cut_dot (cs @ CHR ''.'' # r) = Some (cs @ [NUL], r)"
  by (induction cs) auto

lemma dec_plain:
  "\<forall>c \<in> set (dec n). c \<noteq> NUL \<and> c \<noteq> CHR ''.''"
  "\<forall>c \<in> set (dec n). isdigit c"
  using isdigit_dec isdigit_not by blast+

lemma byte_of_uint: "(of_int (uint a) :: byte) = a"
  by simp

lemma octet_step:
  "octets (Suc n) (dec (unat (x :: byte)) @ CHR ''.'' # r) v = octets n r (v @ [uint x])"
proof -
  have "my_atoi (dec (unat x) @ [NUL]) = Inr (uint x)"
    using my_atoi_dec [of "unat x"] unat_byte_lt [of x] by simp
  moreover have "0 \<le> uint x" "uint x \<le> 255" using unat_byte_lt [of x] by (simp_all flip: nat_uint_eq)
  ultimately show ?thesis by (simp add: cut_dot_segment [OF dec_plain(1)] not_less)
qed

lemma octets_quad:
  "octets 3 (dotted_quad a b c d @ r) [] = Inr (True, [uint a, uint b, uint c], dec (unat d) @ r)"
  unfolding dotted_quad_eq append_assoc append_Cons numeral_3_eq_3 octet_step by simp

lemma strncpy20_short:
  assumes "NUL \<notin> set cs" and "length cs \<le> 19"
  shows "\<exists>k. strncpy20 (cs @ NUL # r) = cs @ NUL # replicate k NUL"
proof -
  obtain k where k: "19 = length cs + k" using assms(2) by (auto simp: le_iff_add)
  have "strncpy20 (cs @ NUL # r) = cs @ replicate k NUL @ [NUL]"
    using assms k by (simp add: strncpy20_def strlen_NUL min_absorb1)
  then show ?thesis by (auto simp: replicate_append_same)
qed

lemma dotted_body_quad:
  assumes "length ipaddr = 4"
  shows "dotted_body (dotted_quad a b c d @ NUL # r) ipaddr =
    Inr (1, dotted_quad a b c d @ NUL # r, [a, b, c, d])"
proof -
  define q where "q = dotted_quad a b c d"
  have plain: "NUL \<notin> set q" using dotted_quad_chars [of NUL] by (auto simp: q_def)
  obtain k where k: "strncpy20 (q @ NUL # r) = q @ NUL # replicate k NUL"
    using strncpy20_short [OF plain, of r] length_dotted_quad [of a b c d] by (auto simp: q_def)
  have oct: "octets 3 (q @ NUL # replicate k NUL) [] =
      Inr (True, [uint a, uint b, uint c], dec (unat d) @ NUL # replicate k NUL)"
    unfolding q_def by (rule octets_quad)
  have tw: "takeWhile isdigit (dec (unat d) @ NUL # replicate k NUL) = dec (unat d)"
    using dec_plain(2) by (simp add: takeWhile_append2)
  have first: "isdigit ((dec (unat d) @ NUL # replicate k NUL) ! 0)"
    using dec_plain(2) [of "unat d"] dec_nonempty [of "unat d"] by (cases "dec (unat d)") auto
  have num: "my_atoi (dec (unat d) @ [NUL]) = Inr (uint d)"
    using my_atoi_dec [of "unat d"] unat_byte_lt [of d] by simp
  have small: "\<not> (uint d < 0 \<or> uint d > 255)" using unat_byte_lt [of d] by (simp flip: nat_uint_eq)
  have out: "sprintf_quad [uint a, uint b, uint c, uint d] = q" by (simp add: dotted_quad_def q_def)
  have "splice 0 (q @ [NUL]) (q @ NUL # r) = q @ NUL # r" by (simp add: splice_def)
  moreover have "store_octets [uint a, uint b, uint c, uint d] (store_octets [uint a, uint b, uint c] ipaddr)
      = [a, b, c, d]"
    using assms by (simp add: store_octets_def splice_def)
  ultimately have "dotted_body (q @ NUL # r) ipaddr = Inr (1, q @ NUL # r, [a, b, c, d])"
    unfolding dotted_body_def k oct using tw first num small out by simp
  then show ?thesis by (simp add: q_def)
qed

lemma dotted_quad_scan:
  "check_blank (Some (dotted_quad a b c d @ NUL # r)) = Inr 1"
  "check_symbol (dotted_quad a b c d @ NUL # r) CHR ''.'' = Inr 3"
  "dots_loop (dotted_quad a b c d @ NUL # r) = Inr False"
  "list_all (\<lambda>c. isdigit c \<or> c = CHR ''.'')
     (take (strlen (dotted_quad a b c d @ NUL # r)) (dotted_quad a b c d @ NUL # r))"
proof -
  let ?q = "dotted_quad a b c d"
  have chars: "\<forall>x \<in> set ?q. x \<noteq> NUL \<and> x \<noteq> CHR '' '' \<and> x \<noteq> CHR 0x09"
    using dotted_quad_chars [of _ a b c d] isdigit_not by fastforce
  have ne: "?q \<noteq> []" by (simp add: dotted_quad_eq)
  show "check_blank (Some (?q @ NUL # r)) = Inr 1" by (rule check_blank_word [OF chars ne])
  show "check_symbol (?q @ NUL # r) CHR ''.'' = Inr 3"
    by (simp add: dotted_quad_eq check_symbol_skip [OF dec_plain(1)])
  show "dots_loop (?q @ NUL # r) = Inr False"
    by (simp only: dotted_quad_eq append_assoc append_Cons dots_loop_skip [OF dec_plain(1)]
        dots_loop_segment [OF dec_plain(1) dec_nonempty]) simp
  show "list_all (\<lambda>c. isdigit c \<or> c = CHR ''.'') (take (strlen (?q @ NUL # r)) (?q @ NUL # r))"
  proof -
    have "NUL \<notin> set ?q" using chars by blast
    then have "take (strlen (?q @ NUL # r)) (?q @ NUL # r) = ?q" by (simp add: strlen_NUL)
    moreover have "list_all (\<lambda>c. isdigit c \<or> c = CHR ''.'') ?q"
      unfolding list_all_iff using dotted_quad_chars [of _ a b c d] by blast
    ultimately show ?thesis by simp
  qed
qed

lemma dotted_to_ipaddr_quad:
  assumes "length ipaddr = 4"
  shows "dotted_to_ipaddr (Some (dotted_quad a b c d @ NUL # r)) ipaddr =
    Inr (1, Some (dotted_quad a b c d @ NUL # r), [a, b, c, d])"
  using dotted_body_quad [OF assms] dotted_quad_scan by (simp add: dotted_to_ipaddr_def)

lemma octets_sound:
  "octets n p v = Inr (good, v', q) \<Longrightarrow> set v \<subseteq> {0..255} \<Longrightarrow>
   set v' \<subseteq> {0..255} \<and> (good \<longrightarrow> length v' = length v + n)"
proof (induction n arbitrary: p v)
  case 0
  then show ?case by simp
next
  case (Suc n)
  show ?case
  proof (cases "cut_dot p")
    case None
    then show ?thesis using Suc.prems by auto
  next
    case (Some sr)
    then obtain x where x: "my_atoi (fst sr) = Inr x" using Suc.prems by (auto simp: res_simps split: prod.splits)
    show ?thesis
    proof (cases "x < 0 \<or> x > 255")
      case True
      then show ?thesis using Suc.prems Some x by (auto split: prod.splits)
    next
      case False
      then have "octets n (snd sr) (v @ [x]) = Inr (good, v', q)" "set (v @ [x]) \<subseteq> {0..255}"
        using Suc.prems Some x by (auto split: prod.splits)
      then show ?thesis using Suc.IH [of "snd sr" "v @ [x]"] by simp
    qed
  qed
qed

lemma byte_int: "0 \<le> i \<Longrightarrow> i \<le> 255 \<Longrightarrow> uint (of_int i :: byte) = i"
  by (simp add: unsigned_of_int take_bit_int_eq_self)

lemma dotted_body_sound:
  assumes run: "dotted_body p ip = Inr (1, p', ip')" and ip: "length ip = 4"
  shows "\<exists>a b c d r. ip' = [a, b, c, d] \<and> p' = dotted_quad a b c d @ NUL # r \<and> length p' = length p"
proof -
  obtain v q where v: "octets 3 (strncpy20 p) [] = Inr (True, v, q)" and q: "q \<noteq> []" "isdigit (q ! 0)"
    using run by (auto simp: dotted_body_def Let_def res_simps split: if_splits)
  obtain x where x: "my_atoi (takeWhile isdigit q @ [NUL]) = Inr x" "\<not> (x < 0 \<or> x > 255)"
    and fits: "length (sprintf_quad (v @ [x]) @ [NUL]) \<le> length p"
    and out: "p' = splice 0 (sprintf_quad (v @ [x]) @ [NUL]) p"
      "ip' = store_octets (v @ [x]) (store_octets v ip)"
    using run v q unfolding dotted_body_def by (auto simp: Let_def res_simps split: if_splits)
  have "set v \<subseteq> {0..255}" "length v = 3" using octets_sound [OF v] by auto
  then obtain i j k where ijk: "v = [i, j, k]" "{i, j, k} \<subseteq> {0..255}"
    by (auto simp: numeral_3_eq_3 length_Suc_conv)
  let ?b = "of_int :: int \<Rightarrow> byte"
  have "sprintf_quad (v @ [x]) = dotted_quad (?b i) (?b j) (?b k) (?b x)"
    using ijk x(2) by (simp add: dotted_quad_def byte_int)
  then have "p' = dotted_quad (?b i) (?b j) (?b k) (?b x) @ NUL #
      drop (length (sprintf_quad (v @ [x]) @ [NUL])) p"
    using out(1) by (simp add: splice_def)
  moreover have "length p' = length p" using out(1) fits by (simp only: length_splice add_0)
  moreover have "ip' = [?b i, ?b j, ?b k, ?b x]"
    using out(2) ijk(1) ip by (simp add: store_octets_def splice_def)
  ultimately show ?thesis by blast
qed

lemma check_host_ipv4_quad:
  "check_host_ipv4 (Some (dotted_quad a b c d @ NUL # r)) =
    Inr (if a = 0 \<or> a > 223 \<or> d = 255 \<or> a = 127 then - 1 else 1, Some (dotted_quad a b c d @ NUL # r))"
  by (simp add: check_host_ipv4_def dotted_to_ipaddr_quad)

section \<open>Properties\<close>



lemma check_ipv4_text:
  assumes "inet_pton AF_INET (dotted_quad a b c d) = (1, [a, b, c, d])"
  shows "check_host_ip_and_get_verion inet_pton (dotted_quad a b c d @ NUL # r) jaddr =
    Inr (if 1 \<le> a \<and> a \<le> 223 \<and> a \<noteq> 127 \<and> d \<noteq> 255 then 0 else - 1,
      Some (dotted_quad a b c d @ NUL # r),
      \<lparr>inx_addr = [a, b, c, d] @ replicate 12 0, flag = USE_IPV4\<rparr>)"
proof -
  let ?q = "dotted_quad a b c d"
  have "NUL \<notin> set ?q" using dotted_quad_chars [of NUL] by auto
  then have "take (strlen (?q @ NUL # r)) (?q @ NUL # r) = ?q" by (simp add: strlen_NUL)
  then have pton: "jujube_pton inet_pton AF_INET (?q @ NUL # r) jujube_in_addr_init =
      (1, \<lparr>inx_addr = [a, b, c, d] @ replicate 12 0, flag = NONE_IP\<rparr>)"
    using assms by (simp add: jujube_pton_def jujube_in_addr_init_def splice_def numeral_eq_Suc)
  have "1 \<le> a \<longleftrightarrow> a \<noteq> 0" by (simp add: word_le_nat_alt Suc_le_eq unat_gt_0)
  then have "(a = 0 \<or> a > 223 \<or> d = 255 \<or> a = 127) = (\<not> (1 \<le> a \<and> a \<le> 223 \<and> a \<noteq> 127 \<and> d \<noteq> 255))"
    by (auto simp: not_less)
  then show ?thesis
    by (auto simp: check_host_ip_and_get_verion_def pton check_host_ip_def check_host_ipv4_quad)
qed

text \<open>
  C35. The whole check of a host name, given an \<open>inet_pton\<close> that accepts canonical dotted
  quads with their bytes (its documented behaviour). For an IPv4 text the address and its
  family are stored in any case, and the result is 0 exactly for a host address: the first byte
  in 1..223 but not 127, the last one not 255; otherwise it is -1.
\<close>

theorem check_ipv4_host:
  assumes "inet_pton AF_INET (dotted_quad a b c d) = (1, [a, b, c, d])"
  shows "check_host_ip_and_get_verion inet_pton (dotted_quad a b c d @ NUL # r) jaddr =
    Inr (if 1 \<le> a \<and> a \<le> 223 \<and> a \<noteq> 127 \<and> d \<noteq> 255 then 0 else - 1,
      Some (dotted_quad a b c d @ NUL # r),
      \<lparr>inx_addr = [a, b, c, d] @ replicate 12 0, flag = USE_IPV4\<rparr>)"
  using assms by (rule check_ipv4_text)

theorem check_ipv4_host_witness:
  "check_host_ip_and_get_verion (\<lambda>fam s. if fam = AF_INET \<and> s = dotted_quad 192 168 104 159
       then (1, [192, 168, 104, 159]) else (0, []))
     (dotted_quad 192 168 104 159 @ [NUL]) jujube_in_addr_init =
   Inr (0, Some (dotted_quad 192 168 104 159 @ [NUL]),
     \<lparr>inx_addr = [192, 168, 104, 159] @ replicate 12 0, flag = USE_IPV4\<rparr>)"
  using check_ipv4_host [of "\<lambda>fam s. if fam = AF_INET \<and> s = dotted_quad 192 168 104 159
       then (1, [192, 168, 104, 159]) else (0, [])" 192 168 104 159 "[]" jujube_in_addr_init]
  by simp

text \<open>
  A text that is no IPv4 address is taken as an IPv6 address: the unspecified address gives
  -1, the loopback address -2, any other 0, the address is stored and the text is not touched.
  A text that is neither gives -1 and leaves the address of the caller as it was.
\<close>

lemma check_ipv6_host:
  assumes "fst (inet_pton AF_INET s) = 0" and "NUL \<notin> set s"
    and "inet_pton AF_INET6 s = (ret, bs)" and "ret = 1 \<longrightarrow> length bs = 16"
  shows "check_host_ip_and_get_verion inet_pton (s @ NUL # r) jaddr =
    (if ret = 1 then
       Inr (if bs = replicate 16 0 then - 1 else if bs = replicate 15 0 @ [1] then - 2 else 0,
         Some (s @ NUL # r), \<lparr>inx_addr = bs, flag = USE_IPV6\<rparr>)
     else Inr (- 1, Some (s @ NUL # r), jaddr))"
proof -
  have "take (strlen (s @ NUL # r)) (s @ NUL # r) = s" using assms(2) by (simp add: strlen_NUL)
  then have pton: "fst (jujube_pton inet_pton AF_INET (s @ NUL # r) jujube_in_addr_init) = 0"
      "snd (jujube_pton inet_pton AF_INET (s @ NUL # r) jujube_in_addr_init) = jujube_in_addr_init"
      "jujube_pton inet_pton AF_INET6 (s @ NUL # r) jujube_in_addr_init =
        (ret, if ret = 1 then \<lparr>inx_addr = bs, flag = NONE_IP\<rparr> else jujube_in_addr_init)"
    using assms by (auto simp: jujube_pton_def jujube_in_addr_init_def splice_def split: prod.splits)
  obtain x y where xy: "jujube_pton inet_pton AF_INET (s @ NUL # r) jujube_in_addr_init = (x, y)"
    by fastforce
  then have "x = 0" "y = jujube_in_addr_init" using pton(1,2) by simp_all
  then show ?thesis
    by (simp add: check_host_ip_and_get_verion_def xy pton(3) check_host_ip_def check_host_ipv6_def)
qed


text \<open>
  \<open>check_host_ipv4\<close> has no value on a text of blanks: \<open>dotted_to_ipaddr\<close> returns 0
  and the function ends without a \<open>return\<close>. And a number that is too large for \<open>int\<close> is
  cut to its low 32 bits before it is compared with 255, so that the function accepts
  4294967297.0.0.1 as 1.0.0.1.
\<close>

lemma check_host_ipv4_gaps:
  "check_host_ipv4 (Some (replicate n CHR '' '' @ NUL # r)) = Inl Undefined_value \<and>
   dotted_to_ipaddr (Some (''4294967297.0.0.1'' @ [NUL])) [0, 0, 0, 0] =
     Inr (1, Some (''1.0.0.1'' @ NUL # ''97.0.0.1'' @ [NUL]), [1, 0, 0, 1])"
proof (rule conjI)
  have skip: "skip_blanks (replicate n CHR '' '' @ NUL # r) = Inr (NUL # r)"
    by (induction n) auto
  have "check_blank (Some (replicate n CHR '' '' @ NUL # r)) = Inr 0"
    using skip by (simp add: check_blank_def get_str_num_def)
  then show "check_host_ipv4 (Some (replicate n CHR '' '' @ NUL # r)) = Inl Undefined_value"
    by (simp add: check_host_ipv4_def dotted_to_ipaddr_def)
  show "dotted_to_ipaddr (Some (''4294967297.0.0.1'' @ [NUL])) [0, 0, 0, 0] =
     Inr (1, Some (''1.0.0.1'' @ NUL # ''97.0.0.1'' @ [NUL]), [1, 0, 0, 1])"
    by code_simp
qed

end
