(* ===== verification/Connection.thy ===== *)
theory Connection
  imports Buf Ip "HOL-Library.Multiset"
begin

text \<open>
  The connection pool of \<open>connection.c\<close> and \<open>connection.h\<close>.

  A \<open>jconnect\<close> is a location: its list node is in \<open>clinks\<close>, its other fields in
  \<open>jconns\<close>; \<open>free\<close> removes both. The head \<open>g_jconnect\<close> is a static node, the local
  list \<open>invaild_conn\<close> a stack node that exists during \<open>get_connection\<close> only.
  \<open>closed_fds\<close> is the trace of the calls of \<open>close\<close>. The lemmas show that the pool is a
  queue of live connections, and account for every connection and every descriptor.
\<close>

section \<open>State\<close>

datatype conn_status = BEGIN_CONN | CONN_ESTAB | CONN_CLOSE

text \<open>The three macros are the numbers 0, 1 and 2: a connection passes through them in order.\<close>

instantiation conn_status :: linorder
begin

primrec status_nat :: "conn_status \<Rightarrow> nat" where
  "status_nat BEGIN_CONN = 0"
| "status_nat CONN_ESTAB = 1"
| "status_nat CONN_CLOSE = 2"

definition less_eq_conn_status :: "conn_status \<Rightarrow> conn_status \<Rightarrow> bool" where
  "less_eq_conn_status a b \<longleftrightarrow> status_nat a \<le> status_nat b"

definition less_conn_status :: "conn_status \<Rightarrow> conn_status \<Rightarrow> bool" where
  "less_conn_status a b \<longleftrightarrow> status_nat a < status_nat b"

instance
proof
  fix a b c :: conn_status
  show "a < b \<longleftrightarrow> a \<le> b \<and> \<not> b \<le> a" "a \<le> a" "a \<le> b \<Longrightarrow> b \<le> c \<Longrightarrow> a \<le> c" "a \<le> b \<or> b \<le> a"
    by (auto simp: less_eq_conn_status_def less_conn_status_def)
  show "a \<le> b \<Longrightarrow> b \<le> a \<Longrightarrow> a = b"
    by (cases a; cases b) (simp_all add: less_eq_conn_status_def)
qed

end

record connect_pool =
  max_connects :: uint32
  max_alive_times :: uint32
  max_txn :: uint32
  current_total :: uint32

record jconnect =
  jaddr :: jujube_in_addr
  port :: uint32
  jc_fd :: int
  is_alive :: int
  create_time :: uint32
  requests :: uint32
  jc_status :: conn_status
  jc_stream :: loc

record conn_state = buf_state +
  clinks :: lheap
  jconns :: "loc \<Rightarrow> jconnect option"
  g_connect_pool :: connect_pool
  closed_fds :: "int list"

abbreviation g_jconnect :: loc where "g_jconnect \<equiv> Static 18"
abbreviation invaild_conn :: loc where "invaild_conn \<equiv> Stack 0"

definition with_clinks :: "(lheap \<Rightarrow> lheap res) \<Rightarrow> 'z conn_state_scheme \<Rightarrow> 'z conn_state_scheme res" where
  "with_clinks f s = bindE (f (clinks s)) (\<lambda>h. Inr (s\<lparr>clinks := h\<rparr>))"

definition get_conn :: "loc \<Rightarrow> 'z conn_state_scheme \<Rightarrow> jconnect res" where
  "get_conn p s = (case jconns s p of None \<Rightarrow> Inl Invalid_access | Some c \<Rightarrow> Inr c)"

definition set_conn :: "loc \<Rightarrow> jconnect \<Rightarrow> 'z conn_state_scheme \<Rightarrow> 'z conn_state_scheme" where
  "set_conn p c s = s\<lparr>jconns := (jconns s)(p \<mapsto> c)\<rparr>"

definition add_total :: "uint32 \<Rightarrow> 'z conn_state_scheme \<Rightarrow> 'z conn_state_scheme" where
  "add_total k s = s\<lparr>g_connect_pool := (g_connect_pool s)\<lparr>current_total := current_total (g_connect_pool s) + k\<rparr>\<rparr>"

definition close_fd :: "int \<Rightarrow> 'z conn_state_scheme \<Rightarrow> 'z conn_state_scheme" where
  "close_fd d s = s\<lparr>closed_fds := closed_fds s @ [d]\<rparr>"

definition free_conn :: "loc \<Rightarrow> 'z conn_state_scheme \<Rightarrow> 'z conn_state_scheme" where
  "free_conn p s = s\<lparr>clinks := (clinks s)(p := None), jconns := (jconns s)(p := None)\<rparr>"

section \<open>Operations\<close>

definition init_connect_pool :: "'z conn_state_scheme \<Rightarrow> 'z conn_state_scheme res" where
  "init_connect_pool s =
     with_clinks (INIT_LIST_HEAD g_jconnect)
       (s\<lparr>g_connect_pool := \<lparr>max_connects = 10, max_alive_times = 60, max_txn = 100, current_total = 0\<rparr>\<rparr>)"

text \<open>The number that \<open>get_connection_statiscs\<close> prints.\<close>

definition get_connection_statiscs :: "'z conn_state_scheme \<Rightarrow> int res option" where
  "get_connection_statiscs s =
     map_option (\<lambda>r. bindE r (\<lambda>qs. Inr (int (length qs)))) (list_for_each (clinks s) g_jconnect)"

text \<open>
  One round of the first loop of \<open>get_connection\<close>: whether the loop is left, and the
  connection found or the next cursor.
\<close>

definition pick_step :: "loc \<Rightarrow> 'z conn_state_scheme \<Rightarrow> (bool \<times> loc \<times> 'z conn_state_scheme) res" where
  "pick_step cursor s =
     bindE (rd_node (clinks s) cursor) (\<lambda>n.
     let next_cursor = nxt n in
     bindE (with_clinks (list_del cursor) s) (\<lambda>s.
     bindE (get_conn cursor s) (\<lambda>c.
     if is_alive c = 0
     then bindE (with_clinks (list_add_tail cursor invaild_conn) s) (\<lambda>s. Inr (False, next_cursor, s))
     else Inr (True, cursor, s))))"

partial_function (option) pick_loop ::
  "loc \<Rightarrow> 'z conn_state_scheme \<Rightarrow> (loc \<times> 'z conn_state_scheme) res option" where
  "pick_loop cursor s =
     (if cursor = g_jconnect then Some (Inr (Null, s))
      else (case pick_step cursor s of
              Inl e \<Rightarrow> Some (Inl e)
            | Inr (found, c, s) \<Rightarrow> if found then Some (Inr (c, s)) else pick_loop c s))"

definition free_step :: "loc \<Rightarrow> 'z conn_state_scheme \<Rightarrow> (loc \<times> 'z conn_state_scheme) res" where
  "free_step cursor s =
     bindE (rd_node (clinks s) cursor) (\<lambda>n.
     bindE (get_conn cursor s) (\<lambda>c.
     Inr (nxt n, add_total (- 1) (free_conn cursor (close_fd (jc_fd c) s)))))"

partial_function (option) free_loop ::
  "loc \<Rightarrow> 'z conn_state_scheme \<Rightarrow> 'z conn_state_scheme res option" where
  "free_loop cursor s =
     (if cursor = invaild_conn then Some (Inr s)
      else (case free_step cursor s of
              Inl e \<Rightarrow> Some (Inl e)
            | Inr (c, s) \<Rightarrow> free_loop c s))"

text \<open>
  \<open>get_connection\<close>: \<open>None\<close> when one of the loops does not end. The stack node is
  mapped at the start and gone at the end.
\<close>

definition get_connection :: "'z conn_state_scheme \<Rightarrow> (loc \<times> 'z conn_state_scheme) res option" where
  "get_connection s =
     bindT (Some (with_clinks (INIT_LIST_HEAD invaild_conn)
       (s\<lparr>clinks := (clinks s)(invaild_conn \<mapsto> \<lparr>nxt = Null, prev = Null\<rparr>)\<rparr>))) (\<lambda>s.
     bindT (Some (rd_node (clinks s) g_jconnect)) (\<lambda>g.
     bindT (pick_loop (nxt g) s) (\<lambda>(curr_conn, s).
     bindT (Some (rd_node (clinks s) invaild_conn)) (\<lambda>i.
     bindT (free_loop (nxt i) s) (\<lambda>s.
     Some (Inr (curr_conn, s\<lparr>clinks := (clinks s)(invaild_conn := None)\<rparr>)))))))"

definition release_connection :: "loc \<Rightarrow> 'z conn_state_scheme \<Rightarrow> 'z conn_state_scheme res" where
  "release_connection jc s =
     bindE (get_conn jc s) (\<lambda>c.
     let c = c\<lparr>requests := requests c + 1\<rparr>; s = set_conn jc c s in
     if is_alive c = 0
     then Inr (add_total (- 1) (free_conn jc (close_fd (jc_fd c) s)))
     else with_clinks (list_add_tail jc g_jconnect) (add_total 1 s))"

definition release_keepalive_connection :: "loc \<Rightarrow> 'z conn_state_scheme \<Rightarrow> 'z conn_state_scheme res" where
  "release_keepalive_connection jc s =
     bindE (get_conn jc s) (\<lambda>c.
     bindE (with_clinks (list_del jc) (close_fd (jc_fd c) s)) (\<lambda>s.
     Inr (add_total (- 1) (free_conn jc s))))"

section \<open>The loops of \<open>get_connection\<close>\<close>

definition dead :: "'z conn_state_scheme \<Rightarrow> loc \<Rightarrow> bool" where
  "dead s x = (case jconns s x of None \<Rightarrow> False | Some c \<Rightarrow> is_alive c = 0)"

definition fd_of :: "'z conn_state_scheme \<Rightarrow> loc \<Rightarrow> int" where
  "fd_of s x = (case jconns s x of None \<Rightarrow> - 1 | Some c \<Rightarrow> jc_fd c)"

abbreviation two_heads :: "loc set" where
  "two_heads \<equiv> {g_jconnect, invaild_conn}"

lemma with_clinks_ok: "f (clinks s) = Inr h \<Longrightarrow> with_clinks f s = Inr (s\<lparr>clinks := h\<rparr>)"
  by (simp add: with_clinks_def)

lemma pick_step_alive:
  assumes r: "rings dlist (clinks s) two_heads f" and f: "f g_jconnect = x # xs"
    and c: "jconns s x = Some c" "is_alive c \<noteq> 0"
  shows "\<exists>h. pick_step x s = Inr (True, x, s\<lparr>clinks := h\<rparr>) \<and>
    rings dlist h two_heads (f(g_jconnect := xs)) \<and> (\<forall>p. is_node h p = is_node (clinks s) p)"
proof -
  have ring: "dlist (clinks s) g_jconnect ([] @ x # xs)" using rings_at [OF r, of g_jconnect] f by simp
  obtain n where n: "rd_node (clinks s) x = Inr n" using dlist_at [OF ring] by blast
  obtain h where h: "list_del x (clinks s) = Inr h" "rings dlist h two_heads (f(g_jconnect := xs))"
    "\<forall>p. is_node h p = is_node (clinks s) p"
    using dl.rings_del [OF r, of g_jconnect x] f by auto
  have "pick_step x s = Inr (True, x, s\<lparr>clinks := h\<rparr>)"
    using n c h(1) by (simp add: pick_step_def with_clinks_ok get_conn_def)
  then show ?thesis using h by blast
qed

lemma pick_step_dead:
  assumes r: "rings dlist (clinks s) two_heads f" and f: "f g_jconnect = x # xs"
    and c: "jconns s x = Some c" "is_alive c = 0"
  shows "\<exists>h. pick_step x s = Inr (False, hd (xs @ [g_jconnect]), s\<lparr>clinks := h\<rparr>) \<and>
    rings dlist h two_heads (f(g_jconnect := xs, invaild_conn := f invaild_conn @ [x])) \<and>
    (\<forall>p. is_node h p = is_node (clinks s) p)"
proof -
  have ring: "dlist (clinks s) g_jconnect ([] @ x # xs)" using rings_at [OF r, of g_jconnect] f by simp
  obtain n where n: "rd_node (clinks s) x = Inr n" "nxt n = hd (xs @ [g_jconnect])"
    using dlist_at [OF ring] by blast
  obtain h1 h2 where h: "list_del x (clinks s) = Inr h1" "list_add_tail x invaild_conn h1 = Inr h2"
    "rings dlist h2 two_heads (f(g_jconnect := xs, invaild_conn := f invaild_conn @ [x]))"
    "\<forall>p. is_node h2 p = is_node (clinks s) p"
    using dl.rings_move_tail [OF r, of g_jconnect invaild_conn x] f by auto
  have "pick_step x s = Inr (False, hd (xs @ [g_jconnect]), s\<lparr>clinks := h2\<rparr>)"
    using n c h(1,2) by (simp add: pick_step_def with_clinks_ok get_conn_def)
  then show ?thesis using h by blast
qed

lemma pick_loop_ring:
  assumes "rings dlist (clinks s) two_heads f" and "f g_jconnect = xs"
    and "\<forall>x \<in> set xs. jconns s x \<noteq> None"
  shows "\<exists>h. pick_loop (hd (xs @ [g_jconnect])) s =
      Some (Inr (hd (dropWhile (dead s) xs @ [Null]), s\<lparr>clinks := h\<rparr>)) \<and>
    rings dlist h two_heads (f(g_jconnect := tl (dropWhile (dead s) xs),
      invaild_conn := f invaild_conn @ takeWhile (dead s) xs)) \<and>
    (\<forall>p. is_node h p = is_node (clinks s) p)"
  using assms
proof (induction xs arbitrary: s f)
  case Nil
  then have same: "f(g_jconnect := [], invaild_conn := f invaild_conn) = f" by auto
  have "pick_loop g_jconnect s = Some (Inr (Null, s\<lparr>clinks := clinks s\<rparr>))" by (simp add: pick_loop.simps)
  then show ?case using Nil.prems(1)
    by (intro exI [of _ "clinks s"]) (simp del: fun_upd_apply add: same)
next
  case (Cons x xs)
  have ring: "dlist (clinks s) g_jconnect (x # xs)" using rings_at [OF Cons.prems(1)] Cons.prems(2) by force
  then have x: "x \<noteq> g_jconnect" by (auto simp: dlist_def)
  obtain c where c: "jconns s x = Some c" using Cons.prems(3) by auto
  show ?case
  proof (cases "is_alive c = 0")
    case False
    then obtain h where h: "pick_step x s = Inr (True, x, s\<lparr>clinks := h\<rparr>)"
      "rings dlist h two_heads (f(g_jconnect := xs))" "\<forall>p. is_node h p = is_node (clinks s) p"
      using pick_step_alive [OF Cons.prems(1,2) c] by blast
    moreover have "f(g_jconnect := xs, invaild_conn := f invaild_conn) = f(g_jconnect := xs)" by auto
    moreover have "\<not> dead s x" using c False by (simp add: dead_def)
    ultimately show ?thesis using x h
      by (intro exI [of _ h]) (simp del: fun_upd_apply add: pick_loop.simps [of x])
  next
    case True
    then obtain h where h: "pick_step x s = Inr (False, hd (xs @ [g_jconnect]), s\<lparr>clinks := h\<rparr>)"
      "rings dlist h two_heads (f(g_jconnect := xs, invaild_conn := f invaild_conn @ [x]))"
      "\<forall>p. is_node h p = is_node (clinks s) p"
      using pick_step_dead [OF Cons.prems(1,2) c] by blast
    have same: "dead (s\<lparr>clinks := h\<rparr>) = dead s" by (simp add: dead_def fun_eq_iff)
    have dx: "dead s x" using c True by (simp add: dead_def)
    let ?f1 = "f(g_jconnect := xs, invaild_conn := f invaild_conn @ [x])"
    have upd: "?f1(g_jconnect := ys, invaild_conn := zs) = f(g_jconnect := ys, invaild_conn := zs)" for ys zs
      by (auto simp: fun_eq_iff)
    have over: "s\<lparr>clinks := h, clinks := h'\<rparr> = s\<lparr>clinks := h'\<rparr>" "clinks (s\<lparr>clinks := h\<rparr>) = h" for h'
      by simp_all
    have f1: "?f1 g_jconnect = xs" "?f1 invaild_conn = f invaild_conn @ [x]" by simp_all
    have r1: "rings dlist (clinks (s\<lparr>clinks := h\<rparr>)) two_heads ?f1" using h(2) by simp
    have j1: "\<forall>y \<in> set xs. jconns (s\<lparr>clinks := h\<rparr>) y \<noteq> None" using Cons.prems(3) by simp
    obtain h' where h': "pick_loop (hd (xs @ [g_jconnect])) (s\<lparr>clinks := h\<rparr>) =
        Some (Inr (hd (dropWhile (dead s) xs @ [Null]), s\<lparr>clinks := h'\<rparr>))"
      "rings dlist h' two_heads (f(g_jconnect := tl (dropWhile (dead s) xs),
        invaild_conn := (f invaild_conn @ [x]) @ takeWhile (dead s) xs))"
      "\<forall>p. is_node h' p = is_node h p"
      using Cons.IH [OF r1 f1(1) j1] unfolding upd f1(2) same over by blast
    have "pick_loop x s = Some (Inr (hd (dropWhile (dead s) xs @ [Null]), s\<lparr>clinks := h'\<rparr>))"
      using h'(1) h(1) x by (simp add: pick_loop.simps [of x])
    then show ?thesis using h(3) h'(2,3) dx by (intro exI [of _ h']) (simp del: fun_upd_apply)
  qed
qed

text \<open>What the second loop leaves behind: the connections \<open>xs\<close> closed, released, counted.\<close>

definition drop_conns :: "loc list \<Rightarrow> 'z conn_state_scheme \<Rightarrow> 'z conn_state_scheme" where
  "drop_conns xs s = s\<lparr>clinks := clinks s |` (- set xs), jconns := jconns s |` (- set xs),
     g_connect_pool := (g_connect_pool s)\<lparr>current_total := current_total (g_connect_pool s) - of_nat (length xs)\<rparr>,
     closed_fds := closed_fds s @ map (fd_of s) xs\<rparr>"

fun nexts :: "lheap \<Rightarrow> loc list \<Rightarrow> bool" where
  "nexts h (a # b # cs) = ((\<exists>n. rd_node h a = Inr n \<and> nxt n = b) \<and> nexts h (b # cs))"
| "nexts h cs = True"

lemma chain_nexts: "chain h cs \<Longrightarrow> Null \<notin> set cs \<Longrightarrow> nexts h cs"
  by (induction h cs rule: chain.induct) (auto simp: link_iff rd_node_iff)

lemma nexts_cong: "(\<And>p. p \<in> set (butlast cs) \<Longrightarrow> h' p = h p) \<Longrightarrow> nexts h' cs = nexts h cs"
  by (induction h cs rule: nexts.induct) (auto simp: rd_node_def)

lemma drop_conns_Cons:
  assumes "jconns s x = Some c" and "x \<notin> set xs"
  shows "drop_conns xs (add_total (- 1) (free_conn x (close_fd (jc_fd c) s))) = drop_conns (x # xs) s"
proof -
  have "map (fd_of (s\<lparr>jconns := (jconns s)(x := None)\<rparr>)) xs = map (fd_of s) xs"
    using assms(2) by (auto simp: fd_of_def)
  moreover have "(clinks s)(x := None) |` (- set xs) = clinks s |` (- set (x # xs))"
    "(jconns s)(x := None) |` (- set xs) = jconns s |` (- set (x # xs))"
    by (auto simp: restrict_map_def)
  ultimately show ?thesis using assms
    by (simp add: drop_conns_def add_total_def free_conn_def close_fd_def fd_of_def algebra_simps)
qed

lemma drop_conns_Nil: "drop_conns [] s = s"
  by (simp add: drop_conns_def restrict_map_def)

lemma free_loop_drops:
  assumes "nexts (clinks s) (xs @ [invaild_conn])" and "distinct (xs @ [invaild_conn])"
    and "\<forall>x \<in> set xs. jconns s x \<noteq> None"
  shows "free_loop (hd (xs @ [invaild_conn])) s = Some (Inr (drop_conns xs s))"
  using assms
proof (induction xs arbitrary: s)
  case Nil
  show ?case by (simp add: free_loop.simps drop_conns_Nil)
next
  case (Cons x xs)
  obtain c where c: "jconns s x = Some c" using Cons.prems(3) by auto
  obtain n where n: "rd_node (clinks s) x = Inr n" "nxt n = hd (xs @ [invaild_conn])"
    and tl: "nexts (clinks s) (xs @ [invaild_conn])"
    using Cons.prems(1) by (cases xs) auto
  let ?s = "add_total (- 1) (free_conn x (close_fd (jc_fd c) s))"
  have cl: "clinks ?s = (clinks s)(x := None)" by (simp add: add_total_def free_conn_def close_fd_def)
  have "nexts (clinks ?s) (xs @ [invaild_conn])"
    using tl Cons.prems(2) unfolding cl
    by (subst nexts_cong [of _ _ "clinks s"]) (auto dest: in_set_butlastD)
  moreover have "\<forall>y \<in> set xs. jconns ?s y \<noteq> None"
    using Cons.prems(2,3) by (auto simp: add_total_def free_conn_def close_fd_def)
  moreover have "distinct (xs @ [invaild_conn])" using Cons.prems(2) by simp
  ultimately have "free_loop (hd (xs @ [invaild_conn])) ?s = Some (Inr (drop_conns xs ?s))"
    using Cons.IH [of ?s] by blast
  moreover have "free_step x s = Inr (hd (xs @ [invaild_conn]), ?s)"
    using c n by (simp add: free_step_def get_conn_def)
  ultimately show ?case
    using Cons.prems(2) drop_conns_Cons [OF c, of xs] by (simp add: free_loop.simps [of x])
qed

section \<open>The pool\<close>

text \<open>
  \<open>conn_ok s xs\<close>: the pool holds the connections \<open>xs\<close>, in this order, and the stack
  node of \<open>get_connection\<close> is not mapped.
\<close>

definition conn_ok :: "'z conn_state_scheme \<Rightarrow> loc list \<Rightarrow> bool" where
  "conn_ok s xs \<longleftrightarrow> dlist (clinks s) g_jconnect xs \<and> clinks s invaild_conn = None \<and>
     (\<forall>x \<in> set xs. jconns s x \<noteq> None) \<and>
     (\<forall>p. jconns s p \<noteq> None \<longrightarrow> is_node (clinks s) p \<and> p \<noteq> g_jconnect)"

lemma drop_conns_sel [simp]:
  "clinks (drop_conns xs s) = clinks s |` (- set xs)" "jconns (drop_conns xs s) = jconns s |` (- set xs)"
  "closed_fds (drop_conns xs s) = closed_fds s @ map (fd_of s) xs"
  by (simp_all add: drop_conns_def)

lemma set_tl_dropWhile: "set (tl (dropWhile P xs)) \<subseteq> set xs"
  by (induction xs) auto

lemma rings_two:
  assumes "dlist h g_jconnect xs" and "dlist h invaild_conn ys" and "set xs \<inter> set ys = {}"
    and "invaild_conn \<notin> set xs" and "g_jconnect \<notin> set ys"
  shows "rings dlist h two_heads (\<lambda>l. if l = g_jconnect then xs else ys)"
  using assms by (auto simp: rings_def)

lemma get_connection_returns:
  assumes ok: "conn_ok s xs"
  defines "ds \<equiv> takeWhile (dead s) xs" and "rest \<equiv> dropWhile (dead s) xs"
  shows "\<exists>h. get_connection s = Some (Inr (hd (rest @ [Null]), drop_conns ds s\<lparr>clinks := h\<rparr>)) \<and>
    conn_ok (drop_conns ds s\<lparr>clinks := h\<rparr>) (tl rest)"
proof -
  let ?h0 = "(clinks s)(invaild_conn \<mapsto> \<lparr>nxt = Null, prev = Null\<rparr>)"
  have ring: "dlist (clinks s) g_jconnect xs" and none: "clinks s invaild_conn = None"
    and j: "\<forall>x \<in> set xs. jconns s x \<noteq> None"
    and nodes: "\<And>p. jconns s p \<noteq> None \<Longrightarrow> is_node (clinks s) p \<and> p \<noteq> g_jconnect"
    using ok by (auto simp: conn_ok_def)
  have inv: "invaild_conn \<notin> set xs" using dlist_mapped [OF ring] none by force
  obtain h1 where h1: "INIT_LIST_HEAD invaild_conn ?h0 = Inr h1" "dlist h1 invaild_conn []"
    "frame ?h0 h1 {invaild_conn}"
    using INIT_LIST_HEAD_ring [of ?h0 invaild_conn] by auto
  have keep: "h1 p = clinks s p" if "p \<noteq> invaild_conn" for p using h1(3) that by (simp add: frame_def)
  have "dlist h1 g_jconnect xs"
  proof (rule dlist_frame [OF ring])
    fix p assume "p \<in> set (g_jconnect # xs)"
    then have "p \<noteq> invaild_conn" using inv by auto
    then show "h1 p = clinks s p" by (rule keep)
  qed
  then have r1: "rings dlist h1 two_heads (\<lambda>l. if l = g_jconnect then xs else [])"
    using rings_two [of h1 xs "[]"] h1(2) inv by auto
  have node1: "is_node h1 p = (is_node (clinks s) p \<or> p = invaild_conn)" for p
    using h1(3) by (auto simp: frame_def is_node_def dom_def)
  let ?s1 = "s\<lparr>clinks := h1\<rparr>"
  obtain n where n: "rd_node h1 g_jconnect = Inr n" "nxt n = hd (xs @ [g_jconnect])"
    using dlist_first [OF \<open>dlist h1 g_jconnect xs\<close>] by blast
  have same: "dead ?s1 = dead s" by (simp add: dead_def fun_eq_iff)
  obtain h2 where h2: "pick_loop (hd (xs @ [g_jconnect])) ?s1 = Some (Inr (hd (rest @ [Null]), s\<lparr>clinks := h2\<rparr>))"
    "rings dlist h2 two_heads ((\<lambda>l. if l = g_jconnect then xs else [])(g_jconnect := tl rest, invaild_conn := ds))"
    "\<forall>p. is_node h2 p = is_node h1 p"
    using pick_loop_ring [of ?s1 "\<lambda>l. if l = g_jconnect then xs else []" xs] r1 j
    unfolding same by (auto simp: ds_def rest_def simp del: fun_upd_apply)
  have rg: "dlist h2 g_jconnect (tl rest)" and ri: "dlist h2 invaild_conn ds"
    using rings_at [OF h2(2), of g_jconnect] rings_at [OF h2(2), of invaild_conn] by auto
  obtain m where m: "rd_node h2 invaild_conn = Inr m" "nxt m = hd (ds @ [invaild_conn])"
    using dlist_first [OF ri] by blast
  have "nexts h2 (ds @ [invaild_conn])"
    using chain_nexts [of h2 "invaild_conn # ds @ [invaild_conn]"] ri by (cases ds) (auto simp: dlist_def)
  moreover have "distinct (ds @ [invaild_conn])" using ri by (auto simp: dlist_def)
  moreover have jds: "\<forall>x \<in> set ds. jconns s x \<noteq> None" using j by (auto simp: ds_def dest: set_takeWhileD)
  ultimately have free: "free_loop (hd (ds @ [invaild_conn])) (s\<lparr>clinks := h2\<rparr>) =
      Some (Inr (drop_conns ds (s\<lparr>clinks := h2\<rparr>)))"
    using free_loop_drops [of "s\<lparr>clinks := h2\<rparr>" ds] by simp
  let ?h3 = "(h2 |` (- set ds))(invaild_conn := None)"
  have fin: "drop_conns ds (s\<lparr>clinks := h2\<rparr>)\<lparr>clinks := ?h3\<rparr> = drop_conns ds s\<lparr>clinks := ?h3\<rparr>"
    by (simp add: drop_conns_def fd_of_def)
  have run: "get_connection s = Some (Inr (hd (rest @ [Null]), drop_conns ds s\<lparr>clinks := ?h3\<rparr>))"
    using h1(1) n h2(1) m free fin by (simp add: get_connection_def with_clinks_def)
  have apart: "set (tl rest) \<inter> set ds = {}" "invaild_conn \<notin> set (tl rest)" "g_jconnect \<notin> set ds"
    using rings_disjoint [OF h2(2), of g_jconnect invaild_conn]
      rings_not_head [OF h2(2), of g_jconnect invaild_conn invaild_conn]
      rings_not_head [OF h2(2), of invaild_conn g_jconnect g_jconnect] by auto
  have "dlist ?h3 g_jconnect (tl rest)" using apart
    by (intro dlist_frame [OF rg]) (auto simp: restrict_map_def)
  moreover have "set (tl rest) \<subseteq> set xs" unfolding rest_def by (rule set_tl_dropWhile)
  moreover have "is_node ?h3 p \<and> p \<noteq> g_jconnect" if "jconns s p \<noteq> None" "p \<notin> set ds" for p
  proof -
    have "p \<noteq> invaild_conn" using nodes [OF that(1)] none by (auto simp: is_node_def)
    moreover have "is_node h2 p" using nodes [OF that(1)] node1 h2(3) by simp
    ultimately show ?thesis using nodes [OF that(1)] that(2) by (simp add: is_node_def)
  qed
  ultimately have "conn_ok (drop_conns ds s\<lparr>clinks := ?h3\<rparr>) (tl rest)"
    using j apart(1) by (auto simp: conn_ok_def restrict_map_def split: if_splits)
  with run show ?thesis by blast
qed

lemma conn_ok_conn: "conn_ok s xs \<Longrightarrow> x \<in> set xs \<Longrightarrow> \<exists>c. jconns s x = Some c"
  by (auto simp: conn_ok_def)

lemma conn_ok_loc: "conn_ok s xs \<Longrightarrow> jconns s p = Some c \<Longrightarrow> p \<noteq> Null \<and> p \<noteq> g_jconnect \<and> p \<noteq> invaild_conn"
  by (auto simp: conn_ok_def is_node_def)

text \<open>Releasing a connection that is not in the pool.\<close>

lemma release_connection_dead:
  assumes ok: "conn_ok s xs" and p: "jconns s p = Some c" "p \<notin> set xs" and dead: "is_alive c = 0"
  shows "release_connection p s = Inr (drop_conns [p] s) \<and> conn_ok (drop_conns [p] s) xs"
proof
  have "free_conn p (close_fd (jc_fd c) (set_conn p (c\<lparr>requests := requests c + 1\<rparr>) s)) =
      free_conn p (close_fd (jc_fd c) s)"
    by (simp add: free_conn_def set_conn_def close_fd_def)
  then show "release_connection p s = Inr (drop_conns [p] s)"
    using p dead drop_conns_Cons [OF p(1), of "[]"]
    by (simp add: release_connection_def get_conn_def Let_def drop_conns_Nil)
  have ring: "dlist (clinks s) g_jconnect xs" using ok by (simp add: conn_ok_def)
  have "dlist (clinks s |` (- {p})) g_jconnect xs"
    using p conn_ok_loc [OF ok p(1)] by (intro dlist_frame [OF ring]) (auto simp: restrict_map_def)
  then show "conn_ok (drop_conns [p] s) xs"
    using ok p by (auto simp: conn_ok_def is_node_def restrict_map_def)
qed

lemma release_connection_alive:
  assumes ok: "conn_ok s xs" and p: "jconns s p = Some c" "p \<notin> set xs" and alive: "is_alive c \<noteq> 0"
  shows "\<exists>h. release_connection p s =
      Inr (add_total 1 (set_conn p (c\<lparr>requests := requests c + 1\<rparr>) s)\<lparr>clinks := h\<rparr>) \<and>
    conn_ok (add_total 1 (set_conn p (c\<lparr>requests := requests c + 1\<rparr>) s)\<lparr>clinks := h\<rparr>) (xs @ [p])"
proof -
  have ring: "dlist (clinks s) g_jconnect xs" and nodes: "is_node (clinks s) p"
    and none: "clinks s invaild_conn = None" using ok p by (auto simp: conn_ok_def)
  have "p \<notin> set (g_jconnect # xs)" using p(2) conn_ok_loc [OF ok p(1)] by auto
  moreover obtain nn where "clinks s p = Some nn" "p \<noteq> Null" using nodes by (auto simp: is_node_def)
  ultimately obtain h where h: "list_add_tail p g_jconnect (clinks s) = Inr h"
    "dlist h g_jconnect (xs @ [p])" "frame (clinks s) h (set (p # g_jconnect # xs))"
    using list_add_tail_ring [OF ring] by blast
  have dom: "h q = None \<longleftrightarrow> clinks s q = None" for q by (rule frame_dom [OF h(3)])
  let ?s = "add_total 1 (set_conn p (c\<lparr>requests := requests c + 1\<rparr>) s)"
  have "release_connection p s = Inr (?s\<lparr>clinks := h\<rparr>)"
    using p(1) alive h(1)
    by (simp add: release_connection_def get_conn_def Let_def with_clinks_def add_total_def set_conn_def)
  moreover have "conn_ok (?s\<lparr>clinks := h\<rparr>) (xs @ [p])"
    using ok h(2) none dom nodes conn_ok_loc [OF ok p(1)]
    by (auto simp: conn_ok_def is_node_def add_total_def set_conn_def)
  ultimately show ?thesis by blast
qed

lemma release_keepalive_ok:
  assumes ok: "conn_ok s xs" and p: "p \<in> set xs"
  shows "\<exists>h. release_keepalive_connection p s = Inr (drop_conns [p] s\<lparr>clinks := h\<rparr>) \<and>
    conn_ok (drop_conns [p] s\<lparr>clinks := h\<rparr>) (remove1 p xs)"
proof -
  have ring: "dlist (clinks s) g_jconnect xs" and none: "clinks s invaild_conn = None"
    using ok by (auto simp: conn_ok_def)
  obtain c where c: "jconns s p = Some c" using conn_ok_conn [OF ok p] by blast
  obtain h where h: "list_del p (clinks s) = Inr h" "dlist h g_jconnect (remove1 p xs)"
    "frame (clinks s) h (set (g_jconnect # xs))" using list_del_ring1 [OF ring p] by blast
  have dom: "h q = None \<longleftrightarrow> clinks s q = None" for q by (rule frame_dom [OF h(3)])
  have dist: "distinct xs" using ring by (simp add: dlist_def)
  let ?h = "h(p := None)"
  have "drop_conns [p] s\<lparr>clinks := ?h\<rparr> = add_total (- 1) (free_conn p (close_fd (jc_fd c) s\<lparr>clinks := h\<rparr>))"
    using c by (simp add: drop_conns_def add_total_def free_conn_def close_fd_def fd_of_def
        restrict_map_def fun_eq_iff)
  then have "release_keepalive_connection p s = Inr (drop_conns [p] s\<lparr>clinks := ?h\<rparr>)"
    using c h(1) by (simp add: release_keepalive_connection_def get_conn_def with_clinks_def close_fd_def)
  moreover have "dlist ?h g_jconnect (remove1 p xs)"
    using dist conn_ok_loc [OF ok c] by (intro dlist_frame [OF h(2)]) auto
  then have "conn_ok (drop_conns [p] s\<lparr>clinks := ?h\<rparr>) (remove1 p xs)"
    using ok dist none dom unfolding conn_ok_def is_node_def
    by (auto simp: restrict_map_def simp del: not_None_eq)
  ultimately show ?thesis by blast
qed

section \<open>The contract of the pool towards its clients\<close>

definition alive :: "'z conn_state_scheme \<Rightarrow> loc \<Rightarrow> bool" where
  "alive s x = (case jconns s x of None \<Rightarrow> False | Some c \<Rightarrow> is_alive c \<noteq> 0)"

text \<open>\<open>n\<close> calls of \<open>get\<close>, and what they return.\<close>

primrec gets :: "('s \<Rightarrow> ('e + ('p \<times> 's)) option) \<Rightarrow> nat \<Rightarrow> 's \<Rightarrow> ('e + ('p list \<times> 's)) option" where
  "gets g 0 s = Some (Inr ([], s))"
| "gets g (Suc n) s = bindT (g s) (\<lambda>(p, s). bindT (gets g n s) (\<lambda>(ps, s). Some (Inr (p # ps, s))))"

locale conn_pool =
  fixes pool :: "'s \<Rightarrow> 'p list \<Rightarrow> bool"
    and live_conn :: "'s \<Rightarrow> 'p \<Rightarrow> bool"
    and nil :: "'p"
    and get :: "'s \<Rightarrow> ('e + ('p \<times> 's)) option"
    and release :: "'p \<Rightarrow> 's \<Rightarrow> 'e + 's"
  assumes get_law: "pool s xs \<Longrightarrow>
      \<exists>s'. get s = Some (Inr (hd (dropWhile (\<lambda>x. \<not> live_conn s x) xs @ [nil]), s')) \<and>
        pool s' (tl (dropWhile (\<lambda>x. \<not> live_conn s x) xs)) \<and>
        (\<forall>p. p \<notin> set (takeWhile (\<lambda>x. \<not> live_conn s x) xs) \<longrightarrow> live_conn s' p = live_conn s p)"
    and release_law: "pool s xs \<Longrightarrow> live_conn s p \<Longrightarrow> p \<notin> set xs \<Longrightarrow>
      \<exists>s'. release p s = Inr s' \<and> pool s' (xs @ [p]) \<and> live_conn s' = live_conn s"
begin

lemma release_all:
  "pool s xs \<Longrightarrow> distinct (xs @ ps) \<Longrightarrow> \<forall>p \<in> set ps. live_conn s p \<Longrightarrow>
   \<exists>s'. each release ps s = Inr s' \<and> pool s' (xs @ ps) \<and> live_conn s' = live_conn s"
proof (induction ps arbitrary: s xs)
  case Nil
  then show ?case by simp
next
  case (Cons p ps)
  obtain s1 where s1: "release p s = Inr s1" "pool s1 (xs @ [p])" "live_conn s1 = live_conn s"
    using release_law [OF Cons.prems(1), of p] Cons.prems(2,3) by auto
  from Cons.IH [OF s1(2)] Cons.prems(2,3) s1 show ?case by auto
qed

lemma get_all:
  "pool s ps \<Longrightarrow> \<forall>p \<in> set ps. live_conn s p \<Longrightarrow>
   \<exists>s'. gets get (length ps) s = Some (Inr (ps, s')) \<and> pool s' []"
proof (induction ps arbitrary: s)
  case Nil
  then show ?case by simp
next
  case (Cons p ps)
  obtain s1 where s1: "get s = Some (Inr (p, s1))" "pool s1 ps" "\<forall>q. live_conn s1 q = live_conn s q"
    using get_law [OF Cons.prems(1)] Cons.prems(2) by auto
  from Cons.IH [OF s1(2)] Cons.prems(2) s1 show ?case by auto
qed

text \<open>Connections come out in the order in which they were released.\<close>

lemma fifo:
  assumes "pool s []" and "distinct ps" and "\<forall>p \<in> set ps. live_conn s p"
  shows "\<exists>s1 s2. each release ps s = Inr s1 \<and> gets get (length ps) s1 = Some (Inr (ps, s2)) \<and> pool s2 []"
proof -
  obtain s1 where s1: "each release ps s = Inr s1" "pool s1 ps" "live_conn s1 = live_conn s"
    using release_all [OF assms(1), of ps] assms(2,3) by auto
  from get_all [OF s1(2)] assms(3) s1 show ?thesis by auto
qed

text \<open>A connection that is released into an empty pool is the next one handed out.\<close>

lemma reuse:
  assumes "pool s []" and "live_conn s p"
  shows "\<exists>s1 s2. release p s = Inr s1 \<and> get s1 = Some (Inr (p, s2)) \<and> pool s2 [] \<and> live_conn s2 p"
proof -
  obtain s1 where s1: "release p s = Inr s1" "pool s1 [p]" "live_conn s1 = live_conn s"
    using release_law [OF assms] by auto
  from get_law [OF s1(2)] s1 assms(2) show ?thesis by auto
qed

end

lemma dead_not_alive:
  assumes "conn_ok s xs"
  shows "takeWhile (\<lambda>x. \<not> alive s x) xs = takeWhile (dead s) xs"
    and "dropWhile (\<lambda>x. \<not> alive s x) xs = dropWhile (dead s) xs"
proof -
  have "\<not> alive s x \<longleftrightarrow> dead s x" if "x \<in> set xs" for x
    using conn_ok_conn [OF assms that] by (auto simp: alive_def dead_def)
  then show "takeWhile (\<lambda>x. \<not> alive s x) xs = takeWhile (dead s) xs"
    "dropWhile (\<lambda>x. \<not> alive s x) xs = dropWhile (dead s) xs"
    by (auto cong: takeWhile_cong dropWhile_cong)
qed

lemma alive_step:
  "alive (drop_conns xs s\<lparr>clinks := h\<rparr>) p \<longleftrightarrow> alive s p \<and> p \<notin> set xs"
  by (auto simp: alive_def restrict_map_def)

interpretation cp: conn_pool conn_ok alive Null get_connection release_connection
proof
  fix s :: "'a conn_state_scheme" and xs
  assume ok: "conn_ok s xs"
  show "\<exists>s'. get_connection s = Some (Inr (hd (dropWhile (\<lambda>x. \<not> alive s x) xs @ [Null]), s')) \<and>
      conn_ok s' (tl (dropWhile (\<lambda>x. \<not> alive s x) xs)) \<and>
      (\<forall>p. p \<notin> set (takeWhile (\<lambda>x. \<not> alive s x) xs) \<longrightarrow> alive s' p = alive s p)"
    using get_connection_returns [OF ok] unfolding dead_not_alive [OF ok] by (metis alive_step)
next
  fix s :: "'a conn_state_scheme" and xs p
  assume ok: "conn_ok s xs" and p: "alive s p" "p \<notin> set xs"
  from p(1) obtain c where c: "jconns s p = Some c" "is_alive c \<noteq> 0"
    by (auto simp: alive_def split: option.splits)
  let ?s = "\<lambda>h. add_total 1 (set_conn p (c\<lparr>requests := requests c + 1\<rparr>) s)\<lparr>clinks := h\<rparr>"
  have "alive (?s h) = alive s" for h
    using c by (auto simp: alive_def add_total_def set_conn_def fun_eq_iff)
  then show "\<exists>s'. release_connection p s = Inr s' \<and> conn_ok s' (xs @ [p]) \<and> alive s' = alive s"
    using release_connection_alive [OF ok c(1) p(2) c(2)] by metis
qed

section \<open>Runs of the client\<close>

text \<open>
  \<open>pool_run s held opened\<close>: from an empty pool the client has reached \<open>s\<close>; it holds
  the connections \<open>held\<close>, and \<open>opened\<close> are the descriptors of all connections made.
  \<open>mark\<close> is any change of a connection that keeps its descriptor (the callbacks set
  \<open>is_alive\<close>, \<open>status\<close> and \<open>stream\<close>).
\<close>

inductive pool_run :: "'z conn_state_scheme \<Rightarrow> loc list \<Rightarrow> int list \<Rightarrow> bool" where
  start: "conn_ok s [] \<Longrightarrow> jconns s = (\<lambda>_. None) \<Longrightarrow> closed_fds s = [] \<Longrightarrow> pool_run s [] []"
| connect: "pool_run s held opened \<Longrightarrow> clinks s p = None \<Longrightarrow> p \<noteq> Null \<Longrightarrow> p \<noteq> invaild_conn \<Longrightarrow>
    pool_run (set_conn p c (s\<lparr>clinks := (clinks s)(p \<mapsto> n)\<rparr>)) (p # held) (jc_fd c # opened)"
| mark: "pool_run s held opened \<Longrightarrow> jconns s p = Some c \<Longrightarrow> jc_fd c' = jc_fd c \<Longrightarrow>
    pool_run (set_conn p c' s) held opened"
| get: "pool_run s held opened \<Longrightarrow> get_connection s = Some (Inr (p, s')) \<Longrightarrow>
    pool_run s' (if p = Null then held else p # held) opened"
| release: "pool_run s held opened \<Longrightarrow> p \<in> set held \<Longrightarrow> release_connection p s = Inr s' \<Longrightarrow>
    pool_run s' (remove1 p held) opened"
| keepalive: "pool_run s held opened \<Longrightarrow> p \<notin> set held \<Longrightarrow> jconns s p \<noteq> None \<Longrightarrow>
    release_keepalive_connection p s = Inr s' \<Longrightarrow> pool_run s' held opened"

definition accounted :: "'z conn_state_scheme \<Rightarrow> loc list \<Rightarrow> loc list \<Rightarrow> int list \<Rightarrow> bool" where
  "accounted s held xs opened \<longleftrightarrow> conn_ok s xs \<and> distinct (held @ xs) \<and>
     dom (jconns s) = set (held @ xs) \<and>
     mset (closed_fds s) + mset (map (fd_of s) (held @ xs)) = mset opened"

lemma accounted_drop:
  assumes acc: "accounted s held xs opened" and ds: "mset (held @ xs) = mset (ds @ held' @ xs')"
    and ok: "conn_ok (drop_conns ds s\<lparr>clinks := h\<rparr>) xs'"
  shows "accounted (drop_conns ds s\<lparr>clinks := h\<rparr>) held' xs' opened"
proof -
  have all: "distinct (ds @ held' @ xs')" "set (held @ xs) = set (ds @ held' @ xs')"
    using acc ds mset_eq_imp_distinct_iff [OF ds] mset_eq_setD [OF ds] by (auto simp: accounted_def)
  have "map (fd_of (drop_conns ds s\<lparr>clinks := h\<rparr>)) (held' @ xs') = map (fd_of s) (held' @ xs')"
    using all(1) by (auto simp: fd_of_def restrict_map_def)
  then have "mset (map (fd_of (drop_conns ds s\<lparr>clinks := h\<rparr>)) (held' @ xs')) = mset (map (fd_of s) (held' @ xs'))"
    by (rule arg_cong)
  moreover have "mset (map (fd_of s) (held @ xs)) = mset (map (fd_of s) (ds @ held' @ xs'))"
    using ds by (metis mset_map)
  moreover have "dom (jconns (drop_conns ds s\<lparr>clinks := h\<rparr>)) = set (held' @ xs')"
    using acc all by (auto simp: accounted_def)
  ultimately show ?thesis using acc ok all(1) by (simp add: accounted_def add.assoc)
qed

lemma conn_ok_new:
  assumes ok: "conn_ok s xs" and p: "clinks s p = None" "p \<noteq> Null" "p \<noteq> invaild_conn"
  shows "conn_ok (set_conn p c (s\<lparr>clinks := (clinks s)(p \<mapsto> n)\<rparr>)) xs"
proof -
  have ring: "dlist (clinks s) g_jconnect xs" using ok by (simp add: conn_ok_def)
  have "p \<notin> set (g_jconnect # xs)" using dlist_mapped [OF ring] p(1) by force
  then have "dlist ((clinks s)(p \<mapsto> n)) g_jconnect xs" by (intro dlist_frame [OF ring]) auto
  then show ?thesis using ok p dlist_mapped [OF ring, of g_jconnect]
    by (auto simp: conn_ok_def set_conn_def is_node_def)
qed

lemma conn_ok_set: "conn_ok s xs \<Longrightarrow> jconns s p = Some c \<Longrightarrow> conn_ok (set_conn p c' s) xs"
  by (auto simp: conn_ok_def set_conn_def)

lemma accounted_connect:
  assumes acc: "accounted s held xs opened" and p: "clinks s p = None" "p \<noteq> Null" "p \<noteq> invaild_conn"
  shows "accounted (set_conn p c (s\<lparr>clinks := (clinks s)(p \<mapsto> n)\<rparr>)) (p # held) xs (jc_fd c # opened)"
proof -
  have ok: "conn_ok s xs" using acc by (simp add: accounted_def)
  have "jconns s p = None" using ok p(1) by (auto simp: conn_ok_def is_node_def)
  then have new: "p \<notin> set (held @ xs)" using acc by (auto simp: accounted_def)
  define s1 where "s1 = set_conn p c (s\<lparr>clinks := (clinks s)(p \<mapsto> n)\<rparr>)"
  have "map (fd_of s1) (held @ xs) = map (fd_of s) (held @ xs)"
    using new by (auto simp: fd_of_def set_conn_def s1_def)
  then have "mset (map (fd_of s1) (held @ xs)) = mset (map (fd_of s) (held @ xs))" by (rule arg_cong)
  moreover have "fd_of s1 p = jc_fd c" "closed_fds s1 = closed_fds s" "dom (jconns s1) = insert p (dom (jconns s))"
    by (auto simp: fd_of_def set_conn_def s1_def)
  moreover have "conn_ok s1 xs" unfolding s1_def by (rule conn_ok_new [OF ok p])
  ultimately have "accounted s1 (p # held) xs (jc_fd c # opened)"
    using acc new unfolding accounted_def by (simp del: map_append mset_append mset_map)
  then show ?thesis by (simp add: s1_def)
qed

lemma accounted_set:
  assumes acc: "accounted s held xs opened" and c: "jconns s p = Some c" "jc_fd c' = jc_fd c"
  shows "accounted (set_conn p c' s) held xs opened"
proof -
  have "fd_of (set_conn p c' s) = fd_of s" using c by (auto simp: fd_of_def set_conn_def)
  moreover have "dom (jconns (set_conn p c' s)) = dom (jconns s)" using c by (auto simp: set_conn_def)
  moreover have "closed_fds (set_conn p c' s) = closed_fds s" by (simp add: set_conn_def)
  ultimately show ?thesis using acc conn_ok_set [of s xs p c c'] c by (simp add: accounted_def)
qed

lemma accounted_release_alive:
  assumes acc: "accounted s held xs opened" and p: "p \<in> set held" "jconns s p = Some c"
    and ok: "conn_ok (add_total 1 (set_conn p (c\<lparr>requests := requests c + 1\<rparr>) s)\<lparr>clinks := h\<rparr>) (xs @ [p])"
  shows "accounted (add_total 1 (set_conn p (c\<lparr>requests := requests c + 1\<rparr>) s)\<lparr>clinks := h\<rparr>)
    (remove1 p held) (xs @ [p]) opened"
proof -
  let ?s = "add_total 1 (set_conn p (c\<lparr>requests := requests c + 1\<rparr>) s)\<lparr>clinks := h\<rparr>"
  have perm: "mset (remove1 p held @ xs @ [p]) = mset (held @ xs)" using p(1) by simp
  have fd: "fd_of ?s = fd_of s" using p(2) by (auto simp: fd_of_def set_conn_def add_total_def)
  have "mset (map (fd_of s) (remove1 p held @ xs @ [p])) = mset (map (fd_of s) (held @ xs))"
    using perm by (metis mset_map)
  moreover have "dom (jconns ?s) = dom (jconns s)" "closed_fds ?s = closed_fds s"
    using p(2) by (auto simp: set_conn_def add_total_def)
  ultimately show ?thesis
    using acc ok mset_eq_setD [OF perm] mset_eq_imp_distinct_iff [OF perm] unfolding accounted_def fd by metis
qed

section \<open>Properties\<close>

text \<open>
  C31. \<open>get_connection\<close> returns, and hands out the first live connection of the pool, or
  NULL when there is none. It takes this connection and the dead ones before it out of the
  pool; the dead ones are closed, in order, released and counted, and the connections
  behind the one handed out are left in the pool as they are.
\<close>

theorem get_connection_first_alive:
  assumes "conn_ok s xs"
  shows "\<exists>s'. get_connection s = Some (Inr (hd (dropWhile (dead s) xs @ [Null]), s')) \<and>
    conn_ok s' (tl (dropWhile (dead s) xs)) \<and>
    closed_fds s' = closed_fds s @ map (fd_of s) (takeWhile (dead s) xs) \<and>
    jconns s' = jconns s |` (- set (takeWhile (dead s) xs)) \<and>
    current_total (g_connect_pool s') =
      current_total (g_connect_pool s) - of_nat (length (takeWhile (dead s) xs)) \<and>
    bufs s' = bufs s \<and> entries s' = entries s \<and> links s' = links s"
proof -
  obtain h where "get_connection s = Some (Inr (hd (dropWhile (dead s) xs @ [Null]),
      drop_conns (takeWhile (dead s) xs) s\<lparr>clinks := h\<rparr>))"
    "conn_ok (drop_conns (takeWhile (dead s) xs) s\<lparr>clinks := h\<rparr>) (tl (dropWhile (dead s) xs))"
    using get_connection_returns [OF assms] by blast
  then show ?thesis
    by (intro exI [of _ "drop_conns (takeWhile (dead s) xs) s\<lparr>clinks := h\<rparr>"])
      (simp add: drop_conns_def)
qed

text \<open>A state in which the client holds one connection.\<close>

definition one_conn :: "jconnect \<Rightarrow> conn_state" where
  "one_conn c = conn_state.make (\<lambda>_. None) (\<lambda>_. None) [] 0 0 (\<lambda>_. None)
     ((\<lambda>_. None)(g_jconnect \<mapsto> \<lparr>nxt = g_jconnect, prev = g_jconnect\<rparr>, Heap 0 \<mapsto> \<lparr>nxt = Null, prev = Null\<rparr>))
     ((\<lambda>_. None)(Heap 0 \<mapsto> c)) \<lparr>max_connects = 10, max_alive_times = 60, max_txn = 100, current_total = 0\<rparr> []"

definition sample_conn :: jconnect where
  "sample_conn = \<lparr>jaddr = jujube_in_addr_init, port = 80, jc_fd = 5, is_alive = 1, create_time = 0,
     requests = 0, jc_status = CONN_ESTAB, jc_stream = Null\<rparr>"

lemma one_conn_ok: "conn_ok (one_conn c) []" "jconns (one_conn c) (Heap 0) = Some c" "closed_fds (one_conn c) = []"
  "current_total (g_connect_pool (one_conn c)) = 0"
  by (auto simp: one_conn_def conn_state.defs conn_ok_def dlist_def link_def is_node_def)

lemma sample_conn_sel [simp]: "is_alive sample_conn = 1" "jc_fd sample_conn = 5"
  by (simp_all add: sample_conn_def)

text \<open>The same connection in the pool, where it has died.\<close>

lemma one_dead_pooled:
  "\<exists>s :: conn_state. conn_ok s [Heap 0] \<and> dead s (Heap 0) \<and> fd_of s (Heap 0) = 5 \<and> closed_fds s = []"
proof -
  obtain h where "conn_ok (add_total 1 (set_conn (Heap 0) (sample_conn\<lparr>requests := requests sample_conn + 1\<rparr>)
      (one_conn sample_conn))\<lparr>clinks := h\<rparr>) [Heap 0]" (is "conn_ok ?s _")
    using release_connection_alive [OF one_conn_ok(1) one_conn_ok(2) [of sample_conn]] by auto
  then have "conn_ok (set_conn (Heap 0) (sample_conn\<lparr>is_alive := 0\<rparr>) ?s) [Heap 0]"
    by (rule conn_ok_set) (simp add: add_total_def set_conn_def)
  then show ?thesis using one_conn_ok(3)
    by (intro exI [of _ "set_conn (Heap 0) (sample_conn\<lparr>is_alive := 0\<rparr>) ?s"])
      (simp add: dead_def fd_of_def set_conn_def add_total_def)
qed

theorem get_connection_first_alive_witness:
  "\<exists>(s :: conn_state) s'. conn_ok s [Heap 0] \<and> get_connection s = Some (Inr (Null, s')) \<and>
     conn_ok s' [] \<and> closed_fds s' = [5]"
proof -
  obtain s :: conn_state where s: "conn_ok s [Heap 0]" "dead s (Heap 0)" "fd_of s (Heap 0) = 5" "closed_fds s = []"
    using one_dead_pooled by blast
  from get_connection_first_alive [OF s(1)] s show ?thesis by auto
qed

text \<open>
  \<open>release_connection\<close> of a connection that is not in the pool: a live one goes to the
  end of the pool with one more request counted, and nothing is closed; a dead one is closed
  and released, and the pool stays as it is. In the second case one is taken from the
  counter, although the connection was never counted: a counter of 0 wraps around.
\<close>

lemma release_connection_outcome:
  assumes ok: "conn_ok s xs" and p: "jconns s p = Some c" "p \<notin> set xs"
  shows "\<exists>s'. release_connection p s = Inr s' \<and>
    (if is_alive c = 0
     then conn_ok s' xs \<and> jconns s' = (jconns s)(p := None) \<and> closed_fds s' = closed_fds s @ [jc_fd c]
     else conn_ok s' (xs @ [p]) \<and> closed_fds s' = closed_fds s \<and>
          jconns s' = (jconns s)(p \<mapsto> c\<lparr>requests := requests c + 1\<rparr>)) \<and>
    current_total (g_connect_pool s') =
      current_total (g_connect_pool s) + (if is_alive c = 0 then 0xFFFFFFFF else 1)"
proof (cases "is_alive c = 0")
  case True
  have "jconns s |` (- {p}) = (jconns s)(p := None)" by (auto simp: restrict_map_def)
  with release_connection_dead [OF ok p True] True p(1) show ?thesis
    by (intro exI [of _ "drop_conns [p] s"]) (simp add: fd_of_def drop_conns_def)
next
  case False
  from release_connection_alive [OF ok p False] obtain h where
    "release_connection p s = Inr (add_total 1 (set_conn p (c\<lparr>requests := requests c + 1\<rparr>) s)\<lparr>clinks := h\<rparr>)"
    "conn_ok (add_total 1 (set_conn p (c\<lparr>requests := requests c + 1\<rparr>) s)\<lparr>clinks := h\<rparr>) (xs @ [p])" (is "conn_ok ?s _")
    by blast
  then show ?thesis using False
    by (intro exI [of _ ?s]) (simp add: add_total_def set_conn_def)
qed

text \<open>
  C33. Live connections that are released one after the other are handed out again by
  \<open>get_connection\<close> in the same order, and then the pool is empty.
\<close>

theorem pool_fifo:
  assumes "conn_ok s []" and "distinct ps" and "\<forall>p \<in> set ps. alive s p"
  shows "\<exists>s1 s2. each release_connection ps s = Inr s1 \<and>
    gets get_connection (length ps) s1 = Some (Inr (ps, s2)) \<and> conn_ok s2 []"
  using cp.fifo [OF assms] .

theorem pool_fifo_witness:
  "\<exists>s1 s2. each release_connection [Heap 0] (one_conn sample_conn) = Inr s1 \<and>
     gets get_connection 1 s1 = Some (Inr ([Heap 0], s2))"
proof -
  have "alive (one_conn sample_conn) (Heap 0)" using one_conn_ok(2) [of sample_conn] by (simp add: alive_def)
  then show ?thesis using pool_fifo [OF one_conn_ok(1), of "[Heap 0]" sample_conn] by auto
qed


definition no_conns :: conn_state where
  "no_conns = conn_state.make (\<lambda>_. None) (\<lambda>_. None) [] 0 0 (\<lambda>_. None)
     ((\<lambda>_. None)(g_jconnect \<mapsto> \<lparr>nxt = g_jconnect, prev = g_jconnect\<rparr>)) (\<lambda>_. None)
     \<lparr>max_connects = 10, max_alive_times = 60, max_txn = 100, current_total = 0\<rparr> []"


text \<open>
  \<open>release_keepalive_connection\<close> of a pooled connection, wherever it stands: it is
  closed and released, and the others stay in the pool in their order.
\<close>

lemma release_keepalive_outcome:
  assumes ok: "conn_ok s xs" and p: "p \<in> set xs"
  shows "\<exists>s'. release_keepalive_connection p s = Inr s' \<and> conn_ok s' (remove1 p xs) \<and>
    jconns s' = (jconns s)(p := None) \<and> closed_fds s' = closed_fds s @ [fd_of s p] \<and>
    current_total (g_connect_pool s') = current_total (g_connect_pool s) - 1"
proof -
  obtain h where h: "release_keepalive_connection p s = Inr (drop_conns [p] s\<lparr>clinks := h\<rparr>)"
    "conn_ok (drop_conns [p] s\<lparr>clinks := h\<rparr>) (remove1 p xs)" (is "conn_ok ?s _")
    using release_keepalive_ok [OF ok p] by blast
  have "jconns ?s = (jconns s)(p := None)" by (auto simp: restrict_map_def)
  moreover have "closed_fds ?s = closed_fds s @ [fd_of s p]" by simp
  moreover have "current_total (g_connect_pool ?s) = current_total (g_connect_pool s) - 1"
    by (simp add: drop_conns_def)
  ultimately show ?thesis using h by blast
qed

primrec rounds :: "nat \<Rightarrow> loc \<Rightarrow> 'z conn_state_scheme \<Rightarrow> 'z conn_state_scheme res option" where
  "rounds 0 p s = Some (Inr s)"
| "rounds (Suc n) p s =
     bindT (Some (release_connection p s)) (\<lambda>s. bindT (get_connection s) (\<lambda>(q, s). rounds n q s))"

lemma round_once:
  assumes ok: "conn_ok s []" and p: "alive s p"
  shows "\<exists>s1 s2. release_connection p s = Inr s1 \<and> get_connection s1 = Some (Inr (p, s2)) \<and> conn_ok s2 [] \<and>
    alive s2 p \<and> current_total (g_connect_pool s2) = current_total (g_connect_pool s) + 1"
proof -
  obtain c where c: "jconns s p = Some c" "is_alive c \<noteq> 0"
    using p by (auto simp: alive_def split: option.splits)
  obtain h where h: "release_connection p s =
      Inr (add_total 1 (set_conn p (c\<lparr>requests := requests c + 1\<rparr>) s)\<lparr>clinks := h\<rparr>)" (is "_ = Inr ?s1")
    "conn_ok (add_total 1 (set_conn p (c\<lparr>requests := requests c + 1\<rparr>) s)\<lparr>clinks := h\<rparr>) [p]"
    using release_connection_alive [OF ok c(1) _ c(2)] by auto
  have tot: "current_total (g_connect_pool ?s1) = current_total (g_connect_pool s) + 1"
    by (simp add: add_total_def set_conn_def)
  have a1: "alive ?s1 p" "\<not> dead ?s1 p" using c by (simp_all add: alive_def dead_def add_total_def set_conn_def)
  obtain s2 where s2: "get_connection ?s1 = Some (Inr (p, s2))" "conn_ok s2 []" "jconns s2 = jconns ?s1 |` UNIV"
    "current_total (g_connect_pool s2) = current_total (g_connect_pool ?s1)"
    using get_connection_returns [OF h(2)] a1(2) by (auto simp: drop_conns_def restrict_map_def)
  have "alive s2 p" using a1(1) s2(3) by (simp add: alive_def restrict_map_def)
  then show ?thesis using h(1) s2 tot by auto
qed

text \<open>
  \<open>current_total\<close> does not count the pool. Releasing a live connection adds one, but
  handing it out again does not take it back: after \<open>n\<close> rounds of both the counter has grown
  by \<open>n\<close> while the pool is as empty as before.
\<close>

lemma current_total_drifts:
  assumes "conn_ok s []" and "alive s p"
  shows "\<exists>s'. rounds n p s = Some (Inr s') \<and> conn_ok s' [] \<and>
    current_total (g_connect_pool s') = current_total (g_connect_pool s) + of_nat n"
  using assms
proof (induction n arbitrary: s)
  case 0
  then show ?case by simp
next
  case (Suc n)
  obtain s1 s2 where s2: "release_connection p s = Inr s1" "get_connection s1 = Some (Inr (p, s2))"
    "conn_ok s2 []" "alive s2 p" "current_total (g_connect_pool s2) = current_total (g_connect_pool s) + 1"
    using round_once [OF Suc.prems] by blast
  from Suc.IH [OF s2(3,4)] s2 show ?case by (auto simp: algebra_simps)
qed

end
