(* ===== verification/Stream.thy ===== *)
theory Stream
  imports Connection
begin

text \<open>
  The streams of \<open>stream.c\<close> and \<open>stream.h\<close>: a transaction on a connection, with the
  buffer of what is to be sent (\<open>in_buf\<close>) and of what has been received (\<open>out_buf\<close>).

  A \<open>tcp_stream\<close> lives in a block of the allocator; \<open>streams\<close> is the typed view of these
  blocks. The outcomes of the system calls are scripts in the state: \<open>write_env\<close> says how many
  bytes each \<open>write\<close> accepts at most, or its error, \<open>read_env\<close> what each \<open>read\<close> finds.
  \<open>sent\<close> is the trace of the bytes accepted. A loop that asks for more outcomes than
  the script holds ends with the fault \<open>Stuck\<close>; every round consumes one outcome, so the loops
  are total functions. The clock is a field, in milliseconds.
  The fields \<open>client_addr\<close>, \<open>client_addr6\<close>, \<open>jc\<close> and the flags \<open>eof\<close> and
  \<open>need_close_connect\<close> are declared but never used, and left out.
\<close>

section \<open>State\<close>

record tcp_stream =
  data_start :: int
  data_in :: int
  data_out :: int
  data_begin :: int
  client_sock :: int
  server_sock :: int
  in_buf :: loc
  out_buf :: loc
  reply_body_size_left :: int
  work_buf :: loc
  data_recved :: int
  content_len :: int
  server_closed :: bool

datatype errno = EINTR | EAGAIN | Other_error

datatype 'a outcome = Error errno | Done 'a

record stream_state = conn_state +
  streams :: "loc \<Rightarrow> tcp_stream option"
  write_env :: "nat outcome list"
  read_env :: "byte list outcome list"
  sent :: "(int \<times> byte list) list"
  clock :: int

abbreviation sizeof_tcp_stream :: size_t where "sizeof_tcp_stream \<equiv> 152"
abbreviation cfg_http_buf_size :: size_t where "cfg_http_buf_size \<equiv> 8 * 1024"
abbreviation mid_http_buf_size :: size_t where "mid_http_buf_size \<equiv> 64 * 1024"

definition get_stream :: "loc \<Rightarrow> 'z stream_state_scheme \<Rightarrow> tcp_stream res" where
  "get_stream p s = (case streams s p of
      None \<Rightarrow> Inl Invalid_access
    | Some x \<Rightarrow> if is_live s p then Inr x else Inl Invalid_access)"

definition set_stream :: "loc \<Rightarrow> tcp_stream \<Rightarrow> 'z stream_state_scheme \<Rightarrow> 'z stream_state_scheme" where
  "set_stream p x s = s\<lparr>streams := (streams s)(p \<mapsto> x)\<rparr>"

section \<open>Operations\<close>

text \<open>\<open>mem_alloc\<close> has cleared the block already, so \<open>memset\<close> adds nothing.\<close>

definition stream_create :: "int \<Rightarrow> 'z stream_state_scheme \<Rightarrow> (loc \<times> 'z stream_state_scheme) res" where
  "stream_create sock s =
     bindE (mem_alloc (Some ''stream'') sizeof_tcp_stream s) (\<lambda>(p, s).
     bindE (buf_new ''http_stream_in_buf'' ''http_stream_in_buf_data'' cfg_http_buf_size s) (\<lambda>(b, s).
     bindE (get_buf b s) (\<lambda>B.
     bindE (mem_store (buffer B) 0 [0] s) (\<lambda>s.
     bindE (buf_new ''http_stream_out_buf'' ''http_stream_out_buf_data_4'' mid_http_buf_size s) (\<lambda>(c, s).
     Inr (p, set_stream p
       \<lparr>data_start = clock s div 1000, data_in = 0, data_out = 0, data_begin = clock s, client_sock = 0,
        server_sock = sock, in_buf = b, out_buf = c, reply_body_size_left = 0, work_buf = Null,
        data_recved = 0, content_len = 0, server_closed = False\<rparr> s))))))"

text \<open>The two system calls. The caller has checked that the buffer can be read or written.\<close>

definition sys_write :: "int \<Rightarrow> byte list \<Rightarrow> 'z stream_state_scheme \<Rightarrow> (nat outcome \<times> 'z stream_state_scheme) res" where
  "sys_write fd bs s = (case write_env s of
      [] \<Rightarrow> Inl Stuck
    | Error e # es \<Rightarrow> Inr (Error e, s\<lparr>write_env := es\<rparr>)
    | Done n # es \<Rightarrow> let r = min n (length bs) in
        Inr (Done r, s\<lparr>write_env := es, sent := sent s @ [(fd, take r bs)]\<rparr>))"

definition sys_read :: "nat \<Rightarrow> 'z stream_state_scheme \<Rightarrow> (byte list outcome \<times> 'z stream_state_scheme) res" where
  "sys_read limit s = (case read_env s of
      [] \<Rightarrow> Inl Stuck
    | Error e # es \<Rightarrow> Inr (Error e, s\<lparr>read_env := es\<rparr>)
    | Done bs # es \<Rightarrow> Inr (Done (take limit bs), s\<lparr>read_env := es\<rparr>))"

lemma mem_store_more: "mem_store p off bs s = Inr s' \<Longrightarrow> mem_state.more s' = mem_state.more s"
  by (auto simp: mem_store_def set_entry_def res_simps)

lemma buf_pick_more: "buf_pick b len s = Inr s' \<Longrightarrow> buf_state.more s' = buf_state.more s"
  by (auto simp: buf_pick_def Let_def res_simps set_buf_def dest!: mem_store_more mem_more_buf
      split: if_splits)

lemma more_stream:
  fixes s s' :: "'z stream_state_scheme"
  assumes "buf_state.more s' = buf_state.more s"
  shows "streams s' = streams s" "write_env s' = write_env s" "read_env s' = read_env s"
    "sent s' = sent s" "clock s' = clock s" "jconns s' = jconns s" "clinks s' = clinks s"
    "closed_fds s' = closed_fds s" "stream_state.more s' = stream_state.more s"
    "g_connect_pool s' = g_connect_pool s"
  using assms by (cases s; cases s'; simp)+

function flush_loop ::
  "loc \<Rightarrow> int \<Rightarrow> int \<Rightarrow> 'z stream_state_scheme \<Rightarrow> (int \<times> 'z stream_state_scheme) res" where
  "flush_loop p cur_size t s =
     (if cur_size > 0 then
        bindE (get_stream p s) (\<lambda>x.
        bindE (get_buf (in_buf x) s) (\<lambda>B.
        bindE (mem_load (buffer B) 0 (nat cur_size) s) (\<lambda>bs.
        bindE (sys_write (server_sock x) bs s) (\<lambda>(r, s).
        case r of
          Error e \<Rightarrow>
            (case e of EINTR \<Rightarrow> flush_loop p cur_size t s
             | EAGAIN \<Rightarrow> Inr (t, s)
             | Other_error \<Rightarrow> Inr (- 1, s))
        | Done n \<Rightarrow>
            if n = 0 then Inr (t, s)
            else bindE (buf_pick (in_buf x) (of_nat n) s) (\<lambda>s.
                 flush_loop p (cur_size - int n) (t + int n) s)))))
      else Inr (t, s))"
  by pat_completeness auto
termination
  by (relation "measure (\<lambda>(p, cur_size, t, s). length (write_env s))")
    (auto simp: sys_write_def Let_def dest!: buf_pick_more more_stream(2)
       split: list.splits outcome.splits)

declare flush_loop.simps [simp del]

text \<open>The parameter \<open>size\<close> (\<open>sz\<close>) is compared with a \<open>size_t\<close>, so a negative one counts as very large.\<close>

definition stream_flush_out ::
  "loc \<Rightarrow> 32 word \<Rightarrow> 'z stream_state_scheme \<Rightarrow> (int \<times> 'z stream_state_scheme) res" where
  "stream_flush_out p sz s =
     bindE (get_stream p s) (\<lambda>x.
     if server_sock x < 0 then Inr (- 1, s)
     else
       bindE (buf_data_size (in_buf x) s) (\<lambda>n.
       let cur_size = (if n < scast sz \<or> sint sz \<le> 0 then sint (ucast n :: 32 word) else sint sz) in
       flush_loop p cur_size 0 s))"

function feed_loop :: "loc \<Rightarrow> int \<Rightarrow> 'z stream_state_scheme \<Rightarrow> (int \<times> 'z stream_state_scheme) res" where
  "feed_loop p t s =
     bindE (get_stream p s) (\<lambda>x.
     bindE (buf_free_space (out_buf x) s) (\<lambda>space.
     if space > 0 then
       bindE (buf_end_position (out_buf x) s) (\<lambda>(d, off).
       bindE (sys_read (unat space) s) (\<lambda>(r, s).
       case r of
         Error e \<Rightarrow>
           (case e of EINTR \<Rightarrow> feed_loop p t s
            | EAGAIN \<Rightarrow> Inr (t, s)
            | Other_error \<Rightarrow> Inr (- 1, s))
       | Done bs \<Rightarrow>
           if bs = [] then Inr (- 1, set_stream p (x\<lparr>server_closed := True\<rparr>) s)
           else
             bindE (mem_store d off bs s) (\<lambda>s.
             bindE (get_buf (out_buf x) s) (\<lambda>B.
             Inr (t + int (length bs), set_buf (out_buf x) (B\<lparr>data_len := data_len B + of_nat (length bs)\<rparr>) s)))))
     else Inr (t, set_stream p (x\<lparr>data_in := data_in x + t\<rparr>) s)))"
  by pat_completeness auto
termination
  by (relation "measure (\<lambda>(p, t, s). length (read_env s))")
    (auto simp: sys_read_def split: list.splits outcome.splits)

declare feed_loop.simps [simp del]

definition stream_feed_out :: "loc \<Rightarrow> 'z stream_state_scheme \<Rightarrow> (int \<times> 'z stream_state_scheme) res" where
  "stream_feed_out p s =
     bindE (get_stream p s) (\<lambda>x. if server_sock x < 0 then Inr (- 1, s) else feed_loop p 0 s)"

text \<open>
  \<open>prefix_len\<close> and \<open>buff\<close> are what can be read from the two pointers; \<open>compress_ret\<close>
  is the \<open>int\<close> parameter, converted to \<open>size_t\<close> by the call of \<open>buf_put\<close>.
\<close>

definition new_transaction_stream ::
  "int \<Rightarrow> byte list \<Rightarrow> byte list \<Rightarrow> 32 word \<Rightarrow> 'z stream_state_scheme \<Rightarrow> (loc \<times> 'z stream_state_scheme) res" where
  "new_transaction_stream sock prefix_len buff compress_ret s =
     bindE (stream_create sock s) (\<lambda>(p, s).
     bindE (get_stream p s) (\<lambda>x.
     let s = set_stream p (x\<lparr>server_closed := False\<rparr>) s in
     bindE (buf_put (in_buf x) prefix_len 8 s) (\<lambda>(_, s).
     bindE (buf_put (in_buf x) buff (scast compress_ret) s) (\<lambda>(_, s).
     Inr (p, s)))))"

text \<open>The releases that \<open>free_transaction_stream\<close> and \<open>close_stream\<close> share.\<close>

definition release_stream :: "loc \<Rightarrow> 'z stream_state_scheme \<Rightarrow> 'z stream_state_scheme res" where
  "release_stream p s =
     bindE (get_stream p s) (\<lambda>x.
     bindE (buf_delete (in_buf x) s) (\<lambda>s.
     bindE (buf_delete (out_buf x) s) (\<lambda>s.
     bindE (if work_buf x \<noteq> Null then buf_delete (work_buf x) s else Inr s) (\<lambda>s.
     bindE (mem_free p s) (\<lambda>s.
     Inr (s\<lparr>streams := (streams s)(p := None)\<rparr>))))))"

definition free_transaction_stream :: "loc \<Rightarrow> 'z stream_state_scheme \<Rightarrow> 'z stream_state_scheme res" where
  "free_transaction_stream p s =
     (if p \<noteq> Null then
        bindE (get_stream p s) (\<lambda>x. release_stream p (set_stream p (x\<lparr>server_sock := - 1\<rparr>) s))
      else Inr s)"

section \<open>Well-formed streams\<close>

definition stream_bufs :: "tcp_stream \<Rightarrow> loc list" where
  "stream_bufs x = [in_buf x, out_buf x] @ (if work_buf x \<noteq> Null then [work_buf x] else [])"

definition stream_ok :: "'z stream_state_scheme \<Rightarrow> loc \<Rightarrow> tcp_stream \<Rightarrow> bool" where
  "stream_ok s p x \<longleftrightarrow> streams s p = Some x \<and> p \<in> live s \<and> distinct (stream_bufs x) \<and>
     (\<forall>b \<in> set (stream_bufs x). buf_ok s b \<and> p \<notin> buf_blocks s b) \<and>
     (\<forall>b \<in> set (stream_bufs x). \<forall>c \<in> set (stream_bufs x). b \<noteq> c \<longrightarrow> buf_apart s b c)"

text \<open>The blocks a stream owns, and what an operation on it leaves alone.\<close>

definition stream_blocks :: "'z stream_state_scheme \<Rightarrow> loc \<Rightarrow> tcp_stream \<Rightarrow> loc set" where
  "stream_blocks s p x = insert p (\<Union>b \<in> set (stream_bufs x). buf_blocks s b)"

definition stream_frame :: "'z stream_state_scheme \<Rightarrow> 'z stream_state_scheme \<Rightarrow> loc \<Rightarrow> tcp_stream \<Rightarrow> bool" where
  "stream_frame s s' p x \<longleftrightarrow>
     live s' - stream_blocks s' p x = live s - stream_blocks s p x \<and>
     (\<forall>q \<in> live s - stream_blocks s p x. block_bytes s' q = block_bytes s q) \<and>
     (\<forall>c. c \<notin> set (stream_bufs x) \<longrightarrow> bufs s' c = bufs s c) \<and>
     (\<forall>q. q \<noteq> p \<longrightarrow> streams s' q = streams s q) \<and>
     jconns s' = jconns s \<and> clinks s' = clinks s \<and> g_connect_pool s' = g_connect_pool s \<and>
     closed_fds s' = closed_fds s \<and> clock s' = clock s \<and> stream_state.more s' = stream_state.more s"

lemma stream_frame_refl: "stream_frame s s p x"
  by (simp add: stream_frame_def)

lemma stream_frame_trans:
  assumes "stream_frame s s1 p x" and "stream_frame s1 s2 p x"
  shows "stream_frame s s2 p x"
  using assms unfolding stream_frame_def by auto

lemma bufs_cong:
  assumes "bufs s' = bufs s" and "live s' = live s" and "block_bytes s' = block_bytes s"
  shows "buf_ok s' = buf_ok s" "buf_bytes s' = buf_bytes s" "buf_room s' = buf_room s"
    "buf_blocks s' = buf_blocks s" "buf_apart s' = buf_apart s"
proof -
  show blocks: "buf_blocks s' = buf_blocks s" using assms by (simp add: fun_eq_iff buf_blocks_def)
  show "buf_apart s' = buf_apart s" using blocks by (simp add: fun_eq_iff buf_apart_def)
  show "buf_ok s' = buf_ok s" "buf_bytes s' = buf_bytes s" "buf_room s' = buf_room s" using assms
    by (auto simp: fun_eq_iff buf_ok_def buf_bytes_def buf_room_def split: option.splits)
qed

lemma stream_cong:
  assumes "bufs s' = bufs s" and "live s' = live s" and "block_bytes s' = block_bytes s"
    and "streams s' = streams s"
  shows "stream_ok s' = stream_ok s" "stream_blocks s' = stream_blocks s"
  using bufs_cong [OF assms(1-3)] assms by (simp_all add: fun_eq_iff stream_ok_def stream_blocks_def)

lemma env_upd_mem [simp]:
  "mem_ok (s\<lparr>write_env := e\<rparr>) = mem_ok s" "live (s\<lparr>write_env := e\<rparr>) = live s"
  "block_bytes (s\<lparr>write_env := e\<rparr>) = block_bytes s"
  "mem_ok (s\<lparr>sent := w\<rparr>) = mem_ok s" "live (s\<lparr>sent := w\<rparr>) = live s"
  "block_bytes (s\<lparr>sent := w\<rparr>) = block_bytes s"
  "mem_ok (s\<lparr>read_env := f\<rparr>) = mem_ok s" "live (s\<lparr>read_env := f\<rparr>) = live s"
  "block_bytes (s\<lparr>read_env := f\<rparr>) = block_bytes s"
  "mem_ok (s\<lparr>streams := g\<rparr>) = mem_ok s" "live (s\<lparr>streams := g\<rparr>) = live s"
  "block_bytes (s\<lparr>streams := g\<rparr>) = block_bytes s"
  by (rule mem_fields_cong; simp)+

lemma env_upd_buf [simp]:
  "buf_ok (s\<lparr>write_env := e\<rparr>) = buf_ok s" "buf_bytes (s\<lparr>write_env := e\<rparr>) = buf_bytes s"
  "buf_room (s\<lparr>write_env := e\<rparr>) = buf_room s" "buf_blocks (s\<lparr>write_env := e\<rparr>) = buf_blocks s"
  "buf_apart (s\<lparr>write_env := e\<rparr>) = buf_apart s"
  "buf_ok (s\<lparr>sent := w\<rparr>) = buf_ok s" "buf_bytes (s\<lparr>sent := w\<rparr>) = buf_bytes s"
  "buf_room (s\<lparr>sent := w\<rparr>) = buf_room s" "buf_blocks (s\<lparr>sent := w\<rparr>) = buf_blocks s"
  "buf_apart (s\<lparr>sent := w\<rparr>) = buf_apart s"
  "buf_ok (s\<lparr>read_env := f\<rparr>) = buf_ok s" "buf_bytes (s\<lparr>read_env := f\<rparr>) = buf_bytes s"
  "buf_room (s\<lparr>read_env := f\<rparr>) = buf_room s" "buf_blocks (s\<lparr>read_env := f\<rparr>) = buf_blocks s"
  "buf_apart (s\<lparr>read_env := f\<rparr>) = buf_apart s"
  "buf_ok (s\<lparr>streams := g\<rparr>) = buf_ok s" "buf_bytes (s\<lparr>streams := g\<rparr>) = buf_bytes s"
  "buf_room (s\<lparr>streams := g\<rparr>) = buf_room s" "buf_blocks (s\<lparr>streams := g\<rparr>) = buf_blocks s"
  "buf_apart (s\<lparr>streams := g\<rparr>) = buf_apart s"
  by (rule bufs_cong; simp)+

lemma env_upd_stream [simp]:
  "stream_ok (s\<lparr>write_env := e\<rparr>) = stream_ok s" "stream_blocks (s\<lparr>write_env := e\<rparr>) = stream_blocks s"
  "stream_ok (s\<lparr>sent := w\<rparr>) = stream_ok s" "stream_blocks (s\<lparr>sent := w\<rparr>) = stream_blocks s"
  "stream_ok (s\<lparr>read_env := f\<rparr>) = stream_ok s" "stream_blocks (s\<lparr>read_env := f\<rparr>) = stream_blocks s"
  by (rule stream_cong; simp)+

lemma get_stream_ok: "stream_ok s p x \<Longrightarrow> get_stream p s = Inr x"
  by (simp add: stream_ok_def get_stream_def is_live_iff)

lemma stream_ok_bufs:
  assumes "stream_ok s p x"
  shows "buf_ok s (in_buf x)" "buf_ok s (out_buf x)" "buf_apart s (in_buf x) (out_buf x)"
  using assms by (auto simp: stream_ok_def stream_bufs_def)

text \<open>A step of one of its buffers is a step of the stream, and the other buffers keep their bytes.\<close>

lemma stream_buf_step:
  assumes ok: "mem_ok s" "stream_ok s p x" and b: "b \<in> set (stream_bufs x)" and st: "buf_step s s' b"
  shows "mem_ok s' \<and> stream_ok s' p x \<and> stream_frame s s' p x \<and> streams s' = streams s \<and>
    (\<forall>c \<in> set (stream_bufs x). c \<noteq> b \<longrightarrow> buf_bytes s' c = buf_bytes s c \<and> buf_room s' c = buf_room s c)"
proof -
  have more: "buf_state.more s' = buf_state.more s" using st by (simp add: buf_step_def)
  note st' = st [unfolded buf_step_def]
  have other: "buf_ok s' c \<and> buf_bytes s' c = buf_bytes s c \<and> buf_room s' c = buf_room s c \<and>
      buf_apart s' b c \<and> buf_apart s' c b \<and> buf_blocks s' c = buf_blocks s c"
    if "c \<in> set (stream_bufs x)" "c \<noteq> b" for c
  proof -
    have "buf_ok s c" "buf_apart s b c" using ok(2) b that by (auto simp: stream_ok_def)
    from buf_step_other [OF conjI [OF ok(1) this(1)] this(2) st] st' that(2) show ?thesis
      by (auto simp: buf_blocks_def buf_apart_def)
  qed
  have p: "p \<in> live s" "\<forall>c \<in> set (stream_bufs x). p \<notin> buf_blocks s c" using ok(2) by (auto simp: stream_ok_def)
  have pb: "p \<notin> buf_blocks s' b" using st' p b by blast
  have "p \<in> live s'" using st' p b by blast
  moreover have "buf_apart s' c d" if "c \<in> set (stream_bufs x)" "d \<in> set (stream_bufs x)" "c \<noteq> d" for c d
    using that ok(2) other by (cases "c = b"; cases "d = b") (auto simp: stream_ok_def buf_apart_def)
  ultimately have sok: "stream_ok s' p x"
    using ok(2) other pb p(2) st' more_stream(1) [OF more] unfolding stream_ok_def by metis
  let ?O = "insert p (\<Union>c \<in> set (stream_bufs x) - {b}. buf_blocks s c)"
  have split: "stream_blocks s p x = ?O \<union> buf_blocks s b" "stream_blocks s' p x = ?O \<union> buf_blocks s' b"
    using b other by (auto simp: stream_blocks_def)
  have "live s' - stream_blocks s' p x = live s - stream_blocks s p x"
    using st' unfolding split by blast
  moreover have "\<forall>q \<in> live s - stream_blocks s p x. block_bytes s' q = block_bytes s q"
    using st' unfolding split by blast
  moreover have "\<forall>c. c \<notin> set (stream_bufs x) \<longrightarrow> bufs s' c = bufs s c" using st' b by auto
  ultimately have "stream_frame s s' p x"
    using more_stream [OF more] by (simp add: stream_frame_def)
  then show ?thesis using sok other st' more_stream(1) [OF more] by blast
qed

section \<open>Sending\<close>

text \<open>
  \<open>flushed s s' p x k\<close>: the first \<open>k\<close> bytes of \<open>in_buf\<close> have gone out on the
  socket of the stream, in order, and nothing else has changed.
\<close>

definition flushed :: "'z stream_state_scheme \<Rightarrow> 'z stream_state_scheme \<Rightarrow> loc \<Rightarrow> tcp_stream \<Rightarrow> nat \<Rightarrow> bool" where
  "flushed s s' p x k \<longleftrightarrow> mem_ok s' \<and> stream_ok s' p x \<and> stream_frame s s' p x \<and>
     streams s' = streams s \<and> read_env s' = read_env s \<and> k \<le> length (buf_bytes s (in_buf x)) \<and>
     buf_bytes s' (in_buf x) = drop k (buf_bytes s (in_buf x)) \<and>
     (\<forall>b \<in> set (stream_bufs x). b \<noteq> in_buf x \<longrightarrow> buf_bytes s' b = buf_bytes s b) \<and>
     (\<exists>chunks. sent s' = sent s @ map (Pair (server_sock x)) chunks \<and>
        concat chunks = take k (buf_bytes s (in_buf x)))"

lemma flushed_ok:
  "flushed s s' p x k \<Longrightarrow> mem_ok s'" "flushed s s' p x k \<Longrightarrow> stream_ok s' p x"
  "flushed s s' p x k \<Longrightarrow> buf_bytes s' (in_buf x) = drop k (buf_bytes s (in_buf x))"
  by (simp_all add: flushed_def)

lemma stream_bufs_mem: "in_buf x \<in> set (stream_bufs x)" "out_buf x \<in> set (stream_bufs x)"
  by (simp_all add: stream_bufs_def)

lemma stream_ok_neq:
  assumes "stream_ok s p x"
  shows "out_buf x \<noteq> in_buf x"
proof -
  have "distinct (stream_bufs x)" using assms by (simp add: stream_ok_def)
  then show ?thesis by (auto simp: stream_bufs_def)
qed

lemma flushed_out_buf:
  assumes "stream_ok s p x" and f: "flushed s s' p x k"
  shows "buf_bytes s' (out_buf x) = buf_bytes s (out_buf x)"
proof -
  have "\<forall>b \<in> set (stream_bufs x). b \<noteq> in_buf x \<longrightarrow> buf_bytes s' b = buf_bytes s b"
    using f unfolding flushed_def by (elim conjE)
  then show ?thesis using stream_bufs_mem(2) stream_ok_neq [OF assms(1)] by blast
qed

lemma flushed_env:
  assumes "mem_ok s" "stream_ok s p x"
  shows "flushed s (s\<lparr>write_env := es\<rparr>) p x 0"
    and "flushed s (s\<lparr>write_env := es, sent := sent s @ [(server_sock x, [])]\<rparr>) p x 0"
proof -
  show "flushed s (s\<lparr>write_env := es\<rparr>) p x 0"
    using assms by (auto simp: flushed_def stream_frame_def intro!: exI [of _ "[]"])
  show "flushed s (s\<lparr>write_env := es, sent := sent s @ [(server_sock x, [])]\<rparr>) p x 0"
    using assms by (auto simp: flushed_def stream_frame_def intro!: exI [of _ "[[]]"])
qed

lemma flushed_trans:
  assumes 1: "flushed s s1 p x j" and 2: "flushed s1 s2 p x k"
  shows "flushed s s2 p x (j + k)"
proof -
  let ?b = "buf_bytes s (in_buf x)"
  obtain c1 c2 where c: "sent s1 = sent s @ map (Pair (server_sock x)) c1" "concat c1 = take j ?b"
    "sent s2 = sent s1 @ map (Pair (server_sock x)) c2" "concat c2 = take k (drop j ?b)"
    using 1 2 unfolding flushed_def by force
  have "sent s2 = sent s @ map (Pair (server_sock x)) (c1 @ c2)" "concat (c1 @ c2) = take (j + k) ?b"
    using c by (simp_all add: take_add)
  then have "\<exists>ch. sent s2 = sent s @ map (Pair (server_sock x)) ch \<and> concat ch = take (j + k) ?b" by blast
  moreover have "stream_frame s s2 p x" using 1 2 stream_frame_trans unfolding flushed_def by blast
  moreover have "buf_bytes s2 (in_buf x) = drop (j + k) ?b" "j + k \<le> length ?b"
    using 1 2 by (auto simp: flushed_def add.commute)
  ultimately show ?thesis using 1 2 unfolding flushed_def by simp
qed

lemma buf_load:
  assumes ok: "mem_ok s" "buf_ok s b" and B: "bufs s b = Some B" and n: "n \<le> length (buf_bytes s b)"
  shows "mem_load (buffer B) 0 n s = Inr (take n (buf_bytes s b))"
proof -
  have "buffer B \<in> live s" "length (buf_bytes s b) \<le> length (block_bytes s (buffer B))"
    using ok(2) B by (auto simp: buf_ok_def buf_bytes_def)
  then have "mem_load (buffer B) 0 n s = Inr (take n (block_bytes s (buffer B)))"
    using mem.load_law [OF ok(1), of "buffer B" 0 n] n by simp
  moreover have "n \<le> unat (data_len B)" using n B by (simp add: buf_bytes_def)
  then have "take n (buf_bytes s b) = take n (block_bytes s (buffer B))"
    using B by (simp add: buf_bytes_def min_absorb1)
  ultimately show ?thesis by simp
qed

lemma flush_loop_step:
  assumes ok: "mem_ok s" "stream_ok s p x" and cur: "0 < cur" "nat cur \<le> length (buf_bytes s (in_buf x))"
  shows "flush_loop p cur t s = (case write_env s of
      [] \<Rightarrow> Inl Stuck
    | a # es \<Rightarrow> (case a of
        Error e \<Rightarrow> (case e of EINTR \<Rightarrow> flush_loop p cur t (s\<lparr>write_env := es\<rparr>)
          | EAGAIN \<Rightarrow> Inr (t, s\<lparr>write_env := es\<rparr>) | Other_error \<Rightarrow> Inr (- 1, s\<lparr>write_env := es\<rparr>))
      | Done n \<Rightarrow>
          let r = min n (nat cur);
              s1 = s\<lparr>write_env := es, sent := sent s @ [(server_sock x, take r (buf_bytes s (in_buf x)))]\<rparr> in
          if r = 0 then Inr (t, s1)
          else bindE (buf_pick (in_buf x) (of_nat r) s1) (\<lambda>s2. flush_loop p (cur - int r) (t + int r) s2)))"
proof -
  have b: "buf_ok s (in_buf x)" by (rule stream_ok_bufs [OF ok(2)])
  obtain B where B: "bufs s (in_buf x) = Some B" "get_buf (in_buf x) s = Inr B" using buf_ok_get [OF b] by blast
  have ld: "mem_load (buffer B) 0 (nat cur) s = Inr (take (nat cur) (buf_bytes s (in_buf x)))"
    by (rule buf_load [OF ok(1) b B(1) cur(2)])
  have len: "length (take (nat cur) (buf_bytes s (in_buf x))) = nat cur" using cur(2) by simp
  show ?thesis using cur(1)
    by (subst flush_loop.simps)
      (simp add: get_stream_ok [OF ok(2)] B(2) ld sys_write_def Let_def len cur(2) min_absorb1
        split: list.splits outcome.splits)
qed

lemma buf_bytes_bound:
  assumes "mem_ok s" and "buf_ok s b"
  shows "length (buf_bytes s b) \<le> 2 ^ 20"
proof -
  obtain B where B: "bufs s b = Some B" "unat (data_len B) \<le> unat (buf_len B)"
    using assms(2) by (auto simp: buf_ok_def word_le_nat_alt)
  moreover have "length (buf_bytes s b) \<le> unat (data_len B)" using B(1) by (simp add: buf_bytes_def)
  ultimately show ?thesis using buf_len_bound [OF assms B(1)] by linarith
qed

text \<open>One chunk: recorded on the wire and taken out of the buffer.\<close>

lemma flush_pick:
  assumes ok: "mem_ok s" "stream_ok s p x" and r: "r \<le> length (buf_bytes s (in_buf x))"
  shows "\<exists>s2. buf_pick (in_buf x) (of_nat r)
      (s\<lparr>write_env := es, sent := sent s @ [(server_sock x, take r (buf_bytes s (in_buf x)))]\<rparr>) = Inr s2 \<and>
    flushed s s2 p x r \<and> write_env s2 = es"
proof -
  let ?ib = "buf_bytes s (in_buf x)"
  define s1 where "s1 = s\<lparr>write_env := es, sent := sent s @ [(server_sock x, take r ?ib)]\<rparr>"
  have ok1: "mem_ok s1" "stream_ok s1 p x" "buf_bytes s1 = buf_bytes s" using ok by (simp_all add: s1_def)
  have b1: "buf_ok s1 (in_buf x)" by (rule stream_ok_bufs [OF ok1(2)])
  have "r < 2 ^ 64" using r buf_bytes_bound [OF ok1(1) b1] ok1(3) by simp
  then have un: "unat (of_nat r :: size_t) = r" by (simp add: unsigned_of_nat take_bit_nat_eq_self)
  obtain s2 where s2: "buf_pick (in_buf x) (of_nat r) s1 = Inr s2" "buf_step s1 s2 (in_buf x)"
    "buf_bytes s2 (in_buf x) = drop r ?ib"
    using buf_pick_ok [OF ok1(1) b1, of "of_nat r"] ok1(3) un r by auto
  have bs: "mem_ok s2 \<and> stream_ok s2 p x \<and> stream_frame s1 s2 p x \<and> streams s2 = streams s1 \<and>
      (\<forall>c \<in> set (stream_bufs x). c \<noteq> in_buf x \<longrightarrow> buf_bytes s2 c = buf_bytes s1 c \<and> buf_room s2 c = buf_room s1 c)"
    using stream_buf_step [OF ok1(1,2) _ s2(2)] by (simp add: stream_bufs_def)
  have more: "buf_state.more s2 = buf_state.more s1" using s2(2) by (simp add: buf_step_def)
  have "stream_frame s s1 p x" by (simp add: stream_frame_def s1_def)
  then have fr: "stream_frame s s2 p x" using bs stream_frame_trans by blast
  have w: "sent s2 = sent s @ map (Pair (server_sock x)) [take r ?ib]" "read_env s2 = read_env s"
    "write_env s2 = es" using more_stream [OF more] by (simp_all add: s1_def)
  have "\<exists>ch. sent s2 = sent s @ map (Pair (server_sock x)) ch \<and> concat ch = take r ?ib"
    using w(1) by (intro exI [of _ "[take r ?ib]"]) simp
  then have "flushed s s2 p x r"
    using bs fr s2(3) ok1(3) r w(2) unfolding flushed_def by (simp add: s1_def)
  then show ?thesis using s2(1) w(3) unfolding s1_def by blast
qed

lemma flush_loop_returns:
  assumes "mem_ok s" "stream_ok s p x" and "0 \<le> cur" "nat cur \<le> length (buf_bytes s (in_buf x))"
  shows "case flush_loop p cur t s of Inl e \<Rightarrow> e = Stuck
    | Inr (r, s') \<Rightarrow> \<exists>k \<le> nat cur. flushed s s' p x k \<and> (r = - 1 \<or> r = t + int k)"
  using assms
proof (induction "length (write_env s)" arbitrary: s cur t rule: less_induct)
  case less
  note ok = less.prems(1,2)
  show ?case
  proof (cases "cur = 0")
    case True
    have "flushed s s p x 0"
      using ok stream_frame_refl by (auto simp: flushed_def intro!: exI [of _ "[]"])
    moreover have "flush_loop p cur t s = Inr (t, s)" using True by (subst flush_loop.simps) simp
    ultimately show ?thesis by auto
  next
    case False
    then have cur: "0 < cur" using less.prems(3) by simp
    note step = flush_loop_step [OF ok cur less.prems(4), of t]
    show ?thesis
    proof (cases "write_env s")
      case Nil
      then show ?thesis using step by simp
    next
      case (Cons a es)
      show ?thesis
      proof (cases a)
        case (Error e)
        let ?s1 = "s\<lparr>write_env := es\<rparr>"
        have f: "flushed s ?s1 p x 0" by (rule flushed_env [OF ok])
        have IH: "case flush_loop p cur t ?s1 of Inl e \<Rightarrow> e = Stuck
            | Inr (r, s') \<Rightarrow> \<exists>k \<le> nat cur. flushed ?s1 s' p x k \<and> (r = - 1 \<or> r = t + int k)"
          using less.prems Cons by (intro less.hyps) auto
        have tr: "flushed s s' p x k" if "flushed ?s1 s' p x k" for s' k
          using flushed_trans [OF f that] by simp
        show ?thesis
        proof (cases e)
          case EINTR
          then have "flush_loop p cur t s = flush_loop p cur t ?s1" using step Cons Error by simp
          then show ?thesis using IH tr by (auto split: sum.splits)
        next
          case EAGAIN
          then have "flush_loop p cur t s = Inr (t, ?s1)" using step Cons Error by simp
          then show ?thesis using f by auto
        next
          case Other_error
          then have "flush_loop p cur t s = Inr (- 1, ?s1)" using step Cons Error by simp
          then show ?thesis using f by auto
        qed
      next
        case (Done n)
        define r where "r = min n (nat cur)"
        let ?ib = "buf_bytes s (in_buf x)"
        define s1 where "s1 = s\<lparr>write_env := es, sent := sent s @ [(server_sock x, take r ?ib)]\<rparr>"
        have step': "flush_loop p cur t s = (if r = 0 then Inr (t, s1)
            else bindE (buf_pick (in_buf x) (of_nat r) s1) (\<lambda>s2. flush_loop p (cur - int r) (t + int r) s2))"
          using step unfolding Cons Done by (simp only: list.case outcome.case Let_def r_def s1_def)
        show ?thesis
        proof (cases "r = 0")
          case True
          then have "flushed s s1 p x 0" using flushed_env(2) [OF ok] by (simp add: s1_def)
          then show ?thesis using step' True by auto
        next
          case False
          have rl: "r \<le> length ?ib" using less.prems(4) by (simp add: r_def)
          obtain s2 where s2: "buf_pick (in_buf x) (of_nat r) s1 = Inr s2" and f: "flushed s s2 p x r"
            and "write_env s2 = es"
            using flush_pick [OF ok rl] unfolding s1_def by blast
          have "case flush_loop p (cur - int r) (t + int r) s2 of Inl e \<Rightarrow> e = Stuck
              | Inr (q, s') \<Rightarrow> \<exists>k \<le> nat (cur - int r). flushed s2 s' p x k \<and> (q = - 1 \<or> q = t + int r + int k)"
            using flushed_ok [OF f] Cons \<open>write_env s2 = es\<close> less.prems(3,4)
            by (intro less.hyps) (auto simp: r_def)
          moreover have "flush_loop p cur t s = flush_loop p (cur - int r) (t + int r) s2"
            using step' False s2 by simp
          moreover have "r + k \<le> nat cur" if "k \<le> nat (cur - int r)" for k
            using that cur by (simp add: r_def)
          ultimately show ?thesis using flushed_trans [OF f] by (fastforce split: sum.splits)
        qed
      qed
    qed
  qed
qed

lemma buf_size:
  assumes "buf_ok s b"
  shows "\<exists>n. buf_data_size b s = Inr n \<and> unat n = length (buf_bytes s b)"
proof -
  obtain B where B: "bufs s b = Some B" "get_buf b s = Inr B" using buf_ok_get [OF assms] by blast
  then have "unat (data_len B) \<le> length (block_bytes s (buffer B))"
    using assms by (auto simp: buf_ok_def word_le_nat_alt)
  then show ?thesis using B by (simp add: buf_data_size_def buf_bytes_def)
qed

text \<open>The number of bytes of a buffer survives the conversion to \<open>int\<close>.\<close>

lemma sint_ucast_small:
  assumes n: "unat (n :: size_t) \<le> 2 ^ 20"
  shows "sint (ucast n :: 32 word) = int (unat n)"
proof -
  have "int (unat n) \<le> int (2 ^ 20)" using n by (simp only: of_nat_le_iff)
  then have "uint n \<le> 2 ^ 20" by simp
  moreover have "- (2 ^ 31) \<le> uint n" by (rule order_trans [OF _ unsigned_greater_eq]) simp
  ultimately have "signed_take_bit 31 (uint n) = uint n" by (intro signed_take_bit_int_eq_self) simp_all
  then show ?thesis by (simp add: signed_ucast_eq)
qed

lemma flush_size:
  fixes sz :: "32 word"
  assumes n: "unat (n :: size_t) \<le> 2 ^ 20"
    and cur: "cur = (if n < scast sz \<or> sint sz \<le> 0 then sint (ucast n :: 32 word) else sint sz)"
  shows "0 \<le> cur" and "nat cur \<le> unat n"
proof -
  note sint_ucast_small [OF n]
  moreover have "sint sz \<le> int (unat n)" if "\<not> n < scast sz" "0 < sint sz"
  proof -
    have "sint sz < 2 ^ 63" using sint_lt [of sz] by simp
    then have "take_bit 64 (sint sz) = sint sz" using that(2) by (intro take_bit_int_eq_self) simp_all
    moreover have "uint (scast sz :: size_t) = take_bit 64 (sint sz)"
      by (simp only: scast_eq uint_word_of_int_eq) simp
    ultimately have "uint (scast sz :: size_t) = sint sz" by simp
    then show ?thesis using that(1) by (simp add: word_less_def)
  qed
  ultimately show "0 \<le> cur" "nat cur \<le> unat n" by (auto simp: cur nat_le_iff)
qed

lemma stream_flush_out_returns:
  assumes ok: "mem_ok s" "stream_ok s p x"
  shows "case stream_flush_out p sz s of Inl e \<Rightarrow> e = Stuck
    | Inr (r, s') \<Rightarrow> \<exists>k. flushed s s' p x k \<and> (r = - 1 \<or> r = int k)"
proof (cases "server_sock x < 0")
  case True
  have "flushed s s p x 0"
    using ok stream_frame_refl by (auto simp: flushed_def intro!: exI [of _ "[]"])
  then show ?thesis using True get_stream_ok [OF ok(2)] by (auto simp: stream_flush_out_def)
next
  case False
  have b: "buf_ok s (in_buf x)" by (rule stream_ok_bufs [OF ok(2)])
  obtain n where n: "buf_data_size (in_buf x) s = Inr n" "unat n = length (buf_bytes s (in_buf x))"
    using buf_size [OF b] by blast
  define cur where "cur = (if n < scast sz \<or> sint sz \<le> 0 then sint (ucast n :: 32 word) else sint sz)"
  have "unat n \<le> 2 ^ 20" using n(2) buf_bytes_bound [OF ok(1) b] by simp
  from flush_size [OF this cur_def] have "0 \<le> cur" "nat cur \<le> length (buf_bytes s (in_buf x))"
    using n(2) by simp_all
  from flush_loop_returns [OF ok this, of 0]
  have "case flush_loop p cur 0 s of Inl e \<Rightarrow> e = Stuck
    | Inr (r, s') \<Rightarrow> \<exists>k. flushed s s' p x k \<and> (r = - 1 \<or> r = int k)"
    by (auto split: sum.splits)
  moreover have "stream_flush_out p sz s = flush_loop p cur 0 s"
    using False n(1) get_stream_ok [OF ok(2)] by (simp add: stream_flush_out_def cur_def Let_def)
  ultimately show ?thesis by simp
qed

text \<open>When the network takes all it is offered, in however many pieces, everything goes out.\<close>

definition willing :: "nat outcome \<Rightarrow> bool" where
  "willing a \<longleftrightarrow> (case a of Done n \<Rightarrow> 0 < n | Error e \<Rightarrow> e = EINTR)"

definition takes :: "nat outcome \<Rightarrow> nat" where
  "takes a = (case a of Done n \<Rightarrow> n | Error e \<Rightarrow> 0)"

lemma flush_loop_all:
  assumes "mem_ok s" "stream_ok s p x" and "0 \<le> cur" "nat cur \<le> length (buf_bytes s (in_buf x))"
    and "list_all willing (write_env s)" and "nat cur \<le> sum_list (map takes (write_env s))"
  shows "\<exists>s'. flush_loop p cur t s = Inr (t + cur, s') \<and> flushed s s' p x (nat cur)"
  using assms
proof (induction "length (write_env s)" arbitrary: s cur t rule: less_induct)
  case less
  note ok = less.prems(1,2)
  show ?case
  proof (cases "cur = 0")
    case True
    have "flushed s s p x 0"
      using ok stream_frame_refl by (auto simp: flushed_def intro!: exI [of _ "[]"])
    moreover have "flush_loop p cur t s = Inr (t, s)" using True by (subst flush_loop.simps) simp
    ultimately show ?thesis using True by simp
  next
    case False
    then have cur: "0 < cur" using less.prems(3) by simp
    note step = flush_loop_step [OF ok cur less.prems(4), of t]
    obtain a es where es: "write_env s = a # es" using less.prems(6) cur by (cases "write_env s") auto
    show ?thesis
    proof (cases a)
      case (Error e)
      then have e: "e = EINTR" using less.prems(5) es by (simp add: willing_def)
      let ?s1 = "s\<lparr>write_env := es\<rparr>"
      have "\<exists>s'. flush_loop p cur t ?s1 = Inr (t + cur, s') \<and> flushed ?s1 s' p x (nat cur)"
        using less.prems es Error by (intro less.hyps) (auto simp: takes_def)
      moreover have "flush_loop p cur t s = flush_loop p cur t ?s1" using step es Error e by simp
      ultimately show ?thesis using flushed_trans [OF flushed_env(1) [OF ok, of es]] by fastforce
    next
      case (Done n)
      define r where "r = min n (nat cur)"
      have r: "0 < r" "r \<le> nat cur" using less.prems(5) es Done cur by (auto simp: willing_def r_def)
      let ?ib = "buf_bytes s (in_buf x)"
      define s1 where "s1 = s\<lparr>write_env := es, sent := sent s @ [(server_sock x, take r ?ib)]\<rparr>"
      have step': "flush_loop p cur t s =
          bindE (buf_pick (in_buf x) (of_nat r) s1) (\<lambda>s2. flush_loop p (cur - int r) (t + int r) s2)"
        using step r(1) unfolding es Done
        by (simp only: list.case outcome.case Let_def r_def s1_def if_False gr_implies_not0)
      have "r \<le> length ?ib" using less.prems(4) r(2) by simp
      obtain s2 where s2: "buf_pick (in_buf x) (of_nat r) s1 = Inr s2" "flushed s s2 p x r" "write_env s2 = es"
        using flush_pick [OF ok \<open>r \<le> length ?ib\<close>] unfolding s1_def by blast
      have "\<exists>s'. flush_loop p (cur - int r) (t + int r) s2 = Inr (t + int r + (cur - int r), s') \<and>
          flushed s2 s' p x (nat (cur - int r))"
        using flushed_ok [OF s2(2)] s2(3) es less.prems Done r
        by (intro less.hyps) (auto simp: takes_def r_def min_def split: if_splits)
      then obtain s' where "flush_loop p (cur - int r) (t + int r) s2 = Inr (t + cur, s')"
        "flushed s2 s' p x (nat (cur - int r))" by auto
      moreover have "r + nat (cur - int r) = nat cur" using r(2) by linarith
      ultimately show ?thesis using step' s2(1) flushed_trans [OF s2(2)] by fastforce
    qed
  qed
qed

section \<open>Receiving\<close>

lemma set_stream_sel [simp]:
  "mem_ok (set_stream p x s) = mem_ok s" "live (set_stream p x s) = live s"
  "block_bytes (set_stream p x s) = block_bytes s" "buf_ok (set_stream p x s) = buf_ok s"
  "buf_bytes (set_stream p x s) = buf_bytes s" "buf_room (set_stream p x s) = buf_room s"
  "buf_blocks (set_stream p x s) = buf_blocks s" "buf_apart (set_stream p x s) = buf_apart s"
  "bufs (set_stream p x s) = bufs s" "streams (set_stream p x s) = (streams s)(p \<mapsto> x)"
  "write_env (set_stream p x s) = write_env s" "read_env (set_stream p x s) = read_env s"
  "sent (set_stream p x s) = sent s" "jconns (set_stream p x s) = jconns s"
  "clinks (set_stream p x s) = clinks s" "g_connect_pool (set_stream p x s) = g_connect_pool s"
  "closed_fds (set_stream p x s) = closed_fds s" "clock (set_stream p x s) = clock s"
  "stream_state.more (set_stream p x s) = stream_state.more s" "malloc_left (set_stream p x s) = malloc_left s"
  by (simp_all add: set_stream_def)

lemma stream_ok_set:
  assumes "stream_ok s p x" and "stream_bufs x' = stream_bufs x"
  shows "stream_ok (set_stream p x' s) p x'" "stream_frame s (set_stream p x' s) p x"
  using assms by (simp_all add: stream_ok_def stream_frame_def stream_blocks_def)

text \<open>
  \<open>fed s s' p x bs\<close>: the bytes \<open>bs\<close> have been received at the end of \<open>out_buf\<close>, the
  stream record differs at most in \<open>server_closed\<close>, and nothing else has changed.
\<close>

definition fed ::
  "'z stream_state_scheme \<Rightarrow> 'z stream_state_scheme \<Rightarrow> loc \<Rightarrow> tcp_stream \<Rightarrow> tcp_stream \<Rightarrow> byte list \<Rightarrow> bool" where
  "fed s s' p x x' bs \<longleftrightarrow> mem_ok s' \<and> stream_ok s' p x' \<and> stream_frame s s' p x \<and>
     (x' = x \<or> bs = [] \<and> x' = x\<lparr>server_closed := True\<rparr>) \<and>
     write_env s' = write_env s \<and> sent s' = sent s \<and>
     buf_bytes s' (out_buf x) = buf_bytes s (out_buf x) @ bs \<and>
     length bs \<le> buf_room s (out_buf x) \<and>
     (\<forall>b \<in> set (stream_bufs x). b \<noteq> out_buf x \<longrightarrow> buf_bytes s' b = buf_bytes s b)"

lemma fed_env: "mem_ok s \<Longrightarrow> stream_ok s p x \<Longrightarrow> fed s (s\<lparr>read_env := es\<rparr>) p x x []"
  by (simp add: fed_def stream_frame_def)

text \<open>A chunk that fits is stored behind the bytes received before.\<close>

lemma fed_chunk:
  assumes ok: "mem_ok s" "stream_ok s p x" and B: "bufs s (out_buf x) = Some B"
    and len: "length bs \<le> buf_room s (out_buf x)"
  shows "\<exists>s1. mem_store (buffer B) (unat (data_len B)) bs (s\<lparr>read_env := es\<rparr>) = Inr s1 \<and>
    get_buf (out_buf x) s1 = Inr B \<and>
    fed s (set_buf (out_buf x) (B\<lparr>data_len := data_len B + of_nat (length bs)\<rparr>) s1) p x x bs"
proof -
  let ?s0 = "s\<lparr>read_env := es\<rparr>" and ?b = "out_buf x"
  let ?B = "B\<lparr>data_len := data_len B + of_nat (length bs)\<rparr>"
  have b: "buf_ok s ?b" by (rule stream_ok_bufs [OF ok(2)])
  have ok0: "mem_ok ?s0" "stream_ok ?s0 p x" "buf_ok ?s0 ?b" "bufs ?s0 ?b = Some B" using ok b B by simp_all
  have caps: "unat (data_len B) \<le> unat (buf_len B)" "unat (buf_len B) \<le> 2 ^ 20"
    using b B buf_len_bound [OF ok(1) b B] by (auto simp: buf_ok_def word_le_nat_alt)
  have fits: "unat (data_len B) + length bs \<le> unat (buf_len B)" using len B caps by (simp add: buf_room_def)
  have un: "unat (of_nat (length bs) :: size_t) = length bs"
    using fits caps by (simp add: unsigned_of_nat take_bit_nat_eq_self)
  have dl: "unat (data_len ?B) = unat (data_len B) + length bs"
    using unat_add_small [of "data_len B" "of_nat (length bs)"] un fits caps by simp
  have "data_len ?B \<le> buf_len B" using dl fits by (simp add: word_le_nat_alt)
  then obtain s1 where s1: "mem_store (buffer B) (unat (data_len B)) bs ?s0 = Inr s1" "bufs s1 = bufs ?s0"
    "live s1 = live ?s0" "buf_step ?s0 (set_buf ?b ?B s1) ?b"
    "buf_bytes (set_buf ?b ?B s1) ?b = take (unat (data_len ?B)) (splice (unat (data_len B)) bs (block_bytes ?s0 (buffer B)))"
    using buf_write [OF ok0(1,3,4) fits, of ?B] by auto
  have "unat (data_len B) \<le> length (block_bytes s (buffer B))" using b B caps by (auto simp: buf_ok_def)
  then have "buf_bytes (set_buf ?b ?B s1) ?b = buf_bytes s ?b @ bs"
    using s1(5) B by (simp only: dl take_splice_upto env_upd_mem) (simp add: buf_bytes_def)
  moreover have step: "mem_ok (set_buf ?b ?B s1) \<and> stream_ok (set_buf ?b ?B s1) p x \<and>
      stream_frame ?s0 (set_buf ?b ?B s1) p x \<and> streams (set_buf ?b ?B s1) = streams ?s0 \<and>
      (\<forall>c \<in> set (stream_bufs x). c \<noteq> ?b \<longrightarrow> buf_bytes (set_buf ?b ?B s1) c = buf_bytes ?s0 c \<and>
        buf_room (set_buf ?b ?B s1) c = buf_room ?s0 c)"
    by (rule stream_buf_step [OF ok0(1,2) _ s1(4)]) (simp add: stream_bufs_def)
  moreover have "stream_frame s ?s0 p x" by (simp add: stream_frame_def)
  then have "stream_frame s (set_buf ?b ?B s1) p x" using step stream_frame_trans by blast
  moreover have "buf_state.more (set_buf ?b ?B s1) = buf_state.more ?s0" using s1(4) by (simp add: buf_step_def)
  note more = more_stream [OF this]
  have "write_env (set_buf ?b ?B s1) = write_env s" "sent (set_buf ?b ?B s1) = sent s" using more by simp_all
  ultimately have "fed s (set_buf ?b ?B s1) p x x bs" using len by (simp add: fed_def)
  moreover have "get_buf ?b s1 = Inr B"
    using b B s1(2,3) by (simp add: get_buf_def is_live_iff buf_ok_def)
  ultimately show ?thesis using s1(1) by blast
qed

lemma fed_trans:
  assumes "fed s s1 p x x []" and "fed s1 s2 p x x' bs" and "buf_room s1 (out_buf x) = buf_room s (out_buf x)"
  shows "fed s s2 p x x' bs"
  using assms stream_frame_trans unfolding fed_def by auto

lemma feed_loop_returns:
  assumes "mem_ok s" "stream_ok s p x"
  shows "case feed_loop p 0 s of Inl e \<Rightarrow> e = Stuck
    | Inr (r, s') \<Rightarrow> \<exists>x' bs. fed s s' p x x' bs \<and> (r = int (length bs) \<or> bs = [] \<and> r = - 1) \<and>
        (x' = x \<or> r = - 1)"
  using assms
proof (induction "length (read_env s)" arbitrary: s rule: less_induct)
  case less
  note ok = less.prems
  have b: "buf_ok s (out_buf x)" by (rule stream_ok_bufs [OF ok(2)])
  obtain B where B: "bufs s (out_buf x) = Some B" "get_buf (out_buf x) s = Inr B" using buf_ok_get [OF b] by blast
  have space: "buf_free_space (out_buf x) s = Inr (buf_len B - data_len B)"
    using B by (simp add: buf_free_space_def)
  have un: "unat (buf_len B - data_len B) = buf_room s (out_buf x)"
    using b B by (auto simp: buf_ok_def buf_room_def unat_sub_small)
  note gs = get_stream_ok [OF ok(2)]
  show ?case
  proof (cases "buf_len B - data_len B > 0")
    case False
    have "feed_loop p 0 s = Inr (0, set_stream p x s)"
      using False gs space by (subst feed_loop.simps) simp
    moreover have "fed s (set_stream p x s) p x x []"
      using ok stream_ok_set [OF ok(2), of x] by (simp add: fed_def)
    ultimately show ?thesis by auto
  next
    case True
    have step: "feed_loop p 0 s = (case read_env s of [] \<Rightarrow> Inl Stuck | a # es \<Rightarrow> (case a of
        Error e \<Rightarrow> (case e of EINTR \<Rightarrow> feed_loop p 0 (s\<lparr>read_env := es\<rparr>)
          | EAGAIN \<Rightarrow> Inr (0, s\<lparr>read_env := es\<rparr>) | Other_error \<Rightarrow> Inr (- 1, s\<lparr>read_env := es\<rparr>))
      | Done bs0 \<Rightarrow> let bs = take (buf_room s (out_buf x)) bs0 in
          if bs = [] then Inr (- 1, set_stream p (x\<lparr>server_closed := True\<rparr>) (s\<lparr>read_env := es\<rparr>))
          else bindE (mem_store (buffer B) (unat (data_len B)) bs (s\<lparr>read_env := es\<rparr>)) (\<lambda>s.
            bindE (get_buf (out_buf x) s) (\<lambda>B.
            Inr (int (length bs), set_buf (out_buf x) (B\<lparr>data_len := data_len B + of_nat (length bs)\<rparr>) s)))))"
      using True gs space B
      by (subst feed_loop.simps)
        (simp add: sys_read_def un buf_end_position_def Let_def split: list.splits outcome.splits)
    show ?thesis
    proof (cases "read_env s")
      case Nil
      then show ?thesis using step by simp
    next
      case (Cons a es)
      let ?s1 = "s\<lparr>read_env := es\<rparr>"
      have f: "fed s ?s1 p x x []" by (rule fed_env [OF ok])
      show ?thesis
      proof (cases a)
        case (Error e)
        have IH: "case feed_loop p 0 ?s1 of Inl e \<Rightarrow> e = Stuck
          | Inr (r, s') \<Rightarrow> \<exists>x' bs. fed ?s1 s' p x x' bs \<and> (r = int (length bs) \<or> bs = [] \<and> r = - 1) \<and>
              (x' = x \<or> r = - 1)"
          using ok Cons by (intro less.hyps) auto
        have tr: "fed s s' p x x' bs" if "fed ?s1 s' p x x' bs" for s' x' bs
          using fed_trans [OF f that] by simp
        show ?thesis
        proof (cases e)
          case EINTR
          then have eq: "feed_loop p 0 s = feed_loop p 0 ?s1" using step Cons Error by simp
          show ?thesis
          proof (cases "feed_loop p 0 ?s1")
            case (Inl e)
            then show ?thesis using IH eq by simp
          next
            case (Inr rs)
            obtain r s' where rs: "rs = (r, s')" by fastforce
            then obtain x' bs where f': "fed ?s1 s' p x x' bs" "r = int (length bs) \<or> bs = [] \<and> r = - 1"
              "x' = x \<or> r = - 1" using IH Inr by auto
            have "fed s s' p x x' bs" by (rule tr [OF f'(1)])
            then have "\<exists>x' bs. fed s s' p x x' bs \<and> (r = int (length bs) \<or> bs = [] \<and> r = - 1) \<and> (x' = x \<or> r = - 1)"
              using f'(2,3) by blast
            then show ?thesis using eq Inr rs by simp
          qed
        next
          case EAGAIN
          then have "feed_loop p 0 s = Inr (0, ?s1)" using step Cons Error by simp
          then show ?thesis using f by auto
        next
          case Other_error
          then have "feed_loop p 0 s = Inr (- 1, ?s1)" using step Cons Error by simp
          then show ?thesis using f by auto
        qed
      next
        case (Done bs0)
        define bs where "bs = take (buf_room s (out_buf x)) bs0"
        have len: "length bs \<le> buf_room s (out_buf x)" by (simp add: bs_def)
        show ?thesis
        proof (cases "bs = []")
          case True
          have "feed_loop p 0 s = Inr (- 1, set_stream p (x\<lparr>server_closed := True\<rparr>) ?s1)"
            using step True unfolding Cons Done by (simp add: bs_def [symmetric] Let_def)
          moreover have "fed s (set_stream p (x\<lparr>server_closed := True\<rparr>) ?s1) p x (x\<lparr>server_closed := True\<rparr>) []"
            using ok stream_ok_set [of ?s1 p x "x\<lparr>server_closed := True\<rparr>"]
            by (simp add: fed_def stream_bufs_def stream_frame_def stream_blocks_def)
          ultimately show ?thesis by auto
        next
          case False
          obtain s1 where s1: "mem_store (buffer B) (unat (data_len B)) bs ?s1 = Inr s1" "get_buf (out_buf x) s1 = Inr B"
            "fed s (set_buf (out_buf x) (B\<lparr>data_len := data_len B + of_nat (length bs)\<rparr>) s1) p x x bs"
            using fed_chunk [OF ok B(1) len] by blast
          have "feed_loop p 0 s = Inr (int (length bs),
              set_buf (out_buf x) (B\<lparr>data_len := data_len B + of_nat (length bs)\<rparr>) s1)"
            using step False unfolding Cons Done
            by (simp only: list.case outcome.case Let_def bs_def [symmetric] if_False s1(1,2) bindE_Inr)
          then show ?thesis using s1(3) by auto
        qed
      qed
    qed
  qed
qed

section \<open>Making and releasing a stream\<close>

lemma release_stream_each:
  "release_stream p (s :: 'z stream_state_scheme) =
     bindE (get_stream p s) (\<lambda>x.
     bindE (each buf_delete (stream_bufs x) s) (\<lambda>s.
     bindE (mem_free p s) (\<lambda>s.
     Inr (s\<lparr>streams := (streams s)(p := None)\<rparr>))))"
proof -
  have "each buf_delete (if w \<noteq> Null then [w] else []) t = (if w \<noteq> Null then buf_delete w t else Inr t)"
    for w and t :: "'z stream_state_scheme"
    by (cases "buf_delete w t") simp_all
  then show ?thesis by (simp only: release_stream_def stream_bufs_def bindE_assoc each.simps append_Cons append_Nil)
qed

lemma release_stream_left: "release_stream p s = Inr s' \<Longrightarrow> malloc_left s' = malloc_left s"
  by (auto simp: release_stream_def res_simps dest!: mem_free_left buf_delete_left split: if_splits)

lemma release_stream_ok:
  assumes ok: "mem_ok s" "stream_ok s p x"
  shows "\<exists>s'. release_stream p s = Inr s' \<and> mem_ok s' \<and> live s' = live s - stream_blocks s p x \<and>
    block_bytes s' = block_bytes s \<and> (\<forall>c. c \<notin> set (stream_bufs x) \<longrightarrow> bufs s' c = bufs s c) \<and>
    streams s' = (streams s)(p := None) \<and> write_env s' = write_env s \<and> read_env s' = read_env s \<and>
    sent s' = sent s \<and> clock s' = clock s \<and> jconns s' = jconns s \<and> clinks s' = clinks s \<and>
    g_connect_pool s' = g_connect_pool s \<and> closed_fds s' = closed_fds s \<and>
    stream_state.more s' = stream_state.more s"
proof -
  obtain s1 where s1: "each buf_delete (stream_bufs x) s = Inr s1" "mem_ok s1"
    "live s1 = live s - (\<Union>b \<in> set (stream_bufs x). buf_blocks s b)" "block_bytes s1 = block_bytes s"
    "\<forall>c. c \<notin> set (stream_bufs x) \<longrightarrow> bufs s1 c = bufs s c" "buf_state.more s1 = buf_state.more s"
    using delete_all [of s "stream_bufs x"] ok by (auto simp: stream_ok_def)
  have "p \<in> live s1" using s1(3) ok(2) by (auto simp: stream_ok_def)
  then obtain s2 where s2: "mem_free p s1 = Inr s2" "mem_ok s2" "live s2 = live s1 - {p}"
    "block_bytes s2 = block_bytes s1" "mem_state.more s2 = mem_state.more s1"
    using mem.free_law [OF s1(2)] by blast
  have b2: "bufs s2 = bufs s1" "buf_state.more s2 = buf_state.more s" using mem_more_buf [OF s2(5)] s1(6) by auto
  have "release_stream p s = Inr (s2\<lparr>streams := (streams s2)(p := None)\<rparr>)"
    using s1(1) s2(1) get_stream_ok [OF ok(2)] by (simp add: release_stream_each)
  then show ?thesis using s1 s2 b2 more_stream [OF b2(2)]
    by (intro exI [of _ "s2\<lparr>streams := (streams s2)(p := None)\<rparr>"]) (auto simp: stream_blocks_def)
qed

text \<open>
  \<open>created s s' p x\<close>: between \<open>s\<close> and \<open>s'\<close> the stream \<open>x\<close> has been made at \<open>p\<close>, in
  blocks that were not live, and everything live before is as it was.
\<close>

definition created :: "'z stream_state_scheme \<Rightarrow> 'z stream_state_scheme \<Rightarrow> loc \<Rightarrow> tcp_stream \<Rightarrow> bool" where
  "created s s' p x \<longleftrightarrow> mem_ok s' \<and> stream_ok s' p x \<and>
     live s' = live s \<union> stream_blocks s' p x \<and> stream_blocks s' p x \<inter> live s = {} \<and>
     (\<forall>q \<in> live s. block_bytes s' q = block_bytes s q \<and> bufs s' q = bufs s q \<and> streams s' q = streams s q) \<and>
     write_env s' = write_env s \<and> read_env s' = read_env s \<and> sent s' = sent s \<and> clock s' = clock s \<and>
     jconns s' = jconns s \<and> clinks s' = clinks s \<and> g_connect_pool s' = g_connect_pool s \<and>
     closed_fds s' = closed_fds s \<and> stream_state.more s' = stream_state.more s"

lemma buf_zero:
  assumes ok: "mem_ok s" "buf_ok s b" and B: "bufs s b = Some B" "data_len B = 0"
  shows "\<exists>s'. mem_store (buffer B) 0 [0] s = Inr s' \<and> mem_ok s' \<and> buf_ok s' b \<and> live s' = live s \<and>
    bufs s' = bufs s \<and> buf_state.more s' = buf_state.more s \<and> malloc_left s' = malloc_left s \<and>
    (\<forall>q. q \<noteq> buffer B \<longrightarrow> block_bytes s' q = block_bytes s q) \<and>
    length (block_bytes s' (buffer B)) = length (block_bytes s (buffer B))"
proof -
  have own: "buffer B \<in> live s" "0 < unat (buf_len B)" "unat (buf_len B) \<le> length (block_bytes s (buffer B))"
    using ok(2) B by (auto simp: buf_ok_def unat_gt_0 word_gt_0)
  then obtain s' where s': "mem_store (buffer B) 0 [0] s = Inr s'" "mem_ok s'" "live s' = live s"
    "block_bytes s' = (block_bytes s)(buffer B := splice 0 [0] (block_bytes s (buffer B)))"
    "mem_state.more s' = mem_state.more s"
    using mem.store_law [OF ok(1) own(1), of 0 "[0]"] by auto
  have "bufs s' = bufs s" "buf_state.more s' = buf_state.more s" using mem_more_buf [OF s'(5)] by auto
  moreover have "length (splice 0 [0] (block_bytes s (buffer B))) = length (block_bytes s (buffer B))"
    using own by (intro length_splice) simp
  moreover have "malloc_left s' = malloc_left s"
    using s'(1) by (auto simp: mem_store_def set_entry_def res_simps)
  ultimately show ?thesis using s' ok(2) B by (auto simp: buf_ok_def)
qed

lemma stream_create_returns:
  assumes ok: "mem_ok s" and run: "stream_create sock s = Inr (p, s')"
  shows "\<exists>x. created s s' p x \<and> server_sock x = sock \<and> work_buf x = Null \<and> \<not> server_closed x \<and>
    data_in x = 0 \<and> buf_bytes s' (in_buf x) = [] \<and> buf_bytes s' (out_buf x) = [] \<and>
    buf_room s' (in_buf x) = 8192 \<and> malloc_left s - 5 \<le> malloc_left s'"
proof -
  obtain s1 b s2 B s3 c s4 where al: "mem_alloc (Some ''stream'') sizeof_tcp_stream s = Inr (p, s1)"
    and new1: "buf_new ''http_stream_in_buf'' ''http_stream_in_buf_data'' cfg_http_buf_size s1 = Inr (b, s2)"
    and gB: "get_buf b s2 = Inr B" and st: "mem_store (buffer B) 0 [0] s2 = Inr s3"
    and new2: "buf_new ''http_stream_out_buf'' ''http_stream_out_buf_data_4'' mid_http_buf_size s3 = Inr (c, s4)"
    and s': "s' = set_stream p \<lparr>data_start = clock s4 div 1000, data_in = 0, data_out = 0, data_begin = clock s4,
        client_sock = 0, server_sock = sock, in_buf = b, out_buf = c, reply_body_size_left = 0, work_buf = Null,
        data_recved = 0, content_len = 0, server_closed = False\<rparr> s4" (is "_ = set_stream p ?x s4")
    using run by (auto simp: stream_create_def res_simps)
  note s1 = mem.alloc_law [OF ok al]
  have ok1: "mem_ok s1" and more1: "bufs s1 = bufs s" "buf_state.more s1 = buf_state.more s"
    using s1 mem_more_buf [of s1 s] by auto
  have cap: "(0 :: size_t) < cfg_http_buf_size" "(0 :: size_t) < mid_http_buf_size" by simp_all
  note n2 = buf_new_returns [OF ok1 cap(1) new1]
  have ok2: "mem_ok s2" "buf_ok s2 b" using n2 by auto
  have B: "bufs s2 b = Some B" "data_len B = 0"
    using n2 gB by (auto simp: get_buf_def split: if_splits)
  obtain s3' where z: "mem_store (buffer B) 0 [0] s2 = Inr s3'" "mem_ok s3'" "buf_ok s3' b" "live s3' = live s2"
    "bufs s3' = bufs s2" "buf_state.more s3' = buf_state.more s2" "malloc_left s3' = malloc_left s2"
    "\<forall>q. q \<noteq> buffer B \<longrightarrow> block_bytes s3' q = block_bytes s2 q"
    using buf_zero [OF ok2 B] by blast
  have s3: "s3 = s3'" using z(1) st by simp
  note n4 = buf_new_returns [OF z(2) cap(2) new2 [unfolded s3]]
  note o4 = buf_new_other [OF z(2) cap(2) new2 [unfolded s3] z(3)]
  have blocks_b: "buf_blocks s2 b = {b, buffer B}" "buf_blocks s3' b = {b, buffer B}" "buf_blocks s4 b = {b, buffer B}"
    using B z(5) o4 by (simp_all add: buf_blocks_def)
  have p: "p \<in> live s1" "p \<notin> live s" "live s1 = insert p (live s)" using s1 by auto
  have lives: "live s2 = live s1 \<union> {b, buffer B}" "{b, buffer B} \<inter> live s1 = {}"
    "live s4 = live s2 \<union> buf_blocks s4 c" "buf_blocks s4 c \<inter> live s2 = {}"
    using n2 n4 z(4) blocks_b by auto
  have bc: "b \<noteq> c" "buf_apart s4 c b" "buf_apart s4 b c" "b \<in> live s2" "c \<in> buf_blocks s4 c"
    using o4 n4 lives by (auto simp: buf_apart_def buf_blocks_def)
  have bytes: "buf_bytes s4 b = []" "buf_bytes s4 c = []" "buf_room s4 b = 8192"
    using o4 n4 B z(5) n2 by (auto simp: buf_bytes_def buf_room_def)
  have sok: "stream_ok s' p ?x"
    using lives p blocks_b bc o4 n4 by (auto simp: s' stream_ok_def stream_bufs_def)
  have sb: "stream_blocks s' p ?x = insert p (buf_blocks s4 b \<union> buf_blocks s4 c)"
    by (auto simp: s' stream_blocks_def stream_bufs_def)
  have keep: "block_bytes s' q = block_bytes s q \<and> bufs s' q = bufs s q" if q: "q \<in> live s" for q
  proof -
    have "q \<in> live s1" "q \<in> live s2" "q \<noteq> b" "q \<noteq> buffer B" "q \<noteq> c" using q p lives bc by auto
    then show ?thesis using q s1 n2 n4 z more1 by (simp add: s')
  qed
  have more: "buf_state.more s4 = buf_state.more s" using n4 z(6) n2 more1 by simp
  have "malloc_left s - 1 \<le> malloc_left s1" by (rule mem_alloc_left [OF ok al])
  moreover have "malloc_left s1 - 2 \<le> malloc_left s2" "malloc_left s2 - 2 \<le> malloc_left s4"
    using n2 n4 z(7) by auto
  ultimately have "malloc_left s - 5 \<le> malloc_left s4" by linarith
  then have left: "malloc_left s - 5 \<le> malloc_left s'" by (simp add: s')
  have "created s s' p ?x"
    unfolding created_def sb using sok lives p blocks_b keep more_stream [OF more] n4 by (auto simp: s')
  then show ?thesis using bytes left by (intro exI [of _ ?x]) (simp add: s')
qed

lemma stream_create_total:
  assumes ok: "mem_ok s" and left: "5 \<le> malloc_left s"
  shows "\<exists>p s'. stream_create sock s = Inr (p, s')"
proof -
  obtain p s1 where al: "mem_alloc (Some ''stream'') sizeof_tcp_stream s = Inr (p, s1)"
    using mem_alloc_total [OF ok, of sizeof_tcp_stream "Some ''stream''"] left by auto
  have ok1: "mem_ok s1" "malloc_left s - 1 \<le> malloc_left s1"
    using mem.alloc_law [OF ok al] mem_alloc_left [OF ok al] by auto
  have left1: "2 \<le> malloc_left s1" using ok1(2) left by linarith
  obtain b s2 where new1: "buf_new ''http_stream_in_buf'' ''http_stream_in_buf_data'' cfg_http_buf_size s1 = Inr (b, s2)"
    using buf_new_total [OF ok1(1) _ left1, of cfg_http_buf_size "''http_stream_in_buf''" "''http_stream_in_buf_data''"]
    by auto
  have n2: "mem_ok s2" "buf_ok s2 b" "malloc_left s1 - 2 \<le> malloc_left s2"
    "\<exists>d. bufs s2 b = Some \<lparr>buffer = d, buf_len = cfg_http_buf_size, data_len = 0\<rparr>"
    using buf_new_returns [OF ok1(1) _ new1] by auto
  obtain B where B: "bufs s2 b = Some B" "data_len B = 0" "get_buf b s2 = Inr B"
    using n2(4) buf_ok_get [OF n2(2)] by auto
  obtain s3 where z: "mem_store (buffer B) 0 [0] s2 = Inr s3" "mem_ok s3" "malloc_left s3 = malloc_left s2"
    using buf_zero [OF n2(1,2) B(1,2)] by blast
  have left3: "2 \<le> malloc_left s3" using z(3) n2(3) ok1(2) left by linarith
  obtain c s4 where "buf_new ''http_stream_out_buf'' ''http_stream_out_buf_data_4'' mid_http_buf_size s3 = Inr (c, s4)"
    using buf_new_total [OF z(2) _ left3, of mid_http_buf_size "''http_stream_out_buf''" "''http_stream_out_buf_data_4''"]
    by auto
  then show ?thesis using al new1 B(3) z(1) by (simp add: stream_create_def)
qed

lemma buf_ok_blocks: "buf_ok s b \<Longrightarrow> b \<in> buf_blocks s b \<and> buf_blocks s b \<subseteq> live s"
  by (auto simp: buf_ok_def buf_blocks_def)

lemma stream_blocks_live: "stream_ok s p x \<Longrightarrow> stream_blocks s p x \<subseteq> live s"
  using buf_ok_blocks unfolding stream_ok_def stream_blocks_def by fast

lemma stream_bufs_blocks: "stream_ok s p x \<Longrightarrow> set (stream_bufs x) \<subseteq> stream_blocks s p x"
  using buf_ok_blocks unfolding stream_ok_def stream_blocks_def by fast

lemma created_frame:
  assumes cr: "created s s1 p x" and fr: "stream_frame s1 s2 p x" and ok: "mem_ok s2" "stream_ok s2 p x"
    and env: "write_env s2 = write_env s1" "read_env s2 = read_env s1" "sent s2 = sent s1"
  shows "created s s2 p x"
proof -
  have s1: "stream_ok s1 p x" "live s1 - stream_blocks s1 p x = live s" using cr by (auto simp: created_def)
  have l2: "live s2 - stream_blocks s2 p x = live s" using fr s1(2) by (simp add: stream_frame_def)
  have new: "q \<notin> stream_blocks s1 p x" "q \<notin> set (stream_bufs x)" "q \<noteq> p" if "q \<in> live s" for q
    using that cr stream_bufs_blocks [OF s1(1)] by (auto simp: created_def stream_blocks_def)
  have "live s2 = live s \<union> stream_blocks s2 p x" "stream_blocks s2 p x \<inter> live s = {}"
    using l2 stream_blocks_live [OF ok(2)] by auto
  moreover have "block_bytes s2 q = block_bytes s q \<and> bufs s2 q = bufs s q \<and> streams s2 q = streams s q"
    if "q \<in> live s" for q
    using that new [OF that] cr fr s1(2) by (auto simp: created_def stream_frame_def)
  ultimately show ?thesis using cr fr ok env by (simp add: created_def stream_frame_def)
qed

text \<open>Appending to \<open>in_buf\<close> of a stream that has just been made.\<close>

lemma created_put:
  assumes cr: "created s s1 p x" and real: "length data < 2 ^ 63"
    and run: "buf_put (in_buf x) data len s1 = Inr (r, s2)"
  shows "created s s2 p x \<and> buf_bytes s2 (in_buf x) = buf_bytes s1 (in_buf x) @ take (unat len) data \<and>
    buf_bytes s2 (out_buf x) = buf_bytes s1 (out_buf x)"
proof -
  have ok: "mem_ok s1" "stream_ok s1 p x" using cr by (simp_all add: created_def)
  note put = buf_put_returns [OF ok(1) stream_ok_bufs(1) [OF ok(2)] real run]
  have b: "in_buf x \<in> set (stream_bufs x)" "out_buf x \<in> set (stream_bufs x)" by (simp_all add: stream_bufs_def)
  have "in_buf x \<noteq> out_buf x" using ok(2) by (simp add: stream_ok_def stream_bufs_def)
  note st = stream_buf_step [OF ok b(1)] put
  have more: "buf_state.more s2 = buf_state.more s1" using put by (simp add: buf_step_def)
  have "created s s2 p x" using st more_stream [OF more] by (intro created_frame [OF cr]) auto
  then show ?thesis using st b \<open>in_buf x \<noteq> out_buf x\<close> by auto
qed

lemma created_set: "created s s1 p x \<Longrightarrow> created s (set_stream p x s1) p x"
  using stream_ok_set [of s1 p x x] by (auto simp: created_def stream_blocks_def)

lemma new_transaction_returns:
  assumes ok: "mem_ok s" and run: "new_transaction_stream sock pre msg ret s = Inr (p, s')"
    and real: "length pre < 2 ^ 63" "length msg < 2 ^ 63"
  shows "\<exists>x. created s s' p x \<and> server_sock x = sock \<and> work_buf x = Null \<and>
    buf_bytes s' (in_buf x) = take 8 pre @ take (unat (scast ret :: size_t)) msg \<and> buf_bytes s' (out_buf x) = []"
proof -
  obtain s1 x s2 s3 r1 r2 where c: "stream_create sock s = Inr (p, s1)" and g: "get_stream p s1 = Inr x"
    and p1: "buf_put (in_buf x) pre 8 (set_stream p (x\<lparr>server_closed := False\<rparr>) s1) = Inr (r1, s2)"
    and p2: "buf_put (in_buf x) msg (scast ret) s2 = Inr (r2, s')"
    using run by (auto simp: new_transaction_stream_def Let_def res_simps)
  obtain x' where x': "created s s1 p x'" "server_sock x' = sock" "work_buf x' = Null" "\<not> server_closed x'"
    "buf_bytes s1 (in_buf x') = []" "buf_bytes s1 (out_buf x') = []"
    using stream_create_returns [OF ok c] by blast
  have "get_stream p s1 = Inr x'" using x'(1) get_stream_ok by (auto simp: created_def)
  then have x: "x' = x" using g by simp
  have "x\<lparr>server_closed := False\<rparr> = x" using x'(4) x by simp
  then have p1': "buf_put (in_buf x) pre 8 (set_stream p x s1) = Inr (r1, s2)" using p1 by simp
  have c1: "created s (set_stream p x s1) p x" using x'(1) x created_set by simp
  note q1 = created_put [OF c1 real(1) p1']
  note q2 = created_put [OF conjunct1 [OF q1] real(2) p2]
  show ?thesis using q1 q2 x' x by (intro exI [of _ x]) simp
qed

lemma new_transaction_total:
  assumes ok: "mem_ok s" and left: "5 \<le> malloc_left s"
    and pre: "8 \<le> length pre" "length pre < 2 ^ 63" and msg: "unat (scast ret :: size_t) \<le> length msg"
    and fits: "8 + unat (scast ret :: size_t) \<le> 8192"
  shows "\<exists>p s'. new_transaction_stream sock pre msg ret s = Inr (p, s')"
proof -
  obtain p s1 where c: "stream_create sock s = Inr (p, s1)" using stream_create_total [OF ok left] by blast
  obtain x where x: "created s s1 p x" "\<not> server_closed x" "buf_room s1 (in_buf x) = 8192"
    using stream_create_returns [OF ok c] by blast
  let ?s1 = "set_stream p x s1"
  have same: "x\<lparr>server_closed := False\<rparr> = x" using x(2) by simp
  have ok1: "mem_ok ?s1" "buf_ok ?s1 (in_buf x)" "get_stream p s1 = Inr x"
    using x(1) stream_ok_bufs get_stream_ok by (auto simp: created_def)
  obtain s2 where p1: "buf_put (in_buf x) pre 8 ?s1 = Inr (0, s2)" "buf_step ?s1 s2 (in_buf x)"
    "buf_room s2 (in_buf x) = 8184"
    using buf_put_room [OF ok1(1,2), of 8 pre] pre x(3) by auto
  have ok2: "mem_ok s2" "buf_ok s2 (in_buf x)" using p1(2) by (simp_all add: buf_step_def)
  obtain s3 where "buf_put (in_buf x) msg (scast ret) s2 = Inr (0, s3)"
    using buf_put_fits [OF ok2, of "scast ret" msg] p1(3) msg fits by auto
  then show ?thesis using c ok1(3) p1(1) same by (simp add: new_transaction_stream_def Let_def)
qed

lemma live_not_null: "mem_ok s \<Longrightarrow> p \<in> live s \<Longrightarrow> p \<noteq> Null"
  using mem_rep_dom by (fastforce simp: mem_ok_def live_def)

text \<open>Making and releasing a stream gives back all that it took.\<close>

lemma created_released:
  assumes cr: "created s s1 p x"
  shows "\<exists>s2. release_stream p s1 = Inr s2 \<and> mem_ok s2 \<and> live s2 = live s \<and> streams s2 p = None \<and>
    (\<forall>q \<in> live s. block_bytes s2 q = block_bytes s q \<and> bufs s2 q = bufs s q \<and> streams s2 q = streams s q)"
proof -
  have ok: "mem_ok s1" "stream_ok s1 p x" using cr by (simp_all add: created_def)
  have p: "p \<in> stream_blocks s1 p x" by (simp add: stream_blocks_def)
  from release_stream_ok [OF ok] obtain s2 where s2: "release_stream p s1 = Inr s2" "mem_ok s2"
    "live s2 = live s1 - stream_blocks s1 p x" "block_bytes s2 = block_bytes s1"
    "\<forall>c. c \<notin> set (stream_bufs x) \<longrightarrow> bufs s2 c = bufs s1 c" "streams s2 = (streams s1)(p := None)" by blast
  have lv: "live s2 = live s" using s2(3) cr by (auto simp: created_def)
  have "block_bytes s2 q = block_bytes s q \<and> bufs s2 q = bufs s q \<and> streams s2 q = streams s q"
    if q: "q \<in> live s" for q
  proof -
    have "q \<notin> stream_blocks s1 p x" using q cr by (auto simp: created_def)
    then have "q \<notin> set (stream_bufs x)" "q \<noteq> p" using stream_bufs_blocks [OF ok(2)] p by auto
    then show ?thesis using q s2(4-6) cr by (simp add: created_def)
  qed
  then show ?thesis using s2(1,2,6) lv by auto
qed

text \<open>A state with nothing allocated, for examples.\<close>

definition boot_fields :: "nat outcome list \<Rightarrow> byte list outcome list \<Rightarrow> stream_state" where
  "boot_fields w r = stream_state.make boot_node (\<lambda>_. None) [] 0 0 (\<lambda>_. None)
     ((\<lambda>_. None)(g_jconnect \<mapsto> \<lparr>nxt = g_jconnect, prev = g_jconnect\<rparr>)) (\<lambda>_. None)
     \<lparr>max_connects = 10, max_alive_times = 60, max_txn = 100, current_total = 0\<rparr> [] (\<lambda>_. None) w r [] 0"

lemma boot_stream:
  "\<exists>s :: stream_state. mem_ok s \<and> live s = {} \<and> malloc_left s = n \<and> write_env s = w \<and> read_env s = r \<and>
     sent s = [] \<and> streams s = (\<lambda>_. None)"
proof -
  obtain s :: stream_state where s: "mem_rep s (\<lambda>_. [])" "malloc_left s = n"
    "mem_state.more s = mem_state.more (boot_fields w r)"
    using boot_mem_init [of n "mem_state.more (boot_fields w r)"] by auto
  have "buf_state.more s = buf_state.more (boot_fields w r)" using mem_more_buf [OF s(3)] by simp
  note more = more_stream [OF this]
  have "write_env s = w" "read_env s = r" "sent s = []" "streams s = (\<lambda>_. None)"
    using more by (simp_all add: boot_fields_def stream_state.defs)
  then show ?thesis using mem_rep_init_ok [OF s(1)] s(2) by blast
qed

lemma boot_transaction:
  "\<exists>(s0 :: stream_state) p s x. mem_ok s0 \<and> live s0 = {} \<and> malloc_left s0 = 6 \<and>
     new_transaction_stream 5 (replicate 8 1) [2, 3] 2 s0 = Inr (p, s) \<and>
     created s0 s p x \<and> server_sock x = 5 \<and> buf_bytes s (in_buf x) = replicate 8 1 @ [2, 3] \<and>
     buf_bytes s (out_buf x) = [] \<and> write_env s = w \<and> read_env s = r \<and> sent s = []"
proof -
  obtain s0 :: stream_state where s0: "mem_ok s0" "live s0 = {}" "malloc_left s0 = 6" "write_env s0 = w"
    "read_env s0 = r" "sent s0 = []" using boot_stream by blast
  have two: "unat (scast (2 :: 32 word) :: size_t) = 2" by simp
  obtain p s where run: "new_transaction_stream 5 (replicate 8 1) [2, 3] 2 s0 = Inr (p, s)"
    using new_transaction_total [OF s0(1), of "replicate 8 1" 2 "[2, 3]" 5] s0(3) two by auto
  obtain x where x: "created s0 s p x" "server_sock x = 5" "buf_bytes s (out_buf x) = []"
    "buf_bytes s (in_buf x) = take 8 (replicate 8 1) @ take (unat (scast (2 :: 32 word) :: size_t)) [2, 3]"
    using new_transaction_returns [OF s0(1) run] by auto
  have "write_env s = w" "read_env s = r" "sent s = []"
    using x(1) s0(4-6) by (simp_all add: created_def)
  moreover have "buf_bytes s (in_buf x) = replicate 8 1 @ [2, 3]" using x(4) unfolding two by simp
  ultimately show ?thesis using s0(1-3) run x(1-3) by blast
qed

section \<open>Properties\<close>

text \<open>
  C26. Whatever the network does, \<open>stream_flush_out\<close> loses, repeats and reorders nothing: the
  bytes that went out on the socket of the stream, followed by those still in \<open>in_buf\<close>, are
  the bytes \<open>in_buf\<close> held before. It returns the number of bytes sent or -1, and changes
  nothing else of the stream and no other block, buffer or stream. The only other outcome is
  that it still waits when the network has nothing more to say.
\<close>

theorem stream_flush_conserves:
  assumes "mem_ok s" and "stream_ok s p x"
  shows "(\<exists>r s' chunks. stream_flush_out p sz s = Inr (r, s') \<and>
      sent s' = sent s @ map (Pair (server_sock x)) chunks \<and>
      concat chunks @ buf_bytes s' (in_buf x) = buf_bytes s (in_buf x) \<and>
      (r = int (length (concat chunks)) \<or> r = - 1) \<and>
      mem_ok s' \<and> stream_ok s' p x \<and> stream_frame s s' p x \<and>
      buf_bytes s' (out_buf x) = buf_bytes s (out_buf x)) \<or>
    stream_flush_out p sz s = Inl Stuck"
proof (cases "stream_flush_out p sz s")
  case (Inl e)
  then show ?thesis using stream_flush_out_returns [OF assms, of sz] by simp
next
  case (Inr rs)
  obtain r s' where rs: "rs = (r, s')" by fastforce
  obtain k where f: "flushed s s' p x k" and r: "r = - 1 \<or> r = int k"
    using stream_flush_out_returns [OF assms, of sz] Inr rs by auto
  obtain chunks where ch: "sent s' = sent s @ map (Pair (server_sock x)) chunks"
    "concat chunks = take k (buf_bytes s (in_buf x))" using f by (auto simp: flushed_def)
  have "buf_bytes s' (out_buf x) = buf_bytes s (out_buf x)" by (rule flushed_out_buf [OF assms(2) f])
  moreover have "concat chunks @ buf_bytes s' (in_buf x) = buf_bytes s (in_buf x)"
    using ch(2) flushed_ok(3) [OF f] by simp
  moreover have "length (concat chunks) = k" using ch(2) f by (simp add: flushed_def)
  moreover have "mem_ok s'" "stream_ok s' p x" "stream_frame s s' p x" using f by (simp_all add: flushed_def)
  moreover have "stream_flush_out p sz s = Inr (r, s')" using Inr rs by simp
  ultimately show ?thesis using ch(1) r by blast
qed

theorem stream_flush_conserves_witness:
  "\<exists>(s :: stream_state) p x. stream_ok s p x \<and> buf_bytes s (in_buf x) = replicate 8 1 @ [2, 3] \<and>
     ((\<exists>r s' chunks. stream_flush_out p (- 1) s = Inr (r, s') \<and> sent s' = map (Pair 5) chunks \<and>
        concat chunks @ buf_bytes s' (in_buf x) = replicate 8 1 @ [2, 3]) \<or>
      stream_flush_out p (- 1) s = Inl Stuck)"
proof -
  obtain s :: stream_state and s0 p x where s: "created s0 s p x" "server_sock x = 5"
    "buf_bytes s (in_buf x) = replicate 8 1 @ [2, 3]" "sent s = []"
    using boot_transaction [of "[Done 3]" "[]"] by blast
  have ok: "mem_ok s" "stream_ok s p x" using s(1) by (simp_all add: created_def)
  from stream_flush_conserves [OF ok, of "- 1"] s(2-4) have
    "(\<exists>r s' chunks. stream_flush_out p (- 1) s = Inr (r, s') \<and> sent s' = map (Pair 5) chunks \<and>
        concat chunks @ buf_bytes s' (in_buf x) = replicate 8 1 @ [2, 3]) \<or>
      stream_flush_out p (- 1) s = Inl Stuck" by auto
  with ok(2) s(3) show ?thesis by blast
qed

text \<open>The whole of \<open>in_buf\<close> is asked for with the size -1, as the client does.\<close>

lemma stream_flush_out_whole:
  assumes ok: "mem_ok s" "stream_ok s p x" and sock: "0 \<le> server_sock x"
  shows "stream_flush_out p (- 1) s = flush_loop p (int (length (buf_bytes s (in_buf x)))) 0 s"
proof -
  have b: "buf_ok s (in_buf x)" by (rule stream_ok_bufs [OF ok(2)])
  obtain n where n: "buf_data_size (in_buf x) s = Inr n" "unat n = length (buf_bytes s (in_buf x))"
    using buf_size [OF b] by blast
  have le: "unat n \<le> 2 ^ 20" using n(2) buf_bytes_bound [OF ok(1) b] by simp
  show ?thesis using n sint_ucast_small [OF le] sock get_stream_ok [OF ok(2)]
    by (simp add: stream_flush_out_def Let_def)
qed

text \<open>
  C27. \<open>stream_flush_out(s, -1)\<close> delivers: when every \<open>write\<close> accepts at least a byte or is
  interrupted, and the writes together accept as many bytes as \<open>in_buf\<close> holds, the loop ends,
  all bytes have gone out in order, \<open>in_buf\<close> is empty and their number is returned.
\<close>

theorem stream_flush_delivers:
  assumes "mem_ok s" and "stream_ok s p x" and "0 \<le> server_sock x"
    and "list_all willing (write_env s)"
    and "length (buf_bytes s (in_buf x)) \<le> sum_list (map takes (write_env s))"
  shows "\<exists>s' chunks. stream_flush_out p (- 1) s = Inr (int (length (buf_bytes s (in_buf x))), s') \<and>
    sent s' = sent s @ map (Pair (server_sock x)) chunks \<and> concat chunks = buf_bytes s (in_buf x) \<and>
    buf_bytes s' (in_buf x) = [] \<and> mem_ok s' \<and> stream_ok s' p x \<and> stream_frame s s' p x"
proof -
  let ?b = "buf_bytes s (in_buf x)"
  obtain s' where s': "flush_loop p (int (length ?b)) 0 s = Inr (int (length ?b), s')"
    "flushed s s' p x (length ?b)"
    using flush_loop_all [OF assms(1,2), of "int (length ?b)" 0] assms(4,5) by auto
  obtain chunks where "sent s' = sent s @ map (Pair (server_sock x)) chunks" "concat chunks = ?b"
    using s'(2) by (auto simp: flushed_def)
  moreover have "buf_bytes s' (in_buf x) = []" using flushed_ok(3) [OF s'(2)] by simp
  moreover have "stream_flush_out p (- 1) s = Inr (int (length ?b), s')"
    using stream_flush_out_whole [OF assms(1-3)] s'(1) by simp
  moreover have "stream_frame s s' p x" using s'(2) by (simp add: flushed_def)
  ultimately show ?thesis using flushed_ok(1,2) [OF s'(2)] by blast
qed

theorem stream_flush_delivers_witness:
  "\<exists>(s :: stream_state) p (x :: tcp_stream) s'. buf_bytes s (in_buf x) = replicate 8 1 @ [2, 3] \<and>
     stream_flush_out p (- 1) s = Inr (10, s') \<and> buf_bytes s' (in_buf x) = []"
proof -
  obtain s :: stream_state and s0 p x where s: "created s0 s p x" "server_sock x = 5"
    "buf_bytes s (in_buf x) = replicate 8 1 @ [2, 3]" "write_env s = [Done 3, Error EINTR, Done 9]"
    using boot_transaction [of "[Done 3, Error EINTR, Done 9]" "[]"] by blast
  have ok: "mem_ok s" "stream_ok s p x" using s(1) by (simp_all add: created_def)
  have "list_all willing (write_env s)" "length (buf_bytes s (in_buf x)) \<le> sum_list (map takes (write_env s))"
    unfolding s(3,4) by (simp_all add: willing_def takes_def)
  from stream_flush_delivers [OF ok _ this] s(2) obtain s' where
    "stream_flush_out p (- 1) s = Inr (int (length (buf_bytes s (in_buf x))), s')"
    "buf_bytes s' (in_buf x) = []" by auto
  moreover have "int (length (buf_bytes s (in_buf x))) = 10" using s(3) by simp
  ultimately have "stream_flush_out p (- 1) s = Inr (10, s')" "buf_bytes s' (in_buf x) = []" by simp_all
  with s(3) show ?thesis by blast
qed



text \<open>
  C29. When \<open>new_transaction_stream\<close> returns, it has made a stream in fresh blocks, everything
  that was live before is as it was, and \<open>in_buf\<close> holds the frame of the protocol: the eight
  bytes of the prefix followed by the first \<open>compress_ret\<close> bytes of the message. It does return
  when five blocks can be allocated, both texts are long enough to be read and the frame fits
  the 8 KB that \<open>in_buf\<close> starts with.
\<close>

theorem new_transaction_frames:
  assumes "mem_ok s" and "length pre < 2 ^ 63" and "length msg < 2 ^ 63"
  shows "(\<forall>p s'. new_transaction_stream sock pre msg ret s = Inr (p, s') \<longrightarrow>
      (\<exists>x. created s s' p x \<and> server_sock x = sock \<and> work_buf x = Null \<and>
        buf_bytes s' (in_buf x) = take 8 pre @ take (unat (scast ret :: size_t)) msg \<and>
        buf_bytes s' (out_buf x) = [])) \<and>
    (5 \<le> malloc_left s \<and> 8 \<le> length pre \<and> unat (scast ret :: size_t) \<le> length msg \<and>
      8 + unat (scast ret :: size_t) \<le> 8192 \<longrightarrow>
      (\<exists>p s'. new_transaction_stream sock pre msg ret s = Inr (p, s')))"
  using new_transaction_returns [OF assms(1) _ assms(2,3)] new_transaction_total [OF assms(1) _ _ assms(2)]
  by blast

theorem new_transaction_frames_witness:
  "\<exists>(s :: stream_state) p s' x. new_transaction_stream 5 (replicate 8 1) [2, 3] 2 s = Inr (p, s') \<and>
     created s s' p x \<and> buf_bytes s' (in_buf x) = replicate 8 1 @ [2, 3]"
proof -
  obtain s :: stream_state where s: "mem_ok s" "malloc_left s = 6" using boot_stream by blast
  have two: "unat (scast (2 :: 32 word) :: size_t) = 2" by simp
  have len: "length (replicate 8 1 :: byte list) < 2 ^ 63" "length [2, 3 :: byte] < 2 ^ 63" by simp_all
  note c = new_transaction_frames [OF s(1) len, of 5 2, unfolded two]
  from c s(2) obtain p s' where run: "new_transaction_stream 5 (replicate 8 1) [2, 3] 2 s = Inr (p, s')" by auto
  with c obtain x where x: "created s s' p x"
    "buf_bytes s' (in_buf x) = take 8 (replicate 8 1) @ take 2 [2, 3]" by blast
  have "take 8 (replicate 8 1) @ take 2 [2, 3] = replicate 8 1 @ [2, 3 :: byte]" by simp
  with x run show ?thesis by metis
qed

text \<open>
  C30. A transaction leaks nothing: whatever was sent in between, releasing a stream returns
  exactly its blocks to the pools, and for a stream just made what is live afterwards is what was
  live before, with the same contents.
\<close>

theorem new_free_no_leak:
  assumes "mem_ok s" and "length pre < 2 ^ 63" and "length msg < 2 ^ 63"
    and "new_transaction_stream sock pre msg ret s = Inr (p, s1)"
  shows "\<exists>x s2. stream_ok s1 p x \<and> free_transaction_stream p s1 = Inr s2 \<and> mem_ok s2 \<and> live s2 = live s \<and>
    streams s2 p = None \<and>
    (\<forall>q \<in> live s. block_bytes s2 q = block_bytes s q \<and> bufs s2 q = bufs s q \<and> streams s2 q = streams s q)"
proof -
  obtain x where x: "created s s1 p x" using new_transaction_returns [OF assms(1,4,2,3)] by blast
  have ok: "stream_ok s1 p x" using x by (simp add: created_def)
  have "p \<noteq> Null" using x live_not_null [of s1 p] unfolding created_def stream_ok_def by blast
  let ?x = "x\<lparr>server_sock := - 1\<rparr>"
  have "created s (set_stream p ?x s1) p ?x"
    using x stream_ok_set(1) [OF ok, of ?x] by (simp add: created_def stream_blocks_def stream_bufs_def)
  then obtain s2 where s2: "release_stream p (set_stream p ?x s1) = Inr s2" "mem_ok s2" "live s2 = live s"
    "streams s2 p = None"
    "\<forall>q \<in> live s. block_bytes s2 q = block_bytes s q \<and> bufs s2 q = bufs s q \<and> streams s2 q = streams s q"
    using created_released by blast
  have "free_transaction_stream p s1 = Inr s2"
    using s2(1) \<open>p \<noteq> Null\<close> get_stream_ok [OF ok] by (simp add: free_transaction_stream_def)
  then show ?thesis using ok s2(2-5) by blast
qed

theorem new_free_no_leak_witness:
  "\<exists>(s :: stream_state) p s1 s2. new_transaction_stream 5 (replicate 8 1) [2, 3] 2 s = Inr (p, s1) \<and>
     live s1 \<noteq> {} \<and> free_transaction_stream p s1 = Inr s2 \<and> live s2 = {}"
proof -
  obtain s0 s :: stream_state and p x where s: "mem_ok s0" "live s0 = {}" "created s0 s p x"
    and run: "new_transaction_stream 5 (replicate 8 1) [2, 3] 2 s0 = Inr (p, s)"
    using boot_transaction by metis
  have len: "length (replicate 8 1 :: byte list) < 2 ^ 63" "length [2, 3 :: byte] < 2 ^ 63" by simp_all
  from new_free_no_leak [OF s(1) len run] s(2) obtain s2 where
    "free_transaction_stream p s = Inr s2" "live s2 = {}" by auto
  moreover have "live s \<noteq> {}" using s(3) by (auto simp: created_def stream_ok_def)
  ultimately show ?thesis using run by blast
qed

end
