(* ===== verification/Event.thy ===== *)
theory Event
  imports Stream
begin

text \<open>
  The event table of \<open>event.c\<close> and \<open>event.h\<close>: the slots of \<open>g_events\<close>, their
  registration with \<open>epoll\<close>, and the timeout sweep.

  A pointer to a slot is its index, \<open>None\<close> for NULL. The kernel side of an \<open>epoll\<close>
  instance is \<open>interest\<close>, the map from the registered descriptors to their event mask and
  data; as documented, \<open>EPOLL_CTL_ADD\<close> fails for a registered descriptor and the other two
  operations fail for one that is not, and a failed call changes nothing. The call backs are
  named by a datatype. The lemmas give the invariant that ties a slot in use to its connection,
  its stream and its registration, and show that the sweep visits every slot.
\<close>

section \<open>State\<close>

text \<open>The functions whose addresses are stored in a slot.\<close>

datatype callback = No_callback | Connect_cb | Keepalive_cb | Data_transfer | Accept_conn

datatype timeout_handler = No_handler | Timeout_callback

record myevent_s =
  ev_fd :: int
  ev_events :: uint32
  ev_arg :: nat
  call_back :: callback
  ev_status :: int
  last_active :: int
  thandler :: timeout_handler
  ev_jc :: loc

datatype epoll_data = Ptr nat | Fd int

datatype epoll_op = EPOLL_CTL_ADD | EPOLL_CTL_MOD | EPOLL_CTL_DEL

record event_state = stream_state +
  g_events :: "myevent_s list"
  interest :: "int \<Rightarrow> (uint32 \<times> epoll_data) option"

abbreviation (input) MAX_EVENTS :: nat where "MAX_EVENTS \<equiv> 1024"
abbreviation (input) EPOLLIN :: uint32 where "EPOLLIN \<equiv> 1"
abbreviation (input) EPOLLOUT :: uint32 where "EPOLLOUT \<equiv> 4"

unbundle bit_operations_syntax

definition time_now :: "'z stream_state_scheme \<Rightarrow> int" where
  "time_now s = clock s div 1000"

definition get_ev :: "nat \<Rightarrow> 'z event_state_scheme \<Rightarrow> myevent_s res" where
  "get_ev i s = bindE (accessE (i < length (g_events s))) (\<lambda>_. Inr (g_events s ! i))"

definition set_ev :: "nat \<Rightarrow> myevent_s \<Rightarrow> 'z event_state_scheme \<Rightarrow> 'z event_state_scheme" where
  "set_ev i e s = s\<lparr>g_events := (g_events s)[i := e]\<rparr>"

text \<open>The result of \<open>epoll_ctl\<close> is ignored by all callers.\<close>

definition epoll_ctl ::
  "epoll_op \<Rightarrow> int \<Rightarrow> uint32 \<Rightarrow> epoll_data \<Rightarrow> 'z event_state_scheme \<Rightarrow> 'z event_state_scheme" where
  "epoll_ctl op fd events d s = (case op of
      EPOLL_CTL_ADD \<Rightarrow> if interest s fd = None then s\<lparr>interest := (interest s)(fd \<mapsto> (events, d))\<rparr> else s
    | EPOLL_CTL_MOD \<Rightarrow> if interest s fd = None then s else s\<lparr>interest := (interest s)(fd \<mapsto> (events, d))\<rparr>
    | EPOLL_CTL_DEL \<Rightarrow> s\<lparr>interest := (interest s)(fd := None)\<rparr>)"

section \<open>Operations\<close>

text \<open>The loop of \<open>evget\<close>; \<open>None\<close> is the NULL pointer.\<close>

function evget_from :: "nat \<Rightarrow> int \<Rightarrow> 'z event_state_scheme \<Rightarrow> nat option res" where
  "evget_from i fd s =
     (if i < MAX_EVENTS then
        bindE (get_ev i s) (\<lambda>e.
        if ev_status e = 0 \<and> fd = - 1 then Inr (Some i)
        else if fd \<noteq> - 1 \<and> ev_jc e \<noteq> Null then
          bindE (get_conn (ev_jc e) s) (\<lambda>c. if jc_fd c = fd then Inr (Some i) else evget_from (Suc i) fd s)
        else evget_from (Suc i) fd s)
      else Inr None)"
  by pat_completeness auto
termination
  by (relation "measure (\<lambda>(i, fd, s). MAX_EVENTS - i)") auto

declare evget_from.simps [simp del]

definition evget :: "int \<Rightarrow> 'z event_state_scheme \<Rightarrow> nat option res" where
  "evget fd s = evget_from 0 fd s"

definition eventset ::
  "nat option \<Rightarrow> loc \<Rightarrow> callback \<Rightarrow> nat option \<Rightarrow> 'z event_state_scheme \<Rightarrow> 'z event_state_scheme res" where
  "eventset ev jc cb arg s = (case ev of
      None \<Rightarrow> Inl Invalid_access
    | Some i \<Rightarrow>
        bindE (get_ev i s) (\<lambda>e.
        bindE (get_conn jc s) (\<lambda>c.
        Inr (set_ev i (e\<lparr>ev_jc := jc, ev_fd := jc_fd c, call_back := cb, ev_events := 0,
          ev_arg := (case arg of None \<Rightarrow> 0 | Some a \<Rightarrow> a), ev_status := 0, last_active := time_now s\<rparr>) s))))"

definition event_reset_cb :: "nat option \<Rightarrow> callback \<Rightarrow> 'z event_state_scheme \<Rightarrow> 'z event_state_scheme res" where
  "event_reset_cb ev cb s = (case ev of
      None \<Rightarrow> Inl Invalid_access
    | Some i \<Rightarrow> bindE (get_ev i s) (\<lambda>e. Inr (set_ev i (e\<lparr>call_back := cb\<rparr>) s)))"

definition eventadd :: "uint32 \<Rightarrow> nat option \<Rightarrow> 'z event_state_scheme \<Rightarrow> 'z event_state_scheme res" where
  "eventadd events ev s = (case ev of
      None \<Rightarrow> Inl Invalid_access
    | Some i \<Rightarrow>
        bindE (get_ev i s) (\<lambda>e.
        let e = e\<lparr>last_active := time_now s, ev_events := events\<rparr>;
            (op, e) = (if ev_status e = 1 then (EPOLL_CTL_MOD, e) else (EPOLL_CTL_ADD, e\<lparr>ev_status := 1\<rparr>)) in
        Inr (epoll_ctl op (ev_fd e) events (Ptr i) (set_ev i e s))))"

definition eventdel :: "nat \<Rightarrow> 'z event_state_scheme \<Rightarrow> 'z event_state_scheme res" where
  "eventdel i s =
     bindE (get_ev i s) (\<lambda>e.
     if ev_status e \<noteq> 1 then Inr s
     else Inr (epoll_ctl EPOLL_CTL_DEL (ev_fd e) 0 (Ptr i) (set_ev i (e\<lparr>ev_status := 0\<rparr>) s)))"

definition set_stream_event_in_out :: "nat \<Rightarrow> 'z event_state_scheme \<Rightarrow> 'z event_state_scheme res" where
  "set_stream_event_in_out i s =
     bindE (get_ev i s) (\<lambda>e.
     bindE (get_conn (ev_jc e) s) (\<lambda>c.
     bindE (assertE (jc_stream c \<noteq> Null)) (\<lambda>_.
     bindE (get_stream (jc_stream c) s) (\<lambda>x.
     if server_sock x < 0 then Inr s
     else
       bindE (buf_free_space (out_buf x) s) (\<lambda>room.
       bindE (buf_data_size (in_buf x) s) (\<lambda>pending.
       let rw_type = (if room > 0 then EPOLLIN else 0) OR (if pending > 0 then EPOLLOUT else 0) in
       eventadd rw_type (Some i) s))))))"

text \<open>The stream is released, the connection is not, and keeps its pointer to the stream.\<close>

definition close_stream :: "nat option \<Rightarrow> 'z event_state_scheme \<Rightarrow> 'z event_state_scheme res" where
  "close_stream ev s = (case ev of
      None \<Rightarrow> Inr s
    | Some i \<Rightarrow>
        bindE (get_ev i s) (\<lambda>e.
        if ev_jc e = Null then Inr s
        else
          bindE (get_conn (ev_jc e) s) (\<lambda>c.
          if jc_stream c = Null then Inr s
          else
            bindE (get_stream (jc_stream c) s) (\<lambda>x.
            bindE (if server_sock x \<ge> 0
                   then bindE (eventdel i s) (\<lambda>s.
                        Inr (set_stream (jc_stream c) (x\<lparr>server_sock := - 1\<rparr>) (close_fd (ev_fd e) s)))
                   else Inr s) (\<lambda>s.
            release_stream (jc_stream c) s)))))"

text \<open>One round of the sweep, for the slot \<open>checkpos\<close>.\<close>

definition expire_slot :: "int \<Rightarrow> int \<Rightarrow> nat \<Rightarrow> 'z event_state_scheme \<Rightarrow> 'z event_state_scheme res" where
  "expire_slot tnow except_fd checkpos s =
     bindE (get_ev checkpos s) (\<lambda>e.
     if ev_status e \<noteq> 1 then Inr s
     else if tnow - last_active e \<ge> 10 \<and> except_fd \<noteq> ev_fd e
     then bindE (eventdel checkpos s) (close_stream (Some checkpos))
     else Inr s)"

function expires_loop ::
  "nat \<Rightarrow> nat \<Rightarrow> int \<Rightarrow> int \<Rightarrow> 'z event_state_scheme \<Rightarrow> (nat \<times> 'z event_state_scheme) res" where
  "expires_loop i checkpos tnow except_fd s =
     (if i < MAX_EVENTS + 1 then
        let checkpos = (if checkpos = MAX_EVENTS then 0 else checkpos) in
        bindE (expire_slot tnow except_fd checkpos s) (expires_loop (i + 1) (checkpos + 1) tnow except_fd)
      else Inr (checkpos, s))"
  by pat_completeness auto
termination
  by (relation "measure (\<lambda>(i, checkpos, tnow, except_fd, s). MAX_EVENTS + 1 - i)") auto

declare expires_loop.simps [simp del]

definition expires_house_keeping ::
  "nat \<Rightarrow> int \<Rightarrow> int \<Rightarrow> 'z event_state_scheme \<Rightarrow> (nat \<times> 'z event_state_scheme) res" where
  "expires_house_keeping pos tnow except_fd s = expires_loop 0 pos tnow except_fd s"

section \<open>Streams that another operation leaves alone\<close>

definition keeps :: "'z stream_state_scheme \<Rightarrow> 'z stream_state_scheme \<Rightarrow> loc \<Rightarrow> tcp_stream \<Rightarrow> bool" where
  "keeps s s' p x \<longleftrightarrow> streams s' p = streams s p \<and> (\<forall>b \<in> set (stream_bufs x). bufs s' b = bufs s b) \<and>
     (\<forall>q \<in> stream_blocks s p x. q \<in> live s' \<and> block_bytes s' q = block_bytes s q)"

lemma keeps_ok:
  assumes ok: "stream_ok s p x" and k: "keeps s s' p x"
  shows "stream_ok s' p x" and "stream_blocks s' p x = stream_blocks s p x"
    and "\<forall>b \<in> set (stream_bufs x). buf_bytes s' b = buf_bytes s b"
proof -
  have sub: "buf_blocks s b \<subseteq> stream_blocks s p x" "p \<in> stream_blocks s p x" if "b \<in> set (stream_bufs x)" for b
    using that by (auto simp: stream_blocks_def)
  have same: "buf_blocks s' b = buf_blocks s b" if "b \<in> set (stream_bufs x)" for b
    using k that by (simp add: keeps_def buf_blocks_def)
  show bl: "stream_blocks s' p x = stream_blocks s p x"
    using same by (simp add: stream_blocks_def)
  have bo: "buf_ok s' b \<and> buf_bytes s' b = buf_bytes s b" if b: "b \<in> set (stream_bufs x)" for b
  proof -
    have o: "buf_ok s b" using ok b by (simp add: stream_ok_def)
    obtain B where B: "bufs s b = Some B" "get_buf b s = Inr B" using buf_ok_get [OF o] by blast
    have "b \<in> stream_blocks s p x" "buffer B \<in> stream_blocks s p x"
      using sub(1) [OF b] B(1) buf_ok_blocks [OF o] by (auto simp: buf_blocks_def)
    then have "b \<in> live s'" "buffer B \<in> live s'" "block_bytes s' (buffer B) = block_bytes s (buffer B)"
      "bufs s' b = Some B" using k b B(1) by (auto simp: keeps_def)
    then show ?thesis using o B(1) by (simp add: buf_ok_def buf_bytes_def)
  qed
  then show "\<forall>b \<in> set (stream_bufs x). buf_bytes s' b = buf_bytes s b" by blast
  have ap: "buf_apart s' b c" if "b \<in> set (stream_bufs x)" "c \<in> set (stream_bufs x)" "buf_apart s b c" for b c
    using that same by (simp add: buf_apart_def)
  have "p \<in> stream_blocks s p x" by (simp add: stream_blocks_def)
  then have "p \<in> live s'" "streams s' p = Some x" using k ok by (auto simp: keeps_def stream_ok_def)
  then show "stream_ok s' p x" using ok bo ap same unfolding stream_ok_def by simp
qed

lemma keeps_frame:
  assumes ok: "stream_ok s q y" and fr: "stream_frame s s' p x" and p: "stream_ok s p x"
    and apart: "stream_blocks s q y \<inter> stream_blocks s p x = {}"
  shows "keeps s s' q y"
proof -
  have q: "q \<in> stream_blocks s q y" "p \<in> stream_blocks s p x" by (simp_all add: stream_blocks_def)
  have "q \<noteq> p" using q apart by blast
  moreover have "b \<notin> set (stream_bufs x)" if "b \<in> set (stream_bufs y)" for b
    using that apart stream_bufs_blocks [OF ok] stream_bufs_blocks [OF p] by blast
  moreover have "r \<in> live s - stream_blocks s p x" if "r \<in> stream_blocks s q y" for r
    using that apart stream_blocks_live [OF ok] by blast
  ultimately show ?thesis using fr unfolding keeps_def stream_frame_def by blast
qed

lemma keeps_created:
  assumes ok: "stream_ok s q y" and cr: "created s s' p x"
  shows "keeps s s' q y"
proof -
  have sub: "stream_blocks s q y \<subseteq> live s" "set (stream_bufs y) \<subseteq> live s" "q \<in> live s"
    using stream_blocks_live [OF ok] stream_bufs_blocks [OF ok] ok by (auto simp: stream_ok_def)
  then show ?thesis using cr unfolding keeps_def created_def by blast
qed

section \<open>The invariant of the table\<close>

definition active :: "'z event_state_scheme \<Rightarrow> nat set" where
  "active s = {i. i < MAX_EVENTS \<and> ev_status (g_events s ! i) = 1}"

abbreviation slot_jc :: "'z event_state_scheme \<Rightarrow> nat \<Rightarrow> loc" where
  "slot_jc s i \<equiv> ev_jc (g_events s ! i)"

abbreviation slot_fd :: "'z event_state_scheme \<Rightarrow> nat \<Rightarrow> int" where
  "slot_fd s i \<equiv> ev_fd (g_events s ! i)"

text \<open>A slot in use: its connection \<open>c\<close>, its stream \<open>x\<close> and its registration agree.\<close>

definition slot_rep :: "'z event_state_scheme \<Rightarrow> nat \<Rightarrow> jconnect \<Rightarrow> tcp_stream \<Rightarrow> bool" where
  "slot_rep s i c x \<longleftrightarrow> slot_jc s i \<noteq> Null \<and> jconns s (slot_jc s i) = Some c \<and> stream_ok s (jc_stream c) x \<and>
     jc_fd c = slot_fd s i \<and> server_sock x = slot_fd s i \<and> 0 \<le> slot_fd s i \<and>
     interest s (slot_fd s i) = Some (ev_events (g_events s ! i), Ptr i)"

definition slot_blocks :: "'z event_state_scheme \<Rightarrow> nat \<Rightarrow> loc set" where
  "slot_blocks s i = (if i \<in> active s then (case jconns s (slot_jc s i) of
      None \<Rightarrow> {} | Some c \<Rightarrow> (case streams s (jc_stream c) of None \<Rightarrow> {} | Some x \<Rightarrow> stream_blocks s (jc_stream c) x))
    else {})"

definition table_ok :: "'z event_state_scheme \<Rightarrow> bool" where
  "table_ok s \<longleftrightarrow> mem_ok s \<and> length (g_events s) = MAX_EVENTS + 1 \<and>
     (\<forall>i \<in> active s. \<exists>c x. slot_rep s i c x) \<and>
     (\<forall>i \<in> active s. \<forall>j \<in> active s. i \<noteq> j \<longrightarrow> slot_jc s i \<noteq> slot_jc s j \<and> slot_blocks s i \<inter> slot_blocks s j = {}) \<and>
     live s = (\<Union>i. slot_blocks s i) \<and>
     (\<forall>d w k. interest s d = Some (w, Ptr k) \<longrightarrow> k = MAX_EVENTS \<or> k \<in> active s \<and> slot_fd s k = d)"

lemma slot_blocks_rep: "i \<in> active s \<Longrightarrow> slot_rep s i c x \<Longrightarrow> slot_blocks s i = stream_blocks s (jc_stream c) x"
  by (simp add: slot_blocks_def slot_rep_def stream_ok_def)

lemma table_pair:
  assumes "table_ok s" and "i \<in> active s" and "j \<in> active s" and "i \<noteq> j"
  shows "slot_jc s i \<noteq> slot_jc s j" and "slot_blocks s i \<inter> slot_blocks s j = {}"
proof -
  have "\<forall>i \<in> active s. \<forall>j \<in> active s. i \<noteq> j \<longrightarrow> slot_jc s i \<noteq> slot_jc s j \<and> slot_blocks s i \<inter> slot_blocks s j = {}"
    using assms(1) unfolding table_ok_def by (elim conjE)
  with assms(2-4) show "slot_jc s i \<noteq> slot_jc s j" "slot_blocks s i \<inter> slot_blocks s j = {}" by simp_all
qed

lemma table_rep: "table_ok s \<Longrightarrow> i \<in> active s \<Longrightarrow> \<exists>c x. slot_rep s i c x"
  by (simp add: table_ok_def)

lemma table_interest:
  "table_ok s \<Longrightarrow> interest s d = Some (w, Ptr k) \<Longrightarrow> k \<noteq> MAX_EVENTS \<Longrightarrow> k \<in> active s \<and> slot_fd s k = d"
  unfolding table_ok_def by blast

lemma slot_rep_unique: "slot_rep s i c x \<Longrightarrow> slot_rep s i c' x' \<Longrightarrow> c' = c \<and> x' = x"
  by (auto simp: slot_rep_def stream_ok_def)

text \<open>What an operation on the slot \<open>i\<close> must do to keep the invariant.\<close>

definition slot_step :: "'z event_state_scheme \<Rightarrow> 'z event_state_scheme \<Rightarrow> nat \<Rightarrow> bool" where
  "slot_step s s' i \<longleftrightarrow> mem_ok s' \<and> length (g_events s') = length (g_events s) \<and>
     (\<forall>j. j \<noteq> i \<longrightarrow> g_events s' ! j = g_events s ! j) \<and>
     (\<forall>j c x. j \<in> active s \<longrightarrow> j \<noteq> i \<longrightarrow> slot_rep s j c x \<longrightarrow>
        jconns s' (slot_jc s j) = Some c \<and> interest s' (slot_fd s j) = interest s (slot_fd s j) \<and>
        keeps s s' (jc_stream c) x) \<and>
     (i \<in> active s' \<longrightarrow> (\<exists>c x. slot_rep s' i c x)) \<and>
     (i \<in> active s' \<longrightarrow> (\<forall>j \<in> active s. j \<noteq> i \<longrightarrow> slot_jc s' i \<noteq> slot_jc s j)) \<and>
     (\<forall>j \<in> active s. j \<noteq> i \<longrightarrow> slot_blocks s' i \<inter> slot_blocks s j = {}) \<and>
     live s' = slot_blocks s' i \<union> (live s - slot_blocks s i) \<and>
     (\<forall>d. d \<noteq> slot_fd s i \<longrightarrow> d \<noteq> slot_fd s' i \<longrightarrow> interest s' d = interest s d) \<and>
     (\<forall>d w k. interest s' d = Some (w, Ptr k) \<longrightarrow>
        (if k = i then i \<in> active s' \<and> slot_fd s' i = d else interest s d = Some (w, Ptr k)))"

lemma slot_step_other:
  assumes ok: "table_ok s" and st: "slot_step s s' i" and j: "j \<noteq> i"
  shows "j \<in> active s' \<longleftrightarrow> j \<in> active s" and "slot_blocks s' j = slot_blocks s j"
    and "j \<in> active s \<Longrightarrow> slot_rep s j c x \<Longrightarrow> slot_rep s' j c x"
proof -
  have e: "g_events s' ! j = g_events s ! j" using st j by (simp add: slot_step_def)
  then show act: "j \<in> active s' \<longleftrightarrow> j \<in> active s" by (simp add: active_def)
  show rep: "slot_rep s' j c x" if "j \<in> active s" "slot_rep s j c x" for c x
  proof -
    have k: "jconns s' (slot_jc s j) = Some c" "interest s' (slot_fd s j) = interest s (slot_fd s j)"
      "keeps s s' (jc_stream c) x" using st that j unfolding slot_step_def by blast+
    have "stream_ok s (jc_stream c) x" using that(2) by (simp add: slot_rep_def)
    from keeps_ok(1) [OF this k(3)] k(1,2) that(2) e show ?thesis by (simp add: slot_rep_def)
  qed
  show "slot_blocks s' j = slot_blocks s j"
  proof (cases "j \<in> active s")
    case True
    then obtain c x where r: "slot_rep s j c x" using ok by (auto simp: table_ok_def)
    have "keeps s s' (jc_stream c) x" using st True r j unfolding slot_step_def by blast
    moreover have "stream_ok s (jc_stream c) x" using r by (simp add: slot_rep_def)
    ultimately have "stream_blocks s' (jc_stream c) x = stream_blocks s (jc_stream c) x" by (intro keeps_ok(2))
    then show ?thesis
      using slot_blocks_rep [OF True r] slot_blocks_rep [OF _ rep [OF True r]] act True by simp
  next
    case False
    then show ?thesis using act by (simp add: slot_blocks_def)
  qed
qed

lemma slot_step_table:
  assumes ok: "table_ok s" and st: "slot_step s s' i"
  shows "table_ok s'"
proof -
  note o = slot_step_other [OF ok st]
  have t: "mem_ok s'" "length (g_events s') = MAX_EVENTS + 1"
    using ok st by (simp_all add: table_ok_def slot_step_def)
  have rep: "\<exists>c x. slot_rep s' j c x" if "j \<in> active s'" for j
  proof (cases "j = i")
    case True
    then show ?thesis using st that by (simp add: slot_step_def)
  next
    case False
    then have "j \<in> active s" using o(1) that by simp
    then obtain c x where "slot_rep s j c x" using ok by (auto simp: table_ok_def)
    then show ?thesis using o(3) [OF False \<open>j \<in> active s\<close>] by blast
  qed
  have jcs: "slot_jc s' j = slot_jc s j" if "j \<noteq> i" for j using st that by (simp add: slot_step_def)
  have pair: "slot_jc s' j \<noteq> slot_jc s' k \<and> slot_blocks s' j \<inter> slot_blocks s' k = {}"
    if jk: "j \<in> active s'" "k \<in> active s'" "j \<noteq> k" for j k
  proof -
    have one: "slot_jc s' i \<noteq> slot_jc s' m \<and> slot_blocks s' i \<inter> slot_blocks s' m = {}"
      if "i \<in> active s'" "m \<in> active s'" "m \<noteq> i" for m
    proof -
      have "m \<in> active s" using o(1) that by simp
      then show ?thesis using st that jcs [of m] o(2) [of m] unfolding slot_step_def by metis
    qed
    consider "j = i" | "k = i" | "j \<noteq> i" "k \<noteq> i" by blast
    then show ?thesis
    proof cases
      case 1
      then show ?thesis using one [of k] jk by simp
    next
      case 2
      then show ?thesis using one [of j] jk by (metis Int_commute)
    next
      case 3
      then have "j \<in> active s" "k \<in> active s" using o(1) jk by simp_all
      then show ?thesis using ok jk(3) jcs 3 o(2) unfolding table_ok_def by metis
    qed
  qed
  have "live s' = slot_blocks s' i \<union> ((\<Union>j. slot_blocks s j) - slot_blocks s i)"
    using ok st by (simp add: table_ok_def slot_step_def)
  also have "(\<Union>j. slot_blocks s j) - slot_blocks s i = (\<Union>j \<in> - {i}. slot_blocks s j)"
  proof -
    have "slot_blocks s j \<inter> slot_blocks s i = {}" if "j \<noteq> i" for j
      using ok that by (cases "j \<in> active s \<and> i \<in> active s") (auto simp: table_ok_def slot_blocks_def)
    then show ?thesis by blast
  qed
  also have "\<dots> = (\<Union>j \<in> - {i}. slot_blocks s' j)" using o(2) by auto
  also have "slot_blocks s' i \<union> \<dots> = (\<Union>j. slot_blocks s' j)" by auto
  finally have lv: "live s' = (\<Union>j. slot_blocks s' j)" .
  have "k = MAX_EVENTS \<or> k \<in> active s' \<and> slot_fd s' k = d" if "interest s' d = Some (w, Ptr k)" for d w k
  proof (cases "k = i")
    case True
    then show ?thesis using st that unfolding slot_step_def by metis
  next
    case False
    then have "interest s d = Some (w, Ptr k)" using st that unfolding slot_step_def by metis
    then have "k = MAX_EVENTS \<or> k \<in> active s \<and> slot_fd s k = d" using ok unfolding table_ok_def by blast
    moreover have "g_events s' ! k = g_events s ! k" using st False by (simp add: slot_step_def)
    ultimately show ?thesis using o(1) [OF False] by simp
  qed
  with t rep pair lv show ?thesis unfolding table_ok_def by blast
qed

text \<open>Two slots in use have different descriptors.\<close>

lemma slot_fd_inj:
  assumes "slot_rep s i c x" and "slot_rep s j c' x'" and "slot_fd s i = slot_fd s j"
  shows "i = j"
  using assms by (auto simp: slot_rep_def)

section \<open>Closing a stale slot\<close>

lemma get_ev_ok: "i < length (g_events s) \<Longrightarrow> get_ev i s = Inr (g_events s ! i)"
  by (simp add: get_ev_def)

lemma event_upd_sel [simp]:
  "streams (set_ev i e s) = streams s" "bufs (set_ev i e s) = bufs s" "jconns (set_ev i e s) = jconns s"
  "clinks (set_ev i e s) = clinks s" "interest (set_ev i e s) = interest s"
  "g_events (set_ev i e s) = (g_events s)[i := e]" "closed_fds (set_ev i e s) = closed_fds s"
  "g_connect_pool (set_ev i e s) = g_connect_pool s" "sent (set_ev i e s) = sent s"
  "clock (set_ev i e s) = clock s" "write_env (set_ev i e s) = write_env s" "read_env (set_ev i e s) = read_env s"
  "event_state.more (set_ev i e s) = event_state.more s" "malloc_left (set_ev i e s) = malloc_left s"
  by (simp_all add: set_ev_def)

lemma close_fd_sel [simp]:
  "streams (close_fd d s) = streams s" "bufs (close_fd d s) = bufs s" "jconns (close_fd d s) = jconns s"
  "clinks (close_fd d s) = clinks s" "interest (close_fd d s) = interest s" "g_events (close_fd d s) = g_events s"
  "g_connect_pool (close_fd d s) = g_connect_pool s" "sent (close_fd d s) = sent s"
  "closed_fds (close_fd d s) = closed_fds s @ [d]" "clock (close_fd d s) = clock s"
  "write_env (close_fd d s) = write_env s" "read_env (close_fd d s) = read_env s"
  "event_state.more (close_fd d s) = event_state.more s" "malloc_left (close_fd d s) = malloc_left s"
  by (simp_all add: close_fd_def)

lemma event_upd_mem [simp]:
  "mem_ok (set_ev i e s) = mem_ok s" "live (set_ev i e s) = live s" "block_bytes (set_ev i e s) = block_bytes s"
  "mem_ok (s\<lparr>interest := m\<rparr>) = mem_ok s" "live (s\<lparr>interest := m\<rparr>) = live s"
  "block_bytes (s\<lparr>interest := m\<rparr>) = block_bytes s"
  "mem_ok (close_fd d s) = mem_ok s" "live (close_fd d s) = live s" "block_bytes (close_fd d s) = block_bytes s"
  unfolding set_ev_def close_fd_def by (rule mem_fields_cong; simp)+

lemma event_upd_stream [simp]:
  "stream_ok (set_ev i e s) = stream_ok s" "stream_blocks (set_ev i e s) = stream_blocks s"
  "stream_ok (s\<lparr>interest := m\<rparr>) = stream_ok s" "stream_blocks (s\<lparr>interest := m\<rparr>) = stream_blocks s"
  "stream_ok (close_fd d s) = stream_ok s" "stream_blocks (close_fd d s) = stream_blocks s"
  by (rule stream_cong; simp)+

text \<open>\<open>gone s s' i p d\<close>: the slot \<open>i\<close> has been given up, its stream \<open>p\<close> released, its descriptor closed.\<close>

definition gone :: "'z event_state_scheme \<Rightarrow> 'z event_state_scheme \<Rightarrow> nat \<Rightarrow> loc \<Rightarrow> tcp_stream \<Rightarrow> bool" where
  "gone s s' i p x \<longleftrightarrow> mem_ok s' \<and> live s' = live s - stream_blocks s p x \<and> block_bytes s' = block_bytes s \<and>
     (\<forall>b. b \<notin> set (stream_bufs x) \<longrightarrow> bufs s' b = bufs s b) \<and> streams s' = (streams s)(p := None) \<and>
     length (g_events s') = length (g_events s) \<and> (\<forall>j. j \<noteq> i \<longrightarrow> g_events s' ! j = g_events s ! j) \<and> ev_status (g_events s' ! i) \<noteq> 1 \<and>
     interest s' = (interest s)(slot_fd s i := None) \<and>
     closed_fds s' = closed_fds s @ [slot_fd s i] \<and> sent s' = sent s \<and> clock s' = clock s \<and>
     write_env s' = write_env s \<and> read_env s' = read_env s \<and> event_state.more s' = event_state.more s"

lemma gone_slot_step:
  assumes ok: "table_ok s" and i: "i \<in> active s" "slot_rep s i c x" and g: "gone s s' i (jc_stream c) x"
    and conns: "\<forall>q. q \<noteq> slot_jc s i \<longrightarrow> jconns s' q = jconns s q"
  shows "slot_step s s' i" and "i \<notin> active s'"
proof -
  show no: "i \<notin> active s'" using g by (simp add: gone_def active_def)
  have bi: "slot_blocks s i = stream_blocks s (jc_stream c) x" "slot_blocks s' i = {}"
    using slot_blocks_rep [OF i] no by (simp_all add: slot_blocks_def)
  have int: "interest s' = (interest s)(slot_fd s i := None)" using g by (simp add: gone_def)
  have x: "stream_ok s (jc_stream c) x" using i(2) by (simp add: slot_rep_def)
  have other: "jconns s' (slot_jc s j) = Some c' \<and> interest s' (slot_fd s j) = interest s (slot_fd s j) \<and>
      keeps s s' (jc_stream c') x'" if j: "j \<in> active s" "j \<noteq> i" "slot_rep s j c' x'" for j c' x'
  proof -
    have jc: "slot_jc s j \<noteq> slot_jc s i" "slot_blocks s j \<inter> slot_blocks s i = {}"
      using table_pair [OF ok j(1) i(1) j(2)] by simp_all
    have y: "stream_ok s (jc_stream c') x'" using j(3) by (simp add: slot_rep_def)
    have ap: "stream_blocks s (jc_stream c') x' \<inter> stream_blocks s (jc_stream c) x = {}"
      using jc(2) bi(1) slot_blocks_rep [OF j(1,3)] by simp
    have "jc_stream c \<in> stream_blocks s (jc_stream c) x" "jc_stream c' \<in> stream_blocks s (jc_stream c') x'"
      by (simp_all add: stream_blocks_def)
    then have ne: "jc_stream c' \<noteq> jc_stream c" using ap by auto
    have "b \<notin> set (stream_bufs x)" if "b \<in> set (stream_bufs x')" for b
      using that ap stream_bufs_blocks [OF x] stream_bufs_blocks [OF y] by blast
    then have "keeps s s' (jc_stream c') x'"
      using g ne ap stream_blocks_live [OF y] unfolding keeps_def gone_def by auto
    moreover have "slot_fd s j \<noteq> slot_fd s i" using slot_fd_inj [OF j(3) i(2)] j(2) by blast
    ultimately show ?thesis using conns jc(1) j(3) int by (simp add: slot_rep_def)
  qed
  have intr: "if k = i then i \<in> active s' \<and> slot_fd s' i = d else interest s d = Some (w, Ptr k)"
    if "interest s' d = Some (w, Ptr k)" for d w k
  proof -
    have "d \<noteq> slot_fd s i" "interest s d = Some (w, Ptr k)" using that int by (auto split: if_splits)
    moreover from this have "k \<noteq> i" using table_interest [OF ok, of d w i] i(1) by (auto simp: active_def)
    ultimately show ?thesis by simp
  qed
  have frm: "interest s' d = interest s d" if "d \<noteq> slot_fd s i" for d using that int by simp
  have lv: "live s' = slot_blocks s' i \<union> (live s - slot_blocks s i)" using g bi by (simp add: gone_def)
  have "mem_ok s'" "length (g_events s') = length (g_events s)" "\<forall>j. j \<noteq> i \<longrightarrow> g_events s' ! j = g_events s ! j"
    using g by (simp_all add: gone_def)
  with no lv other intr frm bi(2) show "slot_step s s' i" unfolding slot_step_def by blast
qed

lemma more_event:
  fixes s s' :: "'z event_state_scheme"
  assumes "stream_state.more s' = stream_state.more s"
  shows "g_events s' = g_events s" "interest s' = interest s" "event_state.more s' = event_state.more s"
  using assms by (cases s; cases s'; simp)+

text \<open>The stream of a slot is marked closed and released.\<close>

lemma mark_release:
  fixes s :: "'z event_state_scheme"
  assumes ok: "mem_ok s" "stream_ok s p x"
  shows "\<exists>s'. release_stream p (set_stream p (x\<lparr>server_sock := - 1\<rparr>) s) = Inr s' \<and>
    mem_ok s' \<and> live s' = live s - stream_blocks s p x \<and> block_bytes s' = block_bytes s \<and>
    (\<forall>b. b \<notin> set (stream_bufs x) \<longrightarrow> bufs s' b = bufs s b) \<and> streams s' = (streams s)(p := None) \<and>
    g_events s' = g_events s \<and> interest s' = interest s \<and> jconns s' = jconns s \<and> clinks s' = clinks s \<and>
    g_connect_pool s' = g_connect_pool s \<and>
    closed_fds s' = closed_fds s \<and> sent s' = sent s \<and> clock s' = clock s \<and>
    write_env s' = write_env s \<and> read_env s' = read_env s \<and> event_state.more s' = event_state.more s"
proof -
  let ?x = "x\<lparr>server_sock := - 1\<rparr>" and ?s1 = "set_stream p (x\<lparr>server_sock := - 1\<rparr>) s"
  have ok1: "mem_ok ?s1" using ok by simp
  have sb: "stream_bufs ?x = stream_bufs x" by (simp add: stream_bufs_def)
  have ok2: "stream_ok ?s1 p ?x" by (rule stream_ok_set(1) [OF ok(2) sb])
  have bl: "stream_blocks ?s1 p ?x = stream_blocks s p x" by (simp add: stream_blocks_def sb buf_blocks_def)
  from release_stream_ok [OF ok1 ok2] obtain s' where s': "release_stream p ?s1 = Inr s'" "mem_ok s'"
    "live s' = live s - stream_blocks s p x" "block_bytes s' = block_bytes s"
    "\<forall>c. c \<notin> set (stream_bufs x) \<longrightarrow> bufs s' c = bufs s c" "streams s' = (streams s)(p := None)"
    "write_env s' = write_env s" "read_env s' = read_env s" "sent s' = sent s" "clock s' = clock s"
    "jconns s' = jconns s" "clinks s' = clinks s" "g_connect_pool s' = g_connect_pool s"
    "closed_fds s' = closed_fds s" "stream_state.more s' = stream_state.more ?s1"
    unfolding bl sb by auto
  have "stream_state.more ?s1 = stream_state.more s" by (simp add: set_stream_def)
  with s'(15) have "stream_state.more s' = stream_state.more s" by simp
  from s' more_event [OF this] show ?thesis by blast
qed

definition dereg :: "nat \<Rightarrow> 'z event_state_scheme \<Rightarrow> 'z event_state_scheme" where
  "dereg i s = (set_ev i ((g_events s ! i)\<lparr>ev_status := 0\<rparr>) s)\<lparr>interest := (interest s)(slot_fd s i := None)\<rparr>"

lemma dereg_sel [simp]:
  "mem_ok (dereg i s) = mem_ok s" "live (dereg i s) = live s" "block_bytes (dereg i s) = block_bytes s"
  "stream_ok (dereg i s) = stream_ok s" "stream_blocks (dereg i s) = stream_blocks s"
  "streams (dereg i s) = streams s" "bufs (dereg i s) = bufs s" "jconns (dereg i s) = jconns s"
  "clinks (dereg i s) = clinks s" "g_connect_pool (dereg i s) = g_connect_pool s" "sent (dereg i s) = sent s"
  "clock (dereg i s) = clock s" "write_env (dereg i s) = write_env s" "read_env (dereg i s) = read_env s"
  "closed_fds (dereg i s) = closed_fds s" "event_state.more (dereg i s) = event_state.more s"
  "interest (dereg i s) = (interest s)(slot_fd s i := None)"
  "g_events (dereg i s) = (g_events s)[i := (g_events s ! i)\<lparr>ev_status := 0\<rparr>]"
  "malloc_left (dereg i s) = malloc_left s"
  by (simp_all add: dereg_def)

lemma eventdel_active:
  assumes "i < length (g_events s)" and "ev_status (g_events s ! i) = 1"
  shows "eventdel i s = Inr (dereg i s)"
  using assms by (simp add: eventdel_def get_ev_ok epoll_ctl_def dereg_def)

lemma eventdel_inactive:
  assumes "i < length (g_events s)" and "ev_status (g_events s ! i) \<noteq> 1"
  shows "eventdel i s = Inr s"
  using assms by (simp add: eventdel_def get_ev_ok)

lemma active_less: "table_ok s \<Longrightarrow> i \<in> active s \<Longrightarrow> i < length (g_events s) \<and> ev_status (g_events s ! i) = 1"
  by (simp add: table_ok_def active_def)

lemma slot_rep_stream:
  assumes "slot_rep s i c x" and "mem_ok s"
  shows "get_conn (slot_jc s i) s = Inr c" "get_stream (jc_stream c) s = Inr x" "jc_stream c \<noteq> Null"
proof -
  have x: "stream_ok s (jc_stream c) x" using assms(1) by (simp add: slot_rep_def)
  show "get_stream (jc_stream c) s = Inr x" by (rule get_stream_ok [OF x])
  show "get_conn (slot_jc s i) s = Inr c" using assms(1) by (simp add: slot_rep_def get_conn_def)
  have "jc_stream c \<in> live s" using x by (simp add: stream_ok_def)
  then show "jc_stream c \<noteq> Null" by (rule live_not_null [OF assms(2)])
qed

text \<open>The effect of \<open>close_stream\<close>, whether the slot is still registered or not.\<close>

lemma close_stream_gone:
  assumes ok: "table_ok s" and i: "i \<in> active s" "slot_rep s i c x"
  shows "\<exists>s'. close_stream (Some i) s = Inr s' \<and> close_stream (Some i) (dereg i s) = Inr s' \<and>
    gone s s' i (jc_stream c) x \<and> jconns s' = jconns s \<and> clinks s' = clinks s \<and> g_connect_pool s' = g_connect_pool s"
proof -
  note len = active_less [OF ok i(1)]
  have m: "mem_ok s" using ok by (simp add: table_ok_def)
  let ?s1 = "close_fd (slot_fd s i) (dereg i s)"
  have x: "stream_ok (dereg i s) (jc_stream c) x" "stream_ok ?s1 (jc_stream c) x" "mem_ok ?s1"
    using i(2) m by (simp_all add: slot_rep_def)
  note g = slot_rep_stream [OF i(2) m]
  have g1: "get_conn (slot_jc s i) (dereg i s) = Inr c" "get_stream (jc_stream c) (dereg i s) = Inr x"
    using g(1) get_stream_ok [OF x(1)] by (simp_all add: get_conn_def)
  have n: "slot_jc s i \<noteq> Null" "0 \<le> server_sock x" using i(2) by (simp_all add: slot_rep_def)
  obtain s' where s': "release_stream (jc_stream c) (set_stream (jc_stream c) (x\<lparr>server_sock := - 1\<rparr>)
      (close_fd (slot_fd s i) (dereg i s))) = Inr s'" "mem_ok s'"
    "live s' = live s - stream_blocks s (jc_stream c) x" "block_bytes s' = block_bytes s"
    "\<forall>b. b \<notin> set (stream_bufs x) \<longrightarrow> bufs s' b = bufs s b" "streams s' = (streams s)(jc_stream c := None)"
    "g_events s' = (g_events s)[i := (g_events s ! i)\<lparr>ev_status := 0\<rparr>]"
    "interest s' = (interest s)(slot_fd s i := None)" "jconns s' = jconns s"
    "clinks s' = clinks s" "g_connect_pool s' = g_connect_pool s"
    "closed_fds s' = closed_fds s @ [slot_fd s i]" "sent s' = sent s" "clock s' = clock s"
    "write_env s' = write_env s" "read_env s' = read_env s" "event_state.more s' = event_state.more s"
    using mark_release [OF x(3,2)] by auto
  have "gone s s' i (jc_stream c) x" using s' len by (simp add: gone_def nth_list_update)
  moreover have "close_stream (Some i) (dereg i s) = Inr s'"
    using len n g1 g(3) s'(1) by (simp add: close_stream_def get_ev_ok eventdel_inactive)
  moreover have "close_stream (Some i) s = Inr s'"
    using len n g s'(1) by (simp add: close_stream_def get_ev_ok eventdel_active)
  ultimately show ?thesis using s'(9-11) by blast
qed

lemma close_stream_left: "close_stream ev s = Inr s' \<Longrightarrow> malloc_left s' = malloc_left s"
  by (auto simp: close_stream_def eventdel_def epoll_ctl_def res_simps dest!: release_stream_left
      split: option.splits if_splits)

section \<open>The sweep\<close>

definition stale :: "int \<Rightarrow> int \<Rightarrow> 'z event_state_scheme \<Rightarrow> nat \<Rightarrow> bool" where
  "stale tnow ex s i \<longleftrightarrow> i \<in> active s \<and> tnow - last_active (g_events s ! i) \<ge> 10 \<and> ex \<noteq> slot_fd s i"

text \<open>The slot \<open>j\<close> with its connection and its stream is in \<open>s'\<close> as it was in \<open>s\<close>.\<close>

definition slot_same :: "'z event_state_scheme \<Rightarrow> 'z event_state_scheme \<Rightarrow> nat \<Rightarrow> bool" where
  "slot_same s s' j \<longleftrightarrow> g_events s' ! j = g_events s ! j \<and> (\<forall>c x. slot_rep s j c x \<longrightarrow> slot_rep s' j c x \<and>
     (\<forall>b \<in> set (stream_bufs x). bufs s' b = bufs s b \<and> buf_bytes s' b = buf_bytes s b))"

text \<open>\<open>swept s s' rs\<close>: exactly the slots \<open>rs\<close> have been given up and their descriptors closed.\<close>

definition swept :: "'z event_state_scheme \<Rightarrow> 'z event_state_scheme \<Rightarrow> nat list \<Rightarrow> bool" where
  "swept s s' rs \<longleftrightarrow> table_ok s' \<and> distinct rs \<and> set rs \<subseteq> active s \<and> active s' = active s - set rs \<and>
     (\<forall>j. j \<notin> set rs \<longrightarrow> (j \<in> active s \<longrightarrow> slot_same s s' j) \<and> g_events s' ! j = g_events s ! j) \<and>
     (\<forall>d. interest s' d = (if d \<in> slot_fd s ` set rs then None else interest s d)) \<and>
     closed_fds s' = closed_fds s @ map (slot_fd s) rs \<and> jconns s' = jconns s \<and> clinks s' = clinks s \<and>
     g_connect_pool s' = g_connect_pool s \<and> sent s' = sent s \<and> clock s' = clock s \<and>
     write_env s' = write_env s \<and> read_env s' = read_env s \<and> event_state.more s' = event_state.more s"

lemma slot_same_refl: "slot_same s s j"
  by (simp add: slot_same_def)

lemma slot_same_trans: "slot_same s s1 j \<Longrightarrow> slot_same s1 s2 j \<Longrightarrow> slot_same s s2 j"
  unfolding slot_same_def by (metis (no_types, lifting))

lemma swept_refl: "table_ok s \<Longrightarrow> swept s s []"
  by (simp add: swept_def slot_same_refl)

lemma swept_trans:
  assumes 1: "swept s s1 rs" and 2: "swept s1 s2 qs"
  shows "swept s s2 (rs @ qs)"
proof -
  have q: "q \<in> active s" "q \<notin> set rs" if "q \<in> set qs" for q using 1 2 that by (auto simp: swept_def)
  then have "map (slot_fd s1) qs = map (slot_fd s) qs" using 1 by (simp add: swept_def)
  moreover have "slot_same s s2 j" if "j \<notin> set (rs @ qs)" "j \<in> active s" for j
    using 1 2 that slot_same_trans [of s s1 j s2] unfolding swept_def by auto
  moreover have "g_events s2 ! j = g_events s ! j" if "j \<notin> set (rs @ qs)" for j
    using 1 2 that by (simp add: swept_def)
  moreover have "slot_fd s1 ` set qs = slot_fd s ` set qs" using 1 q(2) unfolding swept_def by (intro image_cong) auto
  then have "interest s2 d = (if d \<in> slot_fd s ` set (rs @ qs) then None else interest s d)" for d
    using 1 2 unfolding swept_def by (simp add: image_Un)
  ultimately show ?thesis using 1 2 q unfolding swept_def by auto
qed

lemma swept_listener: "swept s s' rs \<Longrightarrow> interest s' d = Some v \<Longrightarrow> interest s d = Some v"
  unfolding swept_def by (metis option.distinct(1))

text \<open>The connection of a slot in use is live, and its stream is in its own blocks.\<close>

lemma slot_step_same:
  assumes ok: "table_ok s" and st: "slot_step s s' i" and j: "j \<noteq> i" "j \<in> active s"
  shows "slot_same s s' j"
proof -
  have "g_events s' ! j = g_events s ! j" using st j(1) by (simp add: slot_step_def)
  moreover have "slot_rep s' j c x \<and> (\<forall>b \<in> set (stream_bufs x). bufs s' b = bufs s b \<and> buf_bytes s' b = buf_bytes s b)"
    if r: "slot_rep s j c x" for c x
  proof -
    have k: "keeps s s' (jc_stream c) x" using st r j unfolding slot_step_def by blast
    moreover have "stream_ok s (jc_stream c) x" using r by (simp add: slot_rep_def)
    moreover from k have "\<forall>b \<in> set (stream_bufs x). bufs s' b = bufs s b" by (simp add: keeps_def)
    ultimately show ?thesis using slot_step_other(3) [OF ok st j(1,2) r] keeps_ok(3) by blast
  qed
  ultimately show ?thesis by (simp add: slot_same_def)
qed

lemma gone_swept:
  assumes ok: "table_ok s" and i: "i \<in> active s" "slot_rep s i c x" and g: "gone s s' i (jc_stream c) x"
    and conns: "jconns s' = jconns s" "clinks s' = clinks s" "g_connect_pool s' = g_connect_pool s"
  shows "swept s s' [i]"
proof -
  have st: "slot_step s s' i" "i \<notin> active s'" using gone_slot_step [OF ok i g] conns by auto
  have act: "j \<in> active s' \<longleftrightarrow> j \<in> active s - {i}" for j
    using st(2) slot_step_other(1) [OF ok st(1), of j] by (cases "j = i") simp_all
  then have "active s' = active s - {i}" by blast
  moreover have "g_events s' ! j = g_events s ! j" if "j \<noteq> i" for j using g that by (simp add: gone_def)
  ultimately show ?thesis
    using slot_step_table [OF ok st(1)] slot_step_same [OF ok st(1)] i(1) g conns
    by (simp add: swept_def gone_def)
qed

lemma expire_slot_sweeps:
  assumes ok: "table_ok s" and cp: "cp < MAX_EVENTS"
  shows "\<exists>s'. expire_slot tnow ex cp s = Inr s' \<and> swept s s' (if stale tnow ex s cp then [cp] else [])"
proof -
  have len: "cp < length (g_events s)" using ok cp by (simp add: table_ok_def)
  show ?thesis
  proof (cases "stale tnow ex s cp")
    case True
    then have i: "cp \<in> active s" by (simp add: stale_def)
    obtain c x where r: "slot_rep s cp c x" using table_rep [OF ok i] by blast
    obtain s' where s': "close_stream (Some cp) (dereg cp s) = Inr s'" "gone s s' cp (jc_stream c) x"
      "jconns s' = jconns s" "clinks s' = clinks s" "g_connect_pool s' = g_connect_pool s"
      using close_stream_gone [OF ok i r] by blast
    have "expire_slot tnow ex cp s = Inr s'"
      using True len s'(1) eventdel_active [OF len] by (simp add: expire_slot_def get_ev_ok stale_def active_def)
    then show ?thesis using gone_swept [OF ok i r s'(2-5)] True by auto
  next
    case False
    then have "expire_slot tnow ex cp s = Inr s"
      using len cp by (auto simp: expire_slot_def get_ev_ok stale_def active_def)
    then show ?thesis using False swept_refl [OF ok] by auto
  qed
qed

lemma expires_loop_sweeps:
  assumes "table_ok s" and "cp \<le> MAX_EVENTS" and "i \<le> MAX_EVENTS + 1" and "n = MAX_EVENTS + 1 - i"
  shows "\<exists>s' rs. expires_loop i cp tnow ex s =
      Inr (if n = 0 then cp else (cp + n - 1) mod MAX_EVENTS + 1, s') \<and> swept s s' rs \<and>
    set rs = {j. stale tnow ex s j \<and> (\<exists>k < n. j = (cp + k) mod MAX_EVENTS)}"
  using assms
proof (induction n arbitrary: s cp i)
  case 0
  then show ?case using swept_refl by (subst expires_loop.simps) auto
next
  case (Suc n)
  define d where "d = (if cp = MAX_EVENTS then 0 else cp)"
  have d: "d < MAX_EVENTS" "d = cp mod MAX_EVENTS" using Suc.prems(2) by (auto simp: d_def)
  define rs where "rs = (if stale tnow ex s d then [d] else [])"
  obtain s1 where s1: "expire_slot tnow ex d s = Inr s1" "swept s s1 rs"
    using expire_slot_sweeps [OF Suc.prems(1) d(1)] unfolding rs_def by blast
  have ok1: "table_ok s1" using s1(2) by (simp add: swept_def)
  obtain s' qs where s': "expires_loop (i + 1) (d + 1) tnow ex s1 =
      Inr (if n = 0 then d + 1 else (d + 1 + n - 1) mod MAX_EVENTS + 1, s')" "swept s1 s' qs"
    "set qs = {j. stale tnow ex s1 j \<and> (\<exists>k < n. j = (d + 1 + k) mod MAX_EVENTS)}"
  proof -
    have "d + 1 \<le> MAX_EVENTS" "i + 1 \<le> MAX_EVENTS + 1" "n = MAX_EVENTS + 1 - (i + 1)"
      using d(1) Suc.prems(3,4) by simp_all
    from Suc.IH [OF ok1 this] show ?thesis using that by blast
  qed
  have "i < MAX_EVENTS + 1" using Suc.prems by simp
  then have run: "expires_loop i cp tnow ex s = expires_loop (i + 1) (d + 1) tnow ex s1"
    using s1(1) by (subst expires_loop.simps) (simp add: d_def Let_def)
  have st: "stale tnow ex s1 j \<longleftrightarrow> stale tnow ex s j \<and> j \<notin> set rs" for j
    using s1(2) by (auto simp: stale_def swept_def)
  have shift: "(d + 1 + k) mod MAX_EVENTS = (cp + Suc k) mod MAX_EVENTS" for k
    using mod_add_left_eq [of cp MAX_EVENTS "Suc k"] by (simp add: d(2))
  have "set (rs @ qs) = {j. stale tnow ex s j \<and> (\<exists>k < Suc n. j = (cp + k) mod MAX_EVENTS)}"
  proof -
    have ex: "(\<exists>k < Suc n. j = (cp + k) mod MAX_EVENTS) \<longleftrightarrow>
        j = d \<or> (\<exists>k < n. j = (d + 1 + k) mod MAX_EVENTS)" for j
      unfolding shift using d(2) by (auto simp: less_Suc_eq_0_disj)
    show ?thesis unfolding ex s'(3) st set_append by (auto simp: rs_def)
  qed
  moreover have "swept s s' (rs @ qs)" by (rule swept_trans [OF s1(2) s'(2)])
  moreover have "(if n = 0 then d + 1 else (d + 1 + n - 1) mod MAX_EVENTS + 1) = (cp + Suc n - 1) mod MAX_EVENTS + 1"
    using d by (simp add: mod_simps)
  then have "expires_loop i cp tnow ex s =
      Inr (if Suc n = 0 then cp else (cp + Suc n - 1) mod MAX_EVENTS + 1, s')"
    using run s'(1) by simp
  ultimately show ?case by blast
qed

lemma house_keeping_sweeps:
  assumes "table_ok s" and "pos \<le> MAX_EVENTS"
  shows "\<exists>s' rs. expires_house_keeping pos tnow ex s = Inr (pos mod MAX_EVENTS + 1, s') \<and>
    swept s s' rs \<and> set rs = {j. stale tnow ex s j}"
proof -
  obtain s' rs where e: "expires_loop 0 pos tnow ex s =
      Inr (if MAX_EVENTS + 1 = 0 then pos else (pos + (MAX_EVENTS + 1) - 1) mod MAX_EVENTS + 1, s')"
    "swept s s' rs" "set rs = {j. stale tnow ex s j \<and> (\<exists>k < MAX_EVENTS + 1. j = (pos + k) mod MAX_EVENTS)}"
    using expires_loop_sweeps [OF assms, of 0 "MAX_EVENTS + 1" tnow ex] by auto
  have all: "\<exists>k < MAX_EVENTS + 1. j = (pos + k) mod MAX_EVENTS" if "stale tnow ex s j" for j
  proof (intro exI conjI)
    have j: "j < MAX_EVENTS" using that by (simp add: stale_def active_def)
    let ?k = "if pos \<le> j then j - pos else j + MAX_EVENTS - pos"
    show "?k < MAX_EVENTS + 1" using j by auto
    have "pos + ?k = j \<or> pos + ?k = j + MAX_EVENTS" using assms(2) by auto
    then show "j = (pos + ?k) mod MAX_EVENTS" using j by (elim disjE; simp only:) simp_all
  qed
  have "set rs = {j. stale tnow ex s j}" using e(3) all by blast
  moreover have "expires_house_keeping pos tnow ex s = Inr (pos mod MAX_EVENTS + 1, s')"
    using e(1) by (simp add: expires_house_keeping_def)
  ultimately show ?thesis using e(2) by blast
qed

lemma expires_loop_left: "expires_loop i cp tnow ex s = Inr (cp', s') \<Longrightarrow> malloc_left s' = malloc_left s"
proof (induction "MAX_EVENTS + 1 - i" arbitrary: i cp s)
  case 0
  then show ?case by (subst (asm) expires_loop.simps) simp
next
  case (Suc n)
  then have i: "i < MAX_EVENTS + 1" by simp
  let ?d = "if cp = MAX_EVENTS then 0 else cp"
  obtain s1 where s1: "expire_slot tnow ex ?d s = Inr s1" "expires_loop (i + 1) (?d + 1) tnow ex s1 = Inr (cp', s')"
    using Suc.prems i by (subst (asm) expires_loop.simps) (auto simp: Let_def res_simps)
  have "malloc_left s1 = malloc_left s"
    using s1(1) by (auto simp: expire_slot_def eventdel_def epoll_ctl_def res_simps dest!: close_stream_left split: if_splits)
  then show ?case using Suc.hyps(1) [OF _ s1(2)] Suc.hyps(2) by simp
qed

section \<open>Properties\<close>

text \<open>
  C4. One call of \<open>expires_house_keeping\<close>, from any position a former call left, gives up
  exactly the slots in use that have been idle for ten seconds, whatever their place in the table:
  each of their descriptors is closed once, their streams are released and they are taken out of
  the table, while every other slot keeps its registration, its connection and the bytes of its
  stream, and the table stays consistent. The next call starts one slot further.
\<close>

theorem expires_closes_stale:
  assumes "table_ok s" and "pos \<le> MAX_EVENTS"
  shows "\<exists>s' rs. expires_house_keeping pos tnow ex s = Inr (pos mod MAX_EVENTS + 1, s') \<and>
    table_ok s' \<and> set rs = {j. stale tnow ex s j} \<and> distinct rs \<and> active s' = active s - set rs \<and>
    closed_fds s' = closed_fds s @ map (slot_fd s) rs \<and> sent s' = sent s \<and>
    (\<forall>j \<in> active s'. slot_same s s' j) \<and> jconns s' = jconns s"
  using house_keeping_sweeps [OF assms, of tnow ex] unfolding swept_def by fastforce

end
