(* ===== verification/Comm.thy ===== *)
theory Comm
  imports Event
begin

text \<open>
  The socket helpers of \<open>comm.c\<close>, and \<open>init_listensocket\<close> of \<open>event.c\<close>.

  The results of the system calls are scripts in the state, one \<open>socket_outcome\<close> for each
  socket made; \<open>net_calls\<close> is the trace of what the kernel was asked to do. A script that hands
  out a descriptor that is still registered, or a block for a connection that is still in use,
  describes no behaviour of \<open>socket\<close> or \<open>malloc\<close>: the run ends with \<open>Stuck\<close>.
  Socket addresses are kept as bytes, so that the lengths the code passes to \<open>memcpy\<close>,
  \<open>connect\<close> and \<open>bind\<close> mean what they mean in C (little endian, as on the machines the
  code is built for).
\<close>

section \<open>State\<close>

datatype connect_outcome = Connected | In_progress | Connect_error

record socket_outcome =
  so_fd :: int
  so_getfl :: int
  so_setfl :: int
  so_connect :: "byte list \<Rightarrow> nat \<Rightarrow> connect_outcome"

datatype net_call = Connect int "byte list" nat | Bind int "byte list" nat | Listen int nat

record comm_state = event_state +
  socket_env :: "socket_outcome list"
  conn_mem :: "(loc \<times> jconnect) list"
  net_calls :: "net_call list"

abbreviation (input) sizeof_sockaddr :: nat where "sizeof_sockaddr \<equiv> 16"
abbreviation (input) sizeof_sockaddr_in :: nat where "sizeof_sockaddr_in \<equiv> 16"
abbreviation (input) sizeof_sockaddr_in6 :: nat where "sizeof_sockaddr_in6 \<equiv> 28"
abbreviation (input) sizeof_sockaddr_storage :: nat where "sizeof_sockaddr_storage \<equiv> 128"

text \<open>The two low bytes of an integer, and a 32 bit one, in memory order.\<close>

definition le16 :: "uint32 \<Rightarrow> byte list" where
  "le16 w = [ucast w, ucast (drop_bit 8 w)]"

definition le32 :: "uint32 \<Rightarrow> byte list" where
  "le32 w = [ucast w, ucast (drop_bit 8 w), ucast (drop_bit 16 w), ucast (drop_bit 24 w)]"

definition htons :: "uint32 \<Rightarrow> uint32" where
  "htons w = push_bit 8 (take_bit 8 w) OR take_bit 8 (drop_bit 8 w)"

text \<open>
  What a read from the start of a \<open>jujube_in_addr\<close> finds: the union, the flag, and the
  memory \<open>behind\<close> the object, which the code has no right to read.
\<close>

definition addr_mem :: "jujube_in_addr \<Rightarrow> byte list \<Rightarrow> byte list" where
  "addr_mem a behind = inx_addr a @ le32 (flag a) @ behind"

section \<open>Operations\<close>

definition xstrerror :: "string option \<Rightarrow> int \<Rightarrow> string" where
  "xstrerror errmsg no =
     (let msg = (case errmsg of None \<Rightarrow> ''Unknown error'' | Some m \<Rightarrow> if m = '''' then ''Unknown error'' else m) in
      take (1024 * 4 - 1) (''('' @ dec_int no @ '') '' @ msg))"

definition connect_nonb ::
  "socket_outcome \<Rightarrow> int \<Rightarrow> byte list \<Rightarrow> 'z comm_state_scheme \<Rightarrow> int \<times> 'z comm_state_scheme" where
  "connect_nonb out sk psa s =
     (case so_connect out (take sizeof_sockaddr psa) sizeof_sockaddr of
        Connected \<Rightarrow> 0 | In_progress \<Rightarrow> - 2 | Connect_error \<Rightarrow> - 1,
      s\<lparr>net_calls := net_calls s @ [Connect sk (take sizeof_sockaddr psa) sizeof_sockaddr]\<rparr>)"

definition comm_set_nonblock :: "socket_outcome \<Rightarrow> int" where
  "comm_set_nonblock out =
     (if so_getfl out < 0 then - 1 else if so_setfl out < 0 then - 1 else 0)"

text \<open>\<open>socket\<close>: the next outcome of the script.\<close>

definition sys_socket :: "'z comm_state_scheme \<Rightarrow> (socket_outcome \<times> 'z comm_state_scheme) res" where
  "sys_socket s = (case socket_env s of
      [] \<Rightarrow> Inl Stuck
    | out # outs \<Rightarrow>
        if interest s (so_fd out) = None then Inr (out, s\<lparr>socket_env := outs\<rparr>) else Inl Stuck)"

definition create_connect_socket ::
  "byte list \<Rightarrow> jujube_in_addr \<Rightarrow> byte list \<Rightarrow> uint32 \<Rightarrow> uint32 \<Rightarrow> 'z comm_state_scheme \<Rightarrow>
     (int \<times> byte list \<times> 'z comm_state_scheme) res" where
  "create_connect_socket peeraddr ja behind ip_flag prt s =
     (let m = addr_mem ja behind in
      bindE (if ip_flag = USE_IPV4
             then bindE (accessE (sizeof_sockaddr_in \<le> length m)) (\<lambda>_.
               Inr (splice 4 (take sizeof_sockaddr_in m) (splice 2 (le16 prt) (splice 0 (le16 2) peeraddr))))
             else bindE (accessE (sizeof_sockaddr_in6 \<le> length m)) (\<lambda>_.
               Inr (splice 8 (take sizeof_sockaddr_in6 m) (splice 2 (le16 prt) (splice 0 (le16 10) peeraddr)))))
        (\<lambda>peeraddr.
      bindE (sys_socket s) (\<lambda>(out, s).
      let sock = so_fd out in
      if sock < 0 then Inr (- 1, peeraddr, s)
      else if comm_set_nonblock out < 0 then Inr (- 2, peeraddr, s)
      else (case connect_nonb out sock peeraddr s of (r, s) \<Rightarrow>
        if r = - 1 then Inr (- 3, peeraddr, s) else Inr (sock, peeraddr, s)))))"

text \<open>
  \<open>pipe\<close> and the four calls of \<open>fcntl\<close> that \<open>set_wake_up_polling\<close> makes; the result
  is the return value and \<open>tickle_fd\<close>, of which the second entry is the end written to.
\<close>

record wake_outcome =
  wk_pipe :: "(int \<times> int) option"
  wk_fcntl :: "bool list"

definition set_wake_up_polling ::
  "wake_outcome \<Rightarrow> int \<times> int \<Rightarrow> 'z event_state_scheme \<Rightarrow> int \<times> (int \<times> int) \<times> 'z event_state_scheme" where
  "set_wake_up_polling w tickle_fd s = (case wk_pipe w of
      None \<Rightarrow> (- 1, tickle_fd, s)
    | Some tickle_fd \<Rightarrow>
        if list_ex Not (take 4 (wk_fcntl w)) then (- 1, tickle_fd, s)
        else if interest s (fst tickle_fd) \<noteq> None then (- 1, tickle_fd, s)
        else (0, tickle_fd, epoll_ctl EPOLL_CTL_ADD (fst tickle_fd) EPOLLIN (Fd (fst tickle_fd)) s))"

definition wake_up_poll :: "int \<times> int \<Rightarrow> 'z stream_state_scheme \<Rightarrow> 'z stream_state_scheme res" where
  "wake_up_poll tickle_fd s = bindE (sys_write (snd tickle_fd) [0x4D] s) (\<lambda>(_, s). Inr s)"

text \<open>\<open>malloc(sizeof(struct jconnect))\<close>: the fields hold whatever was in the memory.\<close>

definition malloc_conn :: "'z comm_state_scheme \<Rightarrow> (loc \<times> 'z comm_state_scheme) res" where
  "malloc_conn s = (case conn_mem s of
      [] \<Rightarrow> Inr (Null, s)
    | (p, junk) # rest \<Rightarrow>
        if p = Null then Inr (Null, s\<lparr>conn_mem := rest\<rparr>)
        else if jconns s p = None \<and> clinks s p = None \<and> p \<noteq> invaild_conn
        then Inr (p, set_conn p junk (s\<lparr>conn_mem := rest, clinks := (clinks s)(p \<mapsto> \<lparr>nxt = Null, prev = Null\<rparr>)\<rparr>))
        else Inl Stuck)"

definition init_listensocket ::
  "uint32 \<Rightarrow> byte list \<Rightarrow> jujube_in_addr \<Rightarrow> byte list \<Rightarrow> callback \<Rightarrow> 'z comm_state_scheme \<Rightarrow> 'z comm_state_scheme res" where
  "init_listensocket prt peeraddr ja behind accept_cb s =
     bindE (sys_socket s) (\<lambda>(out, s).
     bindE (malloc_conn s) (\<lambda>(jc, s).
     if jc = Null then Inr s
     else
       let lfd = so_fd out in
       bindE (get_conn jc s) (\<lambda>c.
       bindE (eventset (Some MAX_EVENTS) jc accept_cb (Some MAX_EVENTS) (set_conn jc (c\<lparr>jc_fd := lfd\<rparr>) s)) (\<lambda>s.
       bindE (eventadd EPOLLIN (Some MAX_EVENTS) s) (\<lambda>s.
       let m = addr_mem ja behind in
       bindE (if flag ja = USE_IPV6
              then bindE (accessE (sizeof_sockaddr_in6 \<le> length m)) (\<lambda>_.
                Inr (splice 8 (take sizeof_sockaddr_in6 m) (splice 2 (le16 (htons prt)) (splice 0 (le16 10) peeraddr)),
                  sizeof_sockaddr_in6))
              else bindE (accessE (sizeof_sockaddr_in \<le> length m)) (\<lambda>_.
                Inr (splice 4 (take sizeof_sockaddr_in m) (splice 2 (le16 (htons prt)) (splice 0 (le16 2) peeraddr)),
                  sizeof_sockaddr_in)))
         (\<lambda>(peeraddr, len).
       Inr (s\<lparr>net_calls := net_calls s @ [Bind lfd (take len peeraddr) len, Listen lfd 128]\<rparr>)))))))"

section \<open>What a socket is made with\<close>

text \<open>The return value of \<open>create_connect_socket\<close> once the kernel has answered.\<close>

definition connect_result :: "socket_outcome \<Rightarrow> byte list \<Rightarrow> int" where
  "connect_result out psa =
     (if so_fd out < 0 then - 1
      else if so_getfl out < 0 \<or> so_setfl out < 0 then - 2
      else if so_connect out (take sizeof_sockaddr psa) sizeof_sockaddr = Connect_error then - 3
      else so_fd out)"

definition connect_trace :: "socket_outcome \<Rightarrow> byte list \<Rightarrow> net_call list" where
  "connect_trace out psa =
     (if so_fd out < 0 \<or> so_getfl out < 0 \<or> so_setfl out < 0 then []
      else [Connect (so_fd out) (take sizeof_sockaddr psa) sizeof_sockaddr])"

lemma length_le [simp]: "length (le16 w) = 2" "length (le32 w) = 4"
  by (simp_all add: le16_def le32_def)

lemma sys_socket_ok:
  "socket_env s = out # outs \<Longrightarrow> interest s (so_fd out) = None \<Longrightarrow>
    sys_socket s = Inr (out, s\<lparr>socket_env := outs\<rparr>)"
  by (simp add: sys_socket_def)

lemma create_connect_socket_tail:
  assumes "socket_env s = out # outs" and "interest s (so_fd out) = None"
  shows "bindE (sys_socket s) (\<lambda>(out, s).
      let sock = so_fd out in
      if sock < 0 then Inr (- 1, psa, s)
      else if comm_set_nonblock out < 0 then Inr (- 2, psa, s)
      else (case connect_nonb out sock psa s of (r, s) \<Rightarrow>
        if r = - 1 then Inr (- 3, psa, s) else Inr (sock, psa, s))) =
    Inr (connect_result out psa, psa,
      s\<lparr>socket_env := outs, net_calls := net_calls s @ connect_trace out psa\<rparr>)"
  using assms
  by (simp add: sys_socket_ok Let_def connect_result_def connect_trace_def comm_set_nonblock_def
      connect_nonb_def split: connect_outcome.splits)

lemma sockaddr_in_bytes:
  assumes "length psa = sizeof_sockaddr_storage" and "length (inx_addr a) = 16"
  shows "take 16 (splice 4 (take 16 (addr_mem a behind)) (splice 2 (le16 prt) (splice 0 (le16 2) psa))) =
    [2, 0] @ le16 prt @ take 12 (inx_addr a)"
  using assms by (simp add: splice_def addr_mem_def take_Cons' min_def) (simp add: le16_def)

section \<open>Properties\<close>

text \<open>
  C14. For an IPv4 target \<open>create_connect_socket\<close> asks the kernel to connect exactly to the
  given address and port: the bytes passed to \<open>connect\<close> are the family, the port and the four
  address bytes. It returns -1, -2 or -3 when the socket, its non-blocking mode or the connection
  fail, and the descriptor when the connection stands or is in progress. In the cases -2 and -3
  the descriptor stays open: nothing is closed.
\<close>

theorem create_connect_socket_ipv4:
  assumes "socket_env s = out # outs" and "interest s (so_fd out) = None"
    and "length psa = sizeof_sockaddr_storage" and "length (inx_addr a) = 16"
  shows "\<exists>r psa' s'. create_connect_socket psa a behind USE_IPV4 prt s = Inr (r, psa', s') \<and>
    r = connect_result out psa' \<and> take 8 psa' = [2, 0] @ le16 prt @ take 4 (inx_addr a) \<and>
    (0 \<le> r \<longrightarrow> r = so_fd out \<and> net_calls s' = net_calls s @ [Connect r (take 16 psa') 16]) \<and>
    s' = s\<lparr>socket_env := outs, net_calls := net_calls s @ connect_trace out psa'\<rparr> \<and>
    closed_fds s' = closed_fds s"
proof -
  let ?m = "addr_mem a behind"
  let ?p = "splice 4 (take 16 ?m) (splice 2 (le16 prt) (splice 0 (le16 2) psa))"
  have "16 \<le> length ?m" using assms(4) by (simp add: addr_mem_def)
  then have run: "create_connect_socket psa a behind USE_IPV4 prt s =
      Inr (connect_result out ?p, ?p, s\<lparr>socket_env := outs, net_calls := net_calls s @ connect_trace out ?p\<rparr>)"
    unfolding create_connect_socket_def Let_def
    using create_connect_socket_tail [OF assms(1,2), of ?p, unfolded Let_def] by simp
  have "take 8 ?p = take 8 (take 16 ?p)" by (simp only: take_take min_def) simp
  also have "\<dots> = [2, 0] @ le16 prt @ take 4 (inx_addr a)"
    unfolding sockaddr_in_bytes [OF assms(3,4)] using assms(4) by (simp add: min_def)
  finally have t: "take 8 ?p = [2, 0] @ le16 prt @ take 4 (inx_addr a)" .
  have "0 \<le> connect_result out ?p \<longrightarrow> connect_result out ?p = so_fd out \<and>
      net_calls s @ connect_trace out ?p = net_calls s @ [Connect (connect_result out ?p) (take 16 ?p) 16]"
    by (simp add: connect_result_def connect_trace_def)
  with run t show ?thesis
    by (intro exI [of _ "connect_result out ?p"] exI [of _ ?p]
      exI [of _ "s\<lparr>socket_env := outs, net_calls := net_calls s @ connect_trace out ?p\<rparr>"]) simp
qed

text \<open>
  C15. No connection over IPv6 is ever made: \<open>connect_nonb\<close> passes the size of a
  \<open>struct sockaddr\<close>, 16 bytes, for every address. The kernel refuses an IPv6 address shorter
  than 24 bytes, so that \<open>create_connect_socket\<close> returns a negative number whatever the
  address, and leaves the descriptor open. On the way it copies 28 bytes out of an address object
  of 20: when nothing that can be read lies behind the object, the copy is an invalid access.
\<close>

theorem create_connect_socket_ipv6_fails:
  assumes "socket_env s = out # outs" and "interest s (so_fd out) = None"
    and "length psa = sizeof_sockaddr_storage" and "length (inx_addr a) = 16"
    and "\<And>b n. take 2 b = [10, 0] \<Longrightarrow> n < 24 \<Longrightarrow> so_connect out b n = Connect_error"
  shows "(if length behind < 8
      then create_connect_socket psa a behind USE_IPV6 prt s = Inl Invalid_access
      else \<exists>r psa' s'. create_connect_socket psa a behind USE_IPV6 prt s = Inr (r, psa', s') \<and> r < 0 \<and>
        closed_fds s' = closed_fds s \<and> (r = - 3 \<longleftrightarrow> 0 \<le> so_fd out \<and> 0 \<le> so_getfl out \<and> 0 \<le> so_setfl out))"
proof (cases "length behind < 8")
  case True
  then show ?thesis using assms(4) by (simp add: create_connect_socket_def Let_def addr_mem_def)
next
  case False
  let ?m = "addr_mem a behind"
  let ?p = "splice 8 (take 28 ?m) (splice 2 (le16 prt) (splice 0 (le16 10) psa))"
  have "28 \<le> length ?m" using False assms(4) by (simp add: addr_mem_def)
  then have run: "create_connect_socket psa a behind USE_IPV6 prt s =
      Inr (connect_result out ?p, ?p, s\<lparr>socket_env := outs, net_calls := net_calls s @ connect_trace out ?p\<rparr>)"
    unfolding create_connect_socket_def Let_def
    using create_connect_socket_tail [OF assms(1,2), of ?p, unfolded Let_def] by simp
  have "take 2 (take 16 ?p) = [10, 0]"
    using assms(3) by (simp add: splice_def min_def) (simp add: le16_def)
  then have "so_connect out (take 16 ?p) 16 = Connect_error" by (rule assms(5)) simp
  then have "connect_result out ?p < 0 \<and>
      (connect_result out ?p = - 3 \<longleftrightarrow> 0 \<le> so_fd out \<and> 0 \<le> so_getfl out \<and> 0 \<le> so_setfl out)"
    by (auto simp: connect_result_def)
  with run False show ?thesis by simp
qed

text \<open>A kernel that accepts any address but IPv6 ones that are too short, and a state to try it in.\<close>

definition kernel_connect :: "byte list \<Rightarrow> nat \<Rightarrow> connect_outcome" where
  "kernel_connect b n = (if take 2 b = [10, 0] \<and> n < 24 then Connect_error else In_progress)"

definition good_socket :: "int \<Rightarrow> socket_outcome" where
  "good_socket d = \<lparr>so_fd = d, so_getfl = 0, so_setfl = 0, so_connect = kernel_connect\<rparr>"

definition blank_event :: myevent_s where
  "blank_event = \<lparr>ev_fd = 0, ev_events = 0, ev_arg = 0, call_back = No_callback, ev_status = 0,
     last_active = 0, thandler = No_handler, ev_jc = Null\<rparr>"

definition boot_comm :: "socket_outcome list \<Rightarrow> (loc \<times> jconnect) list \<Rightarrow> nat outcome list \<Rightarrow> byte list outcome list \<Rightarrow> comm_state" where
  "boot_comm so cm w r = comm_state.make boot_node (\<lambda>_. None) [] 0 0 (\<lambda>_. None)
     ((\<lambda>_. None)(g_jconnect \<mapsto> \<lparr>nxt = g_jconnect, prev = g_jconnect\<rparr>)) (\<lambda>_. None)
     \<lparr>max_connects = 10, max_alive_times = 60, max_txn = 100, current_total = 0\<rparr> [] (\<lambda>_. None) w r [] 0
     (replicate (MAX_EVENTS + 1) blank_event) (\<lambda>_. None) so cm []"

theorem create_connect_socket_ipv4_witness:
  "\<exists>(s :: comm_state) psa' s'. create_connect_socket (replicate 128 0)
      \<lparr>inx_addr = [192, 168, 104, 159] @ replicate 12 0, flag = USE_IPV4\<rparr> [] USE_IPV4 (htons 9527) s =
      Inr (5, psa', s') \<and> take 8 psa' = [2, 0, 0x25, 0x37, 192, 168, 104, 159]"
proof -
  let ?s = "boot_comm [good_socket 5] [] [] []"
  let ?a = "\<lparr>inx_addr = [192, 168, 104, 159] @ replicate 12 0, flag = USE_IPV4\<rparr> :: jujube_in_addr"
  have s: "socket_env ?s = good_socket 5 # []" "interest ?s (so_fd (good_socket 5)) = None"
    by (simp_all add: boot_comm_def comm_state.defs)
  have l: "length (replicate 128 0 :: byte list) = sizeof_sockaddr_storage" "length (inx_addr ?a) = 16" by simp_all
  obtain r psa' s' where run: "create_connect_socket (replicate 128 0) ?a [] USE_IPV4 (htons 9527) ?s = Inr (r, psa', s')"
    "r = connect_result (good_socket 5) psa'" "take 8 psa' = [2, 0] @ le16 (htons 9527) @ take 4 (inx_addr ?a)"
    using create_connect_socket_ipv4 [OF s l, of "[]" "htons 9527"] by blast
  have port: "le16 (htons 9527) = [0x25, 0x37]" by code_simp
  have "take 2 (take 8 psa') = [2, 0]" unfolding run(3) by simp
  then have "take 2 (take 16 psa') = [2, 0]" by (simp add: min_def)
  then have "r = 5" unfolding run(2) by (simp add: connect_result_def good_socket_def kernel_connect_def min_def)
  moreover have "take 8 psa' = [2, 0, 0x25, 0x37, 192, 168, 104, 159]" unfolding run(3) port by simp
  ultimately show ?thesis using run(1) by blast
qed

theorem create_connect_socket_ipv6_fails_witness:
  "\<exists>(s :: comm_state) r psa' s'. create_connect_socket (replicate 128 0)
      \<lparr>inx_addr = replicate 15 0 @ [1], flag = USE_IPV6\<rparr> (replicate 8 7) USE_IPV6 (htons 9527) s =
      Inr (r, psa', s') \<and> r < 0"
proof -
  let ?s = "boot_comm [good_socket 5] [] [] []"
  let ?a = "\<lparr>inx_addr = replicate 15 0 @ [1], flag = USE_IPV6\<rparr> :: jujube_in_addr"
  have s: "socket_env ?s = good_socket 5 # []" "interest ?s (so_fd (good_socket 5)) = None"
    by (simp_all add: boot_comm_def comm_state.defs)
  have l: "length (replicate 128 0 :: byte list) = sizeof_sockaddr_storage" "length (inx_addr ?a) = 16" by simp_all
  have k: "so_connect (good_socket 5) b n = Connect_error" if "take 2 b = [10, 0]" "n < 24" for b n
    using that by (simp add: good_socket_def kernel_connect_def)
  from create_connect_socket_ipv6_fails [OF s l k, of "replicate 8 7" "htons 9527"] obtain r psa' s' where
    "create_connect_socket (replicate 128 0) ?a (replicate 8 7) USE_IPV6 (htons 9527) ?s = Inr (r, psa', s')" "r < 0"
    by auto
  then show ?thesis by blast
qed

end
