(* ===== verification/Transaction.thy ===== *)
theory Transaction
  imports Client
begin

text \<open>
  The life of a transaction and the rounds of the event loop of \<open>client.c\<close>: what
  \<open>create_transaction\<close> sets up, what is sent, and that the client stays consistent however
  its peers and the kernel behave.
\<close>

section \<open>A new connection\<close>

lemma client_new_conn:
  assumes ok: "client_ok s" and p: "jconns s p = None" "clinks s p = None" "p \<noteq> Null" "p \<noteq> invaild_conn"
    and same: "mem_ok s' = mem_ok s" "live s' = live s" "block_bytes s' = block_bytes s"
      "bufs s' = bufs s" "streams s' = streams s" "g_events s' = g_events s" "interest s' = interest s"
    and new: "jconns s' = (jconns s)(p \<mapsto> c)" "clinks s' = (clinks s)(p \<mapsto> n)"
  shows "client_ok s'" and "active s' = active s" and "slot_same s s' j"
    and "\<forall>j \<in> active s'. slot_jc s' j \<noteq> p"
proof -
  note so = stream_cong [OF same(4,2,3,5)]
  have bb: "buf_bytes s' = buf_bytes s" by (rule bufs_cong [OF same(4,2,3)])
  have t: "table_ok s" using ok by (simp add: client_ok_def)
  show act: "active s' = active s" using same(6) by (simp add: active_def)
  have rep: "slot_rep s' j d x" if "slot_rep s j d x" for j d x
    using that p(1) same new so by (auto simp: slot_rep_def)
  then show "slot_same s s' j" using same(4,6) bb by (simp add: slot_same_def)
  have bl: "slot_blocks s' j = slot_blocks s j" for j
  proof (cases "j \<in> active s")
    case True
    then obtain d x where r: "slot_rep s j d x" using table_rep [OF t] by blast
    show ?thesis using slot_blocks_rep [OF True r] slot_blocks_rep [OF _ rep [OF r]] True act so by simp
  qed (simp add: slot_blocks_def act)
  have "\<exists>d x. slot_rep s' j d x" if "j \<in> active s'" for j using table_rep [OF t] that act rep by blast
  then have "table_ok s'"
    using t act bl same unfolding table_ok_def by simp
  moreover have "conn_ok (set_conn p c (s\<lparr>clinks := (clinks s)(p \<mapsto> n)\<rparr>)) []"
    using ok p by (intro conn_ok_new) (simp_all add: client_ok_def)
  then have "conn_ok s' []" by (rule conn_ok_cong) (simp_all add: new)
  ultimately show "client_ok s'" using ok act same(6,7) by (simp add: client_ok_def)
  have "slot_jc s j \<noteq> p" if "j \<in> active s" for j
    using table_rep [OF t that] p(1) by (auto simp: slot_rep_def)
  then show "\<forall>j \<in> active s'. slot_jc s' j \<noteq> p" using act same(6) by simp
qed

lemma evget_from_free:
  assumes "length (g_events s) = MAX_EVENTS + 1" and "i \<le> MAX_EVENTS"
  shows "evget_from i (- 1) s =
    Inr (if \<exists>k. i \<le> k \<and> k < MAX_EVENTS \<and> ev_status (g_events s ! k) = 0
         then Some (LEAST k. i \<le> k \<and> k < MAX_EVENTS \<and> ev_status (g_events s ! k) = 0) else None)"
  using assms(2)
proof (induction "MAX_EVENTS - i" arbitrary: i)
  case 0
  then have "\<not> i < MAX_EVENTS" by simp
  then show ?case by (subst evget_from.simps) auto
next
  case (Suc n)
  then have i: "i < MAX_EVENTS" by simp
  let ?P = "\<lambda>i k. i \<le> k \<and> k < MAX_EVENTS \<and> ev_status (g_events s ! k) = 0"
  have get: "get_ev i s = Inr (g_events s ! i)" using i assms(1) by (simp add: get_ev_ok)
  show ?case
  proof (cases "ev_status (g_events s ! i) = 0")
    case True
    have "(LEAST k. ?P i k) = i" using i True by (intro Least_equality) auto
    moreover have "\<exists>k. ?P i k" using i True by blast
    ultimately show ?thesis using i True get by (subst evget_from.simps) simp
  next
    case False
    then have "?P i k \<longleftrightarrow> ?P (Suc i) k" for k by (cases "k = i") auto
    then have same: "?P i = ?P (Suc i)" by blast
    have "evget_from i (- 1) s = evget_from (Suc i) (- 1) s"
      using i False get by (subst evget_from.simps) simp
    then show ?thesis using Suc.hyps(1) [of "Suc i"] Suc.hyps(2) i unfolding same by simp
  qed
qed

lemma evget_free:
  assumes len: "length (g_events s) = MAX_EVENTS + 1" and free: "k0 < MAX_EVENTS" "ev_status (g_events s ! k0) = 0"
  shows "\<exists>k < MAX_EVENTS. evget (- 1) s = Inr (Some k) \<and> ev_status (g_events s ! k) = 0"
proof -
  let ?P = "\<lambda>k. 0 \<le> k \<and> k < MAX_EVENTS \<and> ev_status (g_events s ! k) = 0"
  have "?P (LEAST k. ?P k)" using free by (intro LeastI [of ?P k0]) simp
  then show ?thesis using evget_from_free [OF len, of 0] free unfolding evget_def by auto
qed

section \<open>Attaching a stream\<close>

text \<open>The slot \<open>k\<close> is filled for the connection \<open>p\<close> with the stream \<open>q\<close> and registered.\<close>

definition fill :: "nat \<Rightarrow> loc \<Rightarrow> jconnect \<Rightarrow> loc \<Rightarrow> 'z event_state_scheme \<Rightarrow> 'z event_state_scheme" where
  "fill k p c q s =
     (set_ev k ((g_events s ! k)\<lparr>ev_jc := p, ev_fd := jc_fd c, call_back := Connect_cb, ev_arg := k,
        last_active := time_now s, ev_events := EPOLLOUT, ev_status := 1\<rparr>) (set_conn p (c\<lparr>jc_stream := q\<rparr>) s))
     \<lparr>interest := (interest s)(jc_fd c \<mapsto> (EPOLLOUT, Ptr k))\<rparr>"

lemma fill_sel [simp]:
  "mem_ok (fill k p c q s) = mem_ok s" "live (fill k p c q s) = live s"
  "block_bytes (fill k p c q s) = block_bytes s" "stream_ok (fill k p c q s) = stream_ok s"
  "stream_blocks (fill k p c q s) = stream_blocks s" "streams (fill k p c q s) = streams s"
  "bufs (fill k p c q s) = bufs s" "jconns (fill k p c q s) = (jconns s)(p \<mapsto> c\<lparr>jc_stream := q\<rparr>)"
  "clinks (fill k p c q s) = clinks s" "sent (fill k p c q s) = sent s" "clock (fill k p c q s) = clock s"
  "write_env (fill k p c q s) = write_env s" "read_env (fill k p c q s) = read_env s"
  "closed_fds (fill k p c q s) = closed_fds s" "event_state.more (fill k p c q s) = event_state.more s"
  "interest (fill k p c q s) = (interest s)(jc_fd c \<mapsto> (EPOLLOUT, Ptr k))"
  by (simp_all add: fill_def)

lemma fill_events:
  "g_events (fill k p c q s) = (g_events s)[k := (g_events s ! k)\<lparr>ev_jc := p, ev_fd := jc_fd c,
     call_back := Connect_cb, ev_arg := k, last_active := time_now s, ev_events := EPOLLOUT, ev_status := 1\<rparr>]"
  by (simp add: fill_def)

lemma attach_fills:
  fixes s :: "'z event_state_scheme"
  assumes c: "jconns s p = Some c" "jc_status c = BEGIN_CONN" and none: "interest s (jc_fd c) = None"
    and len: "length (g_events s) = MAX_EVENTS + 1"
  shows "(if \<exists>k < MAX_EVENTS. ev_status (g_events s ! k) = 0
      then \<exists>k < MAX_EVENTS. ev_status (g_events s ! k) = 0 \<and> attach_stream_to_connect p q s = Inr (fill k p c q s)
      else attach_stream_to_connect p q s = Inl Invalid_access)"
proof (cases "\<exists>k < MAX_EVENTS. ev_status (g_events s ! k) = 0")
  case True
  let ?s = "set_conn p (c\<lparr>jc_stream := q\<rparr>) s"
  obtain k where k: "k < MAX_EVENTS" "evget (- 1) ?s = Inr (Some k)" "ev_status (g_events ?s ! k) = 0"
    using evget_free [of ?s] len True by auto
  have "k < length (g_events s)" using k(1) len by simp
  then have "attach_stream_to_connect p q s = Inr (fill k p c q s)"
    using c k none
    by (simp add: attach_stream_to_connect_def get_conn_def Let_def eventset_def get_ev_ok eventadd_def
        epoll_ctl_def fill_def set_ev_def time_now_def set_conn_def)
  then show ?thesis using True k by auto
next
  case False
  let ?s = "set_conn p (c\<lparr>jc_stream := q\<rparr>) s"
  have "evget (- 1) ?s = Inr None" using evget_from_free [of ?s 0] len False unfolding evget_def by auto
  then show ?thesis using c False by (simp add: attach_stream_to_connect_def get_conn_def Let_def eventset_def)
qed

text \<open>
  A free slot is filled: it gets a connection that no other slot uses, whose stream has just been
  made, and a new descriptor is registered for it.
\<close>

lemma slot_filled:
  fixes s :: "'z event_state_scheme"
  assumes t: "table_ok s" and cr: "created s s1 q x" and k: "k < MAX_EVENTS" "k \<notin> active s"
    and fd: "0 \<le> ev_fd e" "interest s (ev_fd e) = None" "server_sock x = ev_fd e"
    and c: "ev_jc e \<noteq> Null" "\<forall>j \<in> active s. slot_jc s j \<noteq> ev_jc e" "jc_fd c = ev_fd e" "jc_stream c = q"
    and e: "ev_status e = 1"
    and mem: "mem_ok s' = mem_ok s1" "live s' = live s1" "block_bytes s' = block_bytes s1"
      "bufs s' = bufs s1" "streams s' = streams s1"
    and evs: "g_events s' = (g_events s)[k := e]" and cs: "jconns s' = (jconns s)(ev_jc e \<mapsto> c)"
    and int: "interest s' = (interest s)(ev_fd e \<mapsto> (ev_events e, Ptr k))"
  shows "slot_step s s' k" and "active s' = insert k (active s)" and "slot_rep s' k c x"
proof -
  note so = stream_cong [OF mem(4,2,3,5)]
  have len: "length (g_events s) = MAX_EVENTS + 1" using t by (simp add: table_ok_def)
  have evj: "g_events s' ! j = g_events s ! j" if "j \<noteq> k" for j using that unfolding evs by simp
  have evk: "g_events s' ! k = e" using k(1) len unfolding evs by simp
  have x: "stream_ok s1 q x" using cr by (simp add: created_def)
  show rep: "slot_rep s' k c x" using evk x fd c cs int so by (simp add: slot_rep_def)
  have act: "k \<in> active s'" using evk k(1) e by (simp add: active_def)
  have bk: "slot_blocks s' k = stream_blocks s1 q x" using slot_blocks_rep [OF act rep] so c(4) by simp
  have bs: "slot_blocks s k = {}" using k(2) by (simp add: slot_blocks_def)
  have lv: "live s1 = live s \<union> stream_blocks s1 q x" "stream_blocks s1 q x \<inter> live s = {}"
    using cr by (simp_all add: created_def)
  have other: "jconns s' (slot_jc s j) = Some d \<and> interest s' (slot_fd s j) = interest s (slot_fd s j) \<and>
      keeps s s' (jc_stream d) y" if j: "j \<in> active s" "slot_rep s j d y" for j d y
  proof -
    have y: "stream_ok s (jc_stream d) y" "jconns s (slot_jc s j) = Some d" "interest s (slot_fd s j) \<noteq> None"
      using j(2) by (auto simp: slot_rep_def)
    have "keeps s s1 (jc_stream d) y" by (rule keeps_created [OF y(1) cr])
    then have "keeps s s' (jc_stream d) y" using mem by (simp add: keeps_def)
    moreover have "slot_jc s j \<noteq> ev_jc e" "slot_fd s j \<noteq> ev_fd e" using c(2) j(1) y(3) fd(2) by auto
    ultimately show ?thesis using y(2) cs int by simp
  qed
  have sub: "slot_blocks s j \<subseteq> live s" for j using t unfolding table_ok_def by blast
  have dis: "slot_blocks s' k \<inter> slot_blocks s j = {}" for j using sub [of j] lv(2) bk by blast
  have intr: "if m = k then k \<in> active s' \<and> slot_fd s' k = d else interest s d = Some (w, Ptr m)"
    if "interest s' d = Some (w, Ptr m)" for d w m
  proof (cases "d = ev_fd e")
    case True
    then show ?thesis using that act evk int by auto
  next
    case False
    then have i: "interest s d = Some (w, Ptr m)" using that int by simp
    then have "m \<noteq> k" using table_interest [OF t i] k by auto
    then show ?thesis using i by simp
  qed
  have frm: "interest s' d = interest s d" if "d \<noteq> slot_fd s' k" for d using that evk int by simp
  have "live s' = slot_blocks s' k \<union> (live s - slot_blocks s k)" using lv(1) bk bs mem(2) by auto
  moreover have "length (g_events s') = length (g_events s)" using evs by simp
  moreover have "mem_ok s'" using cr mem(1) by (simp add: created_def)
  moreover have "slot_jc s' k \<noteq> slot_jc s j" if "j \<in> active s" for j using c(2) that evk by force
  ultimately show st: "slot_step s s' k"
    unfolding slot_step_def using evj other rep dis frm intr by blast
  have "j \<in> active s' \<longleftrightarrow> j \<in> insert k (active s)" for j
    using act slot_step_other(1) [OF t st, of j] by (cases "j = k") simp_all
  then show "active s' = insert k (active s)" by blast
qed

lemma fill_step:
  fixes s :: "'z event_state_scheme"
  assumes ok: "client_ok s" and c: "jconns s p = Some c" "p \<noteq> Null" "\<forall>j \<in> active s. slot_jc s j \<noteq> p"
    and fd: "0 \<le> jc_fd c" "interest s (jc_fd c) = None"
    and cr: "created s s1 q x" "server_sock x = jc_fd c"
    and k: "k < MAX_EVENTS" "ev_status (g_events s ! k) = 0"
  shows "client_ok (fill k p c q s1)" and "active (fill k p c q s1) = insert k (active s)"
    and "slot_rep (fill k p c q s1) k (c\<lparr>jc_stream := q\<rparr>) x"
    and "j \<in> active s \<Longrightarrow> slot_same s (fill k p c q s1) j"
proof -
  let ?s = "fill k p c q s1"
  let ?e = "(g_events s ! k)\<lparr>ev_jc := p, ev_fd := jc_fd c, call_back := Connect_cb, ev_arg := k,
     last_active := time_now s1, ev_events := EPOLLOUT, ev_status := 1\<rparr>"
  have t: "table_ok s" "conn_ok s []" using ok by (simp_all add: client_ok_def)
  have len: "length (g_events s) = MAX_EVENTS + 1" using t(1) by (simp add: table_ok_def)
  have more: "stream_state.more s1 = stream_state.more s" "jconns s1 = jconns s" "clinks s1 = clinks s"
    using cr(1) by (simp_all add: created_def)
  note ev = more_event [OF more(1)]
  have kn: "k \<notin> active s" using k by (simp add: active_def)
  have f: "slot_step s ?s k" "active ?s = insert k (active s)" "slot_rep ?s k (c\<lparr>jc_stream := q\<rparr>) x"
    using fd cr(2) c(2,3) ev more(2)
    by (intro slot_filled [OF t(1) cr(1) k(1) kn, where e = ?e]; simp add: fill_events)+
  then show "active ?s = insert k (active s)" "slot_rep ?s k (c\<lparr>jc_stream := q\<rparr>) x" by blast+
  have evk: "g_events ?s ! k = ?e" using k(1) len unfolding fill_events ev by simp
  have "conn_ok s1 []" by (rule conn_ok_cong [OF t(2) more(3,2)])
  then have "conn_ok (set_conn p (c\<lparr>jc_stream := q\<rparr>) s1) []" by (rule conn_ok_set) (simp add: more(2) c(1))
  then have "conn_ok ?s []" by (rule conn_ok_cong) simp_all
  moreover have "call_back (g_events ?s ! j) \<in> {Connect_cb, Data_transfer} \<and> ev_arg (g_events ?s ! j) = j"
    if "j \<in> active ?s" for j
    using that ok f(2) evk unfolding fill_events ev by (cases "j = k") (simp_all add: client_ok_def)
  moreover have "interest ?s d \<noteq> Some (w, Ptr MAX_EVENTS)" for d w
    using ok k(1) ev by (simp add: client_ok_def)
  ultimately show "client_ok ?s" using slot_step_table [OF t(1) f(1)] by (simp add: client_ok_def)
  show "slot_same s ?s j" if "j \<in> active s"
    using slot_step_same [OF t(1) f(1) _ that] that kn by blast
qed

section \<open>Creating a transaction\<close>

lemma create_connect_socket_shape:
  fixes s :: "'z comm_state_scheme"
  assumes "length (inx_addr a) = 16" and "flg = USE_IPV4 \<or> 8 \<le> length bh"
  shows "create_connect_socket psa a bh flg prt s = Inl Stuck \<or>
    (\<exists>r psa' so nc. create_connect_socket psa a bh flg prt s = Inr (r, psa', s\<lparr>socket_env := so, net_calls := nc\<rparr>) \<and>
      (r < 0 \<or> interest s r = None))"
proof -
  let ?m = "addr_mem a bh"
  have m: "16 \<le> length ?m" "flg \<noteq> USE_IPV4 \<Longrightarrow> 28 \<le> length ?m" using assms by (auto simp: addr_mem_def)
  have tail: "bindE (sys_socket s) (\<lambda>(out, s).
      let sock = so_fd out in
      if sock < 0 then Inr (- 1, psa', s)
      else if comm_set_nonblock out < 0 then Inr (- 2, psa', s)
      else (case connect_nonb out sock psa' s of (r, s) \<Rightarrow>
        if r = - 1 then Inr (- 3, psa', s) else Inr (sock, psa', s))) = Inl Stuck \<or>
    (\<exists>r so nc. bindE (sys_socket s) (\<lambda>(out, s).
      let sock = so_fd out in
      if sock < 0 then Inr (- 1, psa', s)
      else if comm_set_nonblock out < 0 then Inr (- 2, psa', s)
      else (case connect_nonb out sock psa' s of (r, s) \<Rightarrow>
        if r = - 1 then Inr (- 3, psa', s) else Inr (sock, psa', s))) =
      Inr (r, psa', s\<lparr>socket_env := so, net_calls := nc\<rparr>) \<and> (r < 0 \<or> interest s r = None))"
    (is "?run = _ \<or> _") for psa'
  proof (cases "\<exists>out outs. socket_env s = out # outs \<and> interest s (so_fd out) = None")
    case True
    then obtain out outs where o: "socket_env s = out # outs" "interest s (so_fd out) = None" by blast
    have "connect_result out psa' < 0 \<or> interest s (connect_result out psa') = None"
      using o(2) by (simp add: connect_result_def)
    with create_connect_socket_tail [OF o, of psa'] show ?thesis by blast
  next
    case False
    then have "sys_socket s = Inl Stuck" by (auto simp: sys_socket_def split: list.splits)
    then show ?thesis by simp
  qed
  show ?thesis
  proof (cases "flg = USE_IPV4")
    case True
    then show ?thesis unfolding create_connect_socket_def Let_def [of ?m]
      using m(1) tail [of "splice 4 (take 16 ?m) (splice 2 (le16 prt) (splice 0 (le16 2) psa))"] by auto
  next
    case False
    then show ?thesis unfolding create_connect_socket_def Let_def [of ?m]
      using m(2) tail [of "splice 8 (take 28 ?m) (splice 2 (le16 prt) (splice 0 (le16 10) psa))"] by auto
  qed
qed

lemma malloc_conn_shape:
  "malloc_conn s = Inl Stuck \<or> (\<exists>m. malloc_conn s = Inr (Null, s\<lparr>conn_mem := m\<rparr>)) \<or>
   (\<exists>p c m. malloc_conn s = Inr (p, set_conn p c (s\<lparr>conn_mem := m, clinks := (clinks s)(p \<mapsto> \<lparr>nxt = Null, prev = Null\<rparr>)\<rparr>)) \<and>
     p \<noteq> Null \<and> p \<noteq> invaild_conn \<and> jconns s p = None \<and> clinks s p = None)"
proof (cases "conn_mem s")
  case Nil
  then have "malloc_conn s = Inr (Null, s\<lparr>conn_mem := []\<rparr>)" by (simp add: malloc_conn_def)
  then show ?thesis by blast
next
  case (Cons a rest)
  then show ?thesis by (cases a) (auto simp: malloc_conn_def)
qed

lemma length_le64 [simp]: "length (le64 w) = 8"
  by (simp add: le64_def)

lemma upd_mem_clock [simp]:
  "mem_ok (s\<lparr>clock := t\<rparr>) = mem_ok s" "live (s\<lparr>clock := t\<rparr>) = live s"
  "block_bytes (s\<lparr>clock := t\<rparr>) = block_bytes s"
  by (rule mem_fields_cong; simp)+

lemma upd_mem_clinks [simp]:
  "mem_ok (s\<lparr>clinks := h\<rparr>) = mem_ok s" "live (s\<lparr>clinks := h\<rparr>) = live s"
  "block_bytes (s\<lparr>clinks := h\<rparr>) = block_bytes s"
  by (rule mem_fields_cong; simp)+

lemma upd_mem_comm [simp]:
  "mem_ok (s\<lparr>conn_mem := m\<rparr>) = mem_ok s" "live (s\<lparr>conn_mem := m\<rparr>) = live s"
  "block_bytes (s\<lparr>conn_mem := m\<rparr>) = block_bytes s"
  "mem_ok (s\<lparr>socket_env := so\<rparr>) = mem_ok s" "live (s\<lparr>socket_env := so\<rparr>) = live s"
  "block_bytes (s\<lparr>socket_env := so\<rparr>) = block_bytes s"
  "mem_ok (s\<lparr>net_calls := nc\<rparr>) = mem_ok s" "live (s\<lparr>net_calls := nc\<rparr>) = live s"
  "block_bytes (s\<lparr>net_calls := nc\<rparr>) = block_bytes s"
  by (rule mem_fields_cong; simp)+

lemma upd_mem_client [simp]:
  "mem_ok (s\<lparr>log_mem := lm\<rparr>) = mem_ok s" "live (s\<lparr>log_mem := lm\<rparr>) = live s"
  "block_bytes (s\<lparr>log_mem := lm\<rparr>) = block_bytes s"
  by (rule mem_fields_cong; simp)+

lemma set_conn_behind [simp]:
  "behind (set_conn q c s) = behind s" "log_mem (set_conn q c s) = log_mem s"
  by (simp_all add: set_conn_def)

text \<open>
  \<open>started s s' e\<close>: a transaction for the entry \<open>e\<close> has been tried. Either there is no
  connection and nothing in the table has changed, or one more slot is in use, waiting to send
  the frame.
\<close>

definition new_slot ::
  "'z event_state_scheme \<Rightarrow> 'z event_state_scheme \<Rightarrow> transfer_log_entry \<Rightarrow> nat \<Rightarrow> jconnect \<Rightarrow> tcp_stream \<Rightarrow> bool" where
  "new_slot s s' e k c x \<longleftrightarrow> k \<notin> active s \<and> active s' = insert k (active s) \<and> slot_rep s' k c x \<and>
     call_back (g_events s' ! k) = Connect_cb \<and> last_active (g_events s' ! k) = time_now s' \<and>
     buf_bytes s' (in_buf x) = le64 512 @ take 512 (gather_logmsg e) \<and> buf_bytes s' (out_buf x) = []"

definition started :: "'z event_state_scheme \<Rightarrow> 'z event_state_scheme \<Rightarrow> transfer_log_entry \<Rightarrow> bool" where
  "started s s' e \<longleftrightarrow> client_ok s' \<and> (\<forall>j \<in> active s. slot_same s s' j) \<and> closed_fds s' = closed_fds s \<and>
     sent s' = sent s \<and> write_env s' = write_env s \<and> read_env s' = read_env s \<and> clock s' = clock s \<and>
     (active s' = active s \<or> (\<exists>k c x. new_slot s s' e k c x))"

text \<open>There is memory for one more stream and a slot for it.\<close>

definition room :: "'z event_state_scheme \<Rightarrow> bool" where
  "room s \<longleftrightarrow> 5 \<le> malloc_left s \<and> (\<exists>k < MAX_EVENTS. ev_status (g_events s ! k) = 0)"

text \<open>Once there is a connection that no slot uses.\<close>

lemma send_entry_outcome:
  fixes s :: "'z event_state_scheme"
  assumes ok: "client_ok s" and c: "jconns s p = Some c" "p \<noteq> Null" "\<forall>j \<in> active s. slot_jc s j \<noteq> p"
    "jc_status c = BEGIN_CONN" and fd: "0 \<le> jc_fd c" "interest s (jc_fd c) = None"
    and msg: "512 \<le> length (gather_logmsg e)" "length (gather_logmsg e) < 2 ^ 63"
  shows "(\<forall>s'. send_entry e p s = Inr s' \<longrightarrow>
      started s s' e \<and> (\<exists>k c' x. new_slot s s' e k c' x \<and> jc_fd c' = jc_fd c)) \<and>
    (room s \<longrightarrow> (\<exists>s'. send_entry e p s = Inr s'))"
proof -
  have t: "table_ok s" using ok by (simp add: client_ok_def)
  have m: "mem_ok s" "length (g_events s) = MAX_EVENTS + 1" using t by (simp_all add: table_ok_def)
  have n: "unat (scast (512 :: uint32) :: size_t) = 512" by simp
  have len8: "length (le64 512) < 2 ^ 63" by simp
  let ?new = "new_transaction_stream (jc_fd c) (le64 512) (gather_logmsg e) 512 s"
  have send: "send_entry e p s = bindE ?new (\<lambda>(q, s). attach_stream_to_connect p q s)"
    using c(1) by (simp add: send_entry_def get_conn_def)
  have att: "(if \<exists>k < MAX_EVENTS. ev_status (g_events s ! k) = 0
      then \<exists>k < MAX_EVENTS. ev_status (g_events s ! k) = 0 \<and> attach_stream_to_connect p q s1 = Inr (fill k p c q s1)
      else attach_stream_to_connect p q s1 = Inl Invalid_access)" if run: "?new = Inr (q, s1)" for q s1
  proof -
    obtain x where "created s s1 q x" using new_transaction_returns [OF m(1) run len8 msg(2)] by blast
    then have same: "jconns s1 = jconns s" "stream_state.more s1 = stream_state.more s" by (simp_all add: created_def)
    note ev = more_event [OF same(2)]
    have "jconns s1 p = Some c" "interest s1 (jc_fd c) = None" "length (g_events s1) = MAX_EVENTS + 1"
      using c(1) fd(2) m(2) same(1) ev by simp_all
    from attach_fills [OF this(1) c(4) this(2,3), of q] show ?thesis unfolding ev .
  qed
  have "started s s' e \<and> (\<exists>k c' x. new_slot s s' e k c' x \<and> jc_fd c' = jc_fd c)"
    if r: "send_entry e p s = Inr s'" for s'
  proof -
    obtain q s1 where run: "?new = Inr (q, s1)" and at: "attach_stream_to_connect p q s1 = Inr s'"
      using r unfolding send by (auto simp: res_simps)
    obtain x where x: "created s s1 q x" "server_sock x = jc_fd c" "buf_bytes s1 (out_buf x) = []"
      "buf_bytes s1 (in_buf x) = le64 512 @ take 512 (gather_logmsg e)"
      using new_transaction_returns [OF m(1) run len8 msg(2)] n by auto
    have same: "stream_state.more s1 = stream_state.more s" "sent s1 = sent s"
      "closed_fds s1 = closed_fds s" "write_env s1 = write_env s" "read_env s1 = read_env s" "clock s1 = clock s"
      using x(1) by (simp_all add: created_def)
    note ev = more_event [OF same(1)]
    obtain k where k: "k < MAX_EVENTS" "ev_status (g_events s ! k) = 0" "s' = fill k p c q s1"
      using att [OF run] at by (auto split: if_splits)
    note f = fill_step [OF ok c(1-3) fd x(1,2) k(1,2)]
    have bb: "buf_bytes (fill k p c q s1) = buf_bytes s1" by (rule bufs_cong) simp_all
    have kn: "k \<notin> active s" using k(2) by (simp add: active_def)
    have cb: "call_back (g_events (fill k p c q s1) ! k) = Connect_cb"
      "last_active (g_events (fill k p c q s1) ! k) = time_now (fill k p c q s1)"
      using k(1) m(2) ev by (simp_all add: fill_events time_now_def)
    have new: "new_slot s s' e k (c\<lparr>jc_stream := q\<rparr>) x"
      using f(2,3) kn cb bb x(3,4) k(3) by (simp add: new_slot_def)
    then have "started s s' e" using f(1,4) same k(3) unfolding started_def by auto
    moreover have "jc_fd (c\<lparr>jc_stream := q\<rparr>) = jc_fd c" by simp
    ultimately show ?thesis using new by blast
  qed
  moreover have "\<exists>s'. send_entry e p s = Inr s'" if r: "room s"
  proof -
    obtain q s1 where run: "?new = Inr (q, s1)"
      using new_transaction_total [OF m(1), of "le64 512" 512 "gather_logmsg e" "jc_fd c"] r msg n
      by (auto simp: room_def)
    then show ?thesis using att [OF run] r unfolding send by (auto simp: room_def)
  qed
  ultimately show ?thesis by blast
qed

lemma started_from:
  assumes st: "started s1 s2 e" and "active s1 = active s" and "\<And>j. slot_same s s1 j"
    and "closed_fds s1 = closed_fds s" and "sent s1 = sent s" and "write_env s1 = write_env s"
    and "read_env s1 = read_env s" and "clock s1 = clock s"
  shows "started s s2 e"
proof -
  have "new_slot s s2 e k c x = new_slot s1 s2 e k c x" for k c x using assms(2) by (simp add: new_slot_def)
  moreover have "slot_same s s2 j" if "j \<in> active s" for j
    using slot_same_trans [OF assms(3)] st that assms(2) unfolding started_def by blast
  ultimately show ?thesis using assms unfolding started_def by auto
qed

text \<open>The pool is empty, so that there is never a connection to take.\<close>

lemma get_connection_empty:
  assumes "conn_ok s []"
  shows "get_connection s = Some (Inr (Null, s))"
proof -
  have ring: "dlist (clinks s) g_jconnect []" and none: "clinks s invaild_conn = None"
    using assms by (simp_all add: conn_ok_def)
  let ?h = "(clinks s)(invaild_conn \<mapsto> \<lparr>nxt = invaild_conn, prev = invaild_conn\<rparr>)"
  obtain n where n: "rd_node (clinks s) g_jconnect = Inr n" "nxt n = g_jconnect" using dlist_first [OF ring] by auto
  then have n1: "rd_node ?h g_jconnect = Inr n" by (simp add: rd_node_def)
  have i: "INIT_LIST_HEAD invaild_conn ((clinks s)(invaild_conn \<mapsto> \<lparr>nxt = Null, prev = Null\<rparr>)) = Inr ?h"
    by (simp add: INIT_LIST_HEAD_def set_nxt_def set_prev_def rd_node_def)
  have "(clinks s)(invaild_conn := None) = clinks s" using none by auto
  moreover have "s\<lparr>clinks := clinks s\<rparr> = s" by (cases s) simp
  ultimately show ?thesis using n1 n(2) i
    by (simp add: get_connection_def with_clinks_def pick_loop.simps [of g_jconnect] rd_node_def
        free_loop.simps [of invaild_conn])
qed

lemma create_transaction_starts:
  fixes s :: "'z client_state_scheme"
  assumes ok: "client_ok s" and msg: "512 \<le> length (gather_logmsg e)" "length (gather_logmsg e) < 2 ^ 63"
    and addr: "length (inx_addr (ip e)) = 16" "flag (ip e) = USE_IPV4 \<or> 8 \<le> length (behind s)"
  shows "create_transaction e s \<noteq> None \<and>
    (\<forall>f. create_transaction e s = Some (Inl f) \<longrightarrow> room s \<longrightarrow> f = Stuck) \<and>
    (\<forall>s'. create_transaction e s = Some (Inr s') \<longrightarrow> started s s' e)"
proof -
  have h: "get_connection s = Some (Inr (Null, s))" using ok by (intro get_connection_empty) (simp add: client_ok_def)
  have quiet: "started s s' e" if "client_ok s'" "active s' = active s" "\<And>j. slot_same s s' j"
    "closed_fds s' = closed_fds s" "sent s' = sent s" "write_env s' = write_env s" "read_env s' = read_env s"
    "clock s' = clock s" for s' :: "'z client_state_scheme"
    using that by (simp add: started_def)
  consider "malloc_conn s = Inl Stuck" | m where "malloc_conn s = Inr (Null, s\<lparr>conn_mem := m\<rparr>)"
    | p c m where "malloc_conn s = Inr (p, set_conn p c (s\<lparr>conn_mem := m, clinks := (clinks s)(p \<mapsto> \<lparr>nxt = Null, prev = Null\<rparr>)\<rparr>))"
      "p \<noteq> Null" "p \<noteq> invaild_conn" "jconns s p = None" "clinks s p = None"
    using malloc_conn_shape [of s] by blast
  then show ?thesis
  proof cases
    case 1
    then show ?thesis using h by (simp add: create_transaction_def)
  next
    case 2
    let ?s1 = "s\<lparr>conn_mem := m\<rparr>"
    have "client_ok ?s1" "active ?s1 = active s" "slot_same s ?s1 j" for j
      using client_cong [of ?s1 s] ok by simp_all
    then have "started s ?s1 e" by (intro quiet) simp_all
    then show ?thesis using h 2 by (simp add: create_transaction_def)
  next
    case 3
    define s1 where "s1 = set_conn p c (s\<lparr>conn_mem := m, clinks := (clinks s)(p \<mapsto> \<lparr>nxt = Null, prev = Null\<rparr>)\<rparr>)"
    note new = client_new_conn [OF ok 3(4,5,2,3)]
    note sh = create_connect_socket_shape [OF addr, of "replicate 128 0" "ucast (tl_port e)" s1]
    show ?thesis
    proof (cases "create_connect_socket (replicate 128 0) (ip e) (behind s) (flag (ip e)) (ucast (tl_port e)) s1 = Inl Stuck")
      case True
      then show ?thesis using h 3(1,2) by (simp add: create_transaction_def s1_def)
    next
      case False
      then obtain r psa' so nc where cs: "create_connect_socket (replicate 128 0) (ip e) (behind s) (flag (ip e)) (ucast (tl_port e)) s1 =
          Inr (r, psa', s1\<lparr>socket_env := so, net_calls := nc\<rparr>)" and r: "r < 0 \<or> interest s1 r = None"
        using sh by blast
      let ?s2 = "s1\<lparr>socket_env := so, net_calls := nc\<rparr>"
      have bh: "behind s1 = behind s" by (simp add: s1_def)
      have c2: "jconns ?s2 p = Some c" by (simp add: s1_def)
      show ?thesis
      proof (cases "r < 0")
        case True
        have "client_ok ?s2" "active ?s2 = active s" "slot_same s ?s2 j" for j
          using new(1-3) [of ?s2 c "\<lparr>nxt = Null, prev = Null\<rparr>"] by (simp_all add: s1_def)
        then have "started s ?s2 e"
          by (intro quiet) (simp_all add: s1_def)
        moreover have "create_transaction e s = Some (Inr ?s2)"
          using h 3(1,2) cs bh True by (simp add: create_transaction_def s1_def)
        ultimately show ?thesis by simp
      next
        case False
        let ?c = "c\<lparr>jc_fd := r, is_alive := 0, jc_status := BEGIN_CONN\<rparr>" and ?s3 = "set_conn p (c\<lparr>jc_fd := r, is_alive := 0, jc_status := BEGIN_CONN\<rparr>) ?s2"
        have s3: "client_ok ?s3" "active ?s3 = active s" "slot_same s ?s3 j" "\<forall>j \<in> active ?s3. slot_jc ?s3 j \<noteq> p" for j
          using new [of ?s3 ?c "\<lparr>nxt = Null, prev = Null\<rparr>"] by (simp_all add: s1_def)
        have fd3: "interest ?s3 r = None" "room ?s3 = room s"
          using r False by (simp_all add: s1_def room_def)
        have run: "create_transaction e s = Some (send_entry e p ?s3)"
          using h 3(1,2) cs bh False c2 by (simp add: create_transaction_def s1_def get_conn_def)
        have "(\<forall>s'. send_entry e p ?s3 = Inr s' \<longrightarrow> started ?s3 s' e) \<and>
            (room ?s3 \<longrightarrow> (\<exists>s'. send_entry e p ?s3 = Inr s'))"
          using send_entry_outcome [OF s3(1), of p ?c e] s3(4) 3(2) False fd3(1) msg by auto
        moreover have "started s s' e" if "started ?s3 s' e" for s'
          using s3(2,3)
          by (intro started_from [OF that]) (simp_all add: s1_def)
        ultimately show ?thesis using run fd3(2) by auto
      qed
    qed
  qed
qed

section \<open>The rounds of the loop\<close>

text \<open>The entry that \<open>main_loop\<close> makes in a block that held \<open>junk\<close>.\<close>

definition entry_for :: "transfer_log_entry \<Rightarrow> transfer_log_entry" where
  "entry_for junk = junk\<lparr>ip := \<lparr>inx_addr = [192, 168, 104, 159] @ replicate 12 0, flag = USE_IPV4\<rparr>, proto := 1,
     tl_port := ucast (htons 9527), msg_len := of_nat (length log_msg),
     gather_logmsg := splice 0 (map (\<lambda>ch. of_nat (of_char ch)) log_msg) (gather_logmsg junk)\<rparr>"

text \<open>What \<open>inet_pton\<close> does with the address of the benchmark.\<close>

definition knows_ip :: "pton \<Rightarrow> bool" where
  "knows_ip inet_pton \<longleftrightarrow> inet_pton AF_INET (dotted_quad 192 168 104 159) = (1, [192, 168, 104, 159])"

lemma length_log_msg: "length log_msg = 140"
  by code_simp

lemma log_ip_text: "\<exists>r. log_ip = dotted_quad 192 168 104 159 @ NUL # r"
proof -
  have "dotted_quad 192 168 104 159 = ''192.168.104.159''" by code_simp
  then show ?thesis by (simp add: log_ip_def numeral_eq_Suc)
qed

lemma start_transaction_eq:
  assumes "knows_ip inet_pton" and "log_mem s = Some junk # rest" and "length (gather_logmsg junk) = 32 * 1024"
  shows "start_transaction inet_pton s = create_transaction (entry_for junk) (s\<lparr>log_mem := rest\<rparr>)"
proof -
  obtain r where r: "log_ip = dotted_quad 192 168 104 159 @ NUL # r" using log_ip_text by blast
  have "\<exists>a b. check_host_ip_and_get_verion inet_pton log_ip (ip junk) =
      Inr (a, b, \<lparr>inx_addr = [192, 168, 104, 159] @ replicate 12 0, flag = USE_IPV4\<rparr>)"
    unfolding r using check_ipv4_text assms(1) [unfolded knows_ip_def] by blast
  then show ?thesis using assms(2,3) by (auto simp: start_transaction_def entry_for_def)
qed

definition start_ready :: "'z client_state_scheme \<Rightarrow> bool" where
  "start_ready s \<longleftrightarrow> room s \<and> (\<exists>junk rest. log_mem s = Some junk # rest)"

lemma room_upd [simp]: "room (s\<lparr>log_mem := m\<rparr>) = room s" "room (s\<lparr>clock := t\<rparr>) = room s"
  by (simp_all add: room_def)

lemma start_transaction_outcome:
  assumes ok: "client_ok s" and ip: "knows_ip inet_pton"
  shows "start_transaction inet_pton s \<noteq> None \<and>
    (\<forall>f. start_transaction inet_pton s = Some (Inl f) \<longrightarrow> start_ready s \<longrightarrow> f = Stuck) \<and>
    (\<forall>s'. start_transaction inet_pton s = Some (Inr s') \<longrightarrow>
      (\<exists>junk rest. log_mem s = Some junk # rest \<and> started s s' (entry_for junk)))"
proof (cases "log_mem s")
  case Nil
  then show ?thesis by (simp add: start_transaction_def start_ready_def)
next
  case (Cons e rest)
  show ?thesis
  proof (cases e)
    case None
    then show ?thesis using Cons by (simp add: start_transaction_def start_ready_def)
  next
    case (Some junk)
    show ?thesis
    proof (cases "length (gather_logmsg junk) = 32 * 1024")
      case True
      let ?s = "s\<lparr>log_mem := rest\<rparr>"
      have eq: "start_transaction inet_pton s = create_transaction (entry_for junk) ?s"
        using start_transaction_eq [OF ip, of s junk rest] Cons Some True by simp
      have c: "client_ok ?s = client_ok s" "active ?s = active s" "\<And>j. slot_same s ?s j"
        using client_cong [of ?s s] by simp_all
      have e: "512 \<le> length (gather_logmsg (entry_for junk))" "length (gather_logmsg (entry_for junk)) < 2 ^ 63"
        "length (inx_addr (ip (entry_for junk))) = 16" "flag (ip (entry_for junk)) = USE_IPV4 \<or> 8 \<le> length (behind ?s)"
        using True by (simp_all add: entry_for_def length_log_msg)
      have "started s s' (entry_for junk)" if "started ?s s' (entry_for junk)" for s'
        by (rule started_from [OF that]) (simp_all add: c)
      then show ?thesis using create_transaction_starts [of ?s, OF _ e] ok c(1) Cons Some
        unfolding eq by (auto simp: start_ready_def)
    next
      case False
      have "\<exists>r. check_host_ip_and_get_verion inet_pton log_ip (ip junk) = Inr r"
        using log_ip_text check_ipv4_text ip [unfolded knows_ip_def] by metis
      then show ?thesis using Cons Some False by (auto simp: start_transaction_def)
    qed
  qed
qed

lemma swept_client:
  assumes ok: "client_ok s" and sw: "swept s s' rs"
  shows "client_ok s'"
proof -
  have "conn_ok s []" "clinks s' = clinks s" "jconns s' = jconns s"
    using sw ok unfolding swept_def client_ok_def by blast+
  then have "conn_ok s' []" by (rule conn_ok_cong)
  moreover have a: "active s' = active s - set rs" "\<forall>j. j \<notin> set rs \<longrightarrow> g_events s' ! j = g_events s ! j"
    "table_ok s'" using sw unfolding swept_def by blast+
  moreover have "call_back (g_events s' ! j) \<in> {Connect_cb, Data_transfer} \<and> ev_arg (g_events s' ! j) = j"
    if "j \<in> active s'" for j
  proof -
    have "j \<in> active s" "g_events s' ! j = g_events s ! j" using that a by simp_all
    then show ?thesis using ok by (simp add: client_ok_def)
  qed
  moreover have "interest s' d \<noteq> Some (w, Ptr MAX_EVENTS)" for d w
  proof
    assume l: "interest s' d = Some (w, Ptr MAX_EVENTS)"
    have "interest s d = Some (w, Ptr MAX_EVENTS)" by (rule swept_listener [OF sw l])
    then show False using ok by (simp add: client_ok_def)
  qed
  ultimately show ?thesis by (simp add: client_ok_def)
qed

lemma epoll_wait_slots:
  assumes ok: "client_ok s" and w: "epoll_wait w s = Inr (Done rs)"
  shows "distinct (slots rs)" and "set (slots rs) \<subseteq> active s"
proof -
  have t: "table_ok s" using ok by (simp add: client_ok_def)
  have r: "distinct (slots rs)" "list_all (\<lambda>r. reported r s) rs"
    using w by (auto simp: epoll_wait_def split: outcome.splits if_splits)
  then show "distinct (slots rs)" by simp
  have "i \<in> active s" if rp: "reported (Ready i re we) s" for i re we
  proof -
    obtain v where "interest s (slot_fd s i) = Some v" "snd v = Ptr i" using rp by (auto simp: reported_def)
    then obtain w where w: "interest s (slot_fd s i) = Some (w, Ptr i)" by (cases v) simp
    then have "i \<noteq> MAX_EVENTS" using ok by (auto simp: client_ok_def)
    then show ?thesis using table_interest [OF t w] by blast
  qed
  with r(2) show "set (slots rs) \<subseteq> active s"
    by (induction rs) (auto split: ready.splits)
qed

lemma main_round_outcome:
  assumes ok: "client_ok s" and ip: "knows_ip inet_pton" and pos: "pos \<le> MAX_EVENTS"
  shows "main_round inet_pton tickle w (pos, nt, s) \<noteq> None \<and>
    (\<forall>f. main_round inet_pton tickle w (pos, nt, s) = Some (Inl f) \<longrightarrow>
      (nt \<le> p_clock w div 1000 \<longrightarrow> start_ready s) \<longrightarrow> f = Stuck) \<and>
    (\<forall>go pos' nt' s'. main_round inet_pton tickle w (pos, nt, s) = Some (Inr (go, pos', nt', s')) \<longrightarrow>
      client_ok s' \<and> pos' \<le> MAX_EVENTS)"
proof -
  let ?s = "s\<lparr>clock := p_clock w\<rparr>" and ?t = "p_clock w div 1000"
  have ok0: "client_ok ?s" using client_cong(1) [of ?s s] ok by simp
  have tn: "time_now ?s = ?t" by (simp add: time_now_def)
  define st where "st = (if ?t \<ge> nt
            then bindT (start_transaction inet_pton ?s) (\<lambda>s.
              Some (Inr (sint (word_of_int (?t + 1) :: uint32), s)))
            else Some (Inr (nt, ?s)))"
  have run: "main_round inet_pton tickle w (pos, nt, s) = bindT st (\<lambda>(nt, s).
     bindT (Some (expires_house_keeping pos ?t tickle s)) (\<lambda>(pos, s).
     Some (bindE (epoll_wait w s) (\<lambda>nfd. case nfd of
         Error e \<Rightarrow> Inr (e = EINTR, pos, nt, s)
       | Done rs \<Rightarrow> bindE (each dispatch rs s) (\<lambda>s. Inr (True, pos, nt, s))))))"
    by (simp add: main_round_def Let_def tn st_def)
  note so = start_transaction_outcome [OF ok0 ip]
  have st1: "st \<noteq> None" "st = Some (Inl f) \<Longrightarrow> (nt \<le> ?t \<longrightarrow> start_ready s) \<Longrightarrow> f = Stuck"
    "st = Some (Inr (nt1, s1)) \<Longrightarrow> client_ok s1" for f nt1 s1
    using so ok0 by (auto simp: st_def start_ready_def started_def bindT_def split: option.splits sum.splits if_splits)
  have tail: "bindT (Some (expires_house_keeping pos ?t tickle s1)) (\<lambda>(pos, s).
     Some (bindE (epoll_wait w s) (\<lambda>nfd. case nfd of
         Error e \<Rightarrow> Inr (e = EINTR, pos, nt1, s)
       | Done rs \<Rightarrow> bindE (each dispatch rs s) (\<lambda>s. Inr (True, pos, nt1, s))))) = Some (Inl Stuck) \<or>
    (\<exists>go pos' s'. bindT (Some (expires_house_keeping pos ?t tickle s1)) (\<lambda>(pos, s).
     Some (bindE (epoll_wait w s) (\<lambda>nfd. case nfd of
         Error e \<Rightarrow> Inr (e = EINTR, pos, nt1, s)
       | Done rs \<Rightarrow> bindE (each dispatch rs s) (\<lambda>s. Inr (True, pos, nt1, s))))) =
      Some (Inr (go, pos', nt1, s')) \<and> client_ok s' \<and> pos' \<le> MAX_EVENTS)"
    if ok1: "client_ok s1" for nt1 and s1 :: "'a client_state_scheme"
  proof -
    have t1: "table_ok s1" using ok1 by (simp add: client_ok_def)
    obtain s2 rs where s2: "expires_house_keeping pos ?t tickle s1 = Inr (pos mod MAX_EVENTS + 1, s2)" "swept s1 s2 rs"
      using house_keeping_sweeps [OF t1 pos] by blast
    have ok2: "client_ok s2" by (rule swept_client [OF ok1 s2(2)])
    have pos': "pos mod MAX_EVENTS + 1 \<le> MAX_EVENTS" by (simp add: Suc_le_eq)
    show ?thesis
    proof (cases "epoll_wait w s2")
      case (Inl f)
      then have "f = Stuck" by (auto simp: epoll_wait_def split: outcome.splits if_splits)
      then show ?thesis using s2(1) Inl by simp
    next
      case (Inr nfd)
      show ?thesis
      proof (cases nfd)
        case (Error e)
        then show ?thesis using s2(1) Inr ok2 pos' by simp
      next
        case (Done qs)
        have "each dispatch qs s2 = Inl Stuck \<or> (\<exists>s'. each dispatch qs s2 = Inr s' \<and> served s2 s' (set (slots qs)))"
          using epoll_wait_slots [OF ok2] Inr Done by (intro batch_served [OF ok2]) simp_all
        then show ?thesis using s2(1) Inr Done pos' by (auto simp: served_def)
      qed
    qed
  qed
  show ?thesis
  proof (cases st)
    case None
    then show ?thesis using st1(1) by simp
  next
    case (Some r)
    show ?thesis
    proof (cases r)
      case (Inl f)
      then show ?thesis using run Some st1(2) by simp
    next
      case (Inr p)
      obtain nt1 s1 where p: "p = (nt1, s1)" by fastforce
      then show ?thesis using tail [OF st1(3) [of nt1 s1], of nt1] run Some Inr by auto
    qed
  qed
qed

section \<open>The start of the program\<close>

text \<open>
  The program as it is loaded: all static data zero (the constants of the pool are set by
  \<open>init_connect_pool\<close>), \<open>n\<close> blocks that \<open>malloc\<close> can give to the pools, and the
  scripts.
\<close>

definition boot_rest ::
  "socket_outcome list \<Rightarrow> (loc \<times> jconnect) list \<Rightarrow> transfer_log_entry option list \<Rightarrow> byte list \<Rightarrow>
     nat outcome list \<Rightarrow> byte list outcome list \<Rightarrow> client_state" where
  "boot_rest so cm lm bh w r = client_state.make boot_node (\<lambda>_. None) [] 0 0 (\<lambda>_. None)
     ((\<lambda>_. None)(g_jconnect \<mapsto> \<lparr>nxt = Null, prev = Null\<rparr>)) (\<lambda>_. None)
     \<lparr>max_connects = 0, max_alive_times = 0, max_txn = 0, current_total = 0\<rparr> [] (\<lambda>_. None) w r [] 0
     (replicate (MAX_EVENTS + 1) blank_event) (\<lambda>_. None) so cm [] lm bh"

definition boot_client ::
  "nat \<Rightarrow> socket_outcome list \<Rightarrow> (loc \<times> jconnect) list \<Rightarrow> transfer_log_entry option list \<Rightarrow> byte list \<Rightarrow>
     nat outcome list \<Rightarrow> byte list outcome list \<Rightarrow> client_state" where
  "boot_client n so cm lm bh w r = boot_mem n (mem_state.more (boot_rest so cm lm bh w r))"

lemma boot_client_sel:
  "clinks (boot_client n so cm lm bh w r) = (\<lambda>_. None)(g_jconnect \<mapsto> \<lparr>nxt = Null, prev = Null\<rparr>)"
  "jconns (boot_client n so cm lm bh w r) = (\<lambda>_. None)" "interest (boot_client n so cm lm bh w r) = (\<lambda>_. None)"
  "g_events (boot_client n so cm lm bh w r) = replicate (MAX_EVENTS + 1) blank_event"
  "write_env (boot_client n so cm lm bh w r) = w" "read_env (boot_client n so cm lm bh w r) = r"
  "sent (boot_client n so cm lm bh w r) = []" "closed_fds (boot_client n so cm lm bh w r) = []"
  "socket_env (boot_client n so cm lm bh w r) = so" "conn_mem (boot_client n so cm lm bh w r) = cm"
  "log_mem (boot_client n so cm lm bh w r) = lm" "behind (boot_client n so cm lm bh w r) = bh"
  "net_calls (boot_client n so cm lm bh w r) = []"
  by (simp_all add: boot_client_def boot_mem_def boot_rest_def client_state.defs)

lemma more_client:
  fixes s s' :: client_state
  assumes "mem_state.more s' = mem_state.more s"
  shows "clinks s' = clinks s" "jconns s' = jconns s" "interest s' = interest s" "g_events s' = g_events s"
    "write_env s' = write_env s" "read_env s' = read_env s" "sent s' = sent s" "closed_fds s' = closed_fds s"
    "socket_env s' = socket_env s" "conn_mem s' = conn_mem s" "log_mem s' = log_mem s" "behind s' = behind s"
    "net_calls s' = net_calls s"
  using assms by (cases s; cases s'; simp)+

text \<open>The two initialisations lead to a consistent state in which nothing is in use.\<close>

lemma boot_init:
  "\<exists>s1 s2. init_connect_pool (boot_client n so cm lm bh w r) = Inr s1 \<and> mem_module_init s1 = Inr s2 \<and>
    client_ok s2 \<and> active s2 = {} \<and> live s2 = {} \<and> malloc_left s2 = n \<and> write_env s2 = w \<and> read_env s2 = r \<and>
    sent s2 = [] \<and> closed_fds s2 = [] \<and> socket_env s2 = so \<and> conn_mem s2 = cm \<and> log_mem s2 = lm \<and> behind s2 = bh \<and>
    interest s2 = (\<lambda>_. None) \<and> jconns s2 = (\<lambda>_. None) \<and> room s2 = (5 \<le> n) \<and> (\<forall>k. clinks s2 (Heap k) = None)"
proof -
  let ?s = "boot_client n so cm lm bh w r"
  let ?pool = "\<lparr>max_connects = 10, max_alive_times = 60, max_txn = 100, current_total = 0\<rparr>"
  obtain h where h: "INIT_LIST_HEAD g_jconnect (clinks ?s) = Inr h" "dlist h g_jconnect []" "frame (clinks ?s) h {g_jconnect}"
    using INIT_LIST_HEAD_ring [of "clinks ?s" g_jconnect] by (auto simp: boot_client_sel)
  define s1 where "s1 = ?s\<lparr>g_connect_pool := ?pool, clinks := h\<rparr>"
  have i1: "init_connect_pool ?s = Inr s1" using h(1) by (simp add: init_connect_pool_def with_clinks_def s1_def)
  have "s1 = boot_mem n (mem_state.more s1)" by (simp add: s1_def boot_client_def boot_mem_def boot_rest_def client_state.defs)
  then obtain s2 where s2: "mem_module_init s1 = Inr s2" "mem_rep s2 (\<lambda>_. [])" "malloc_left s2 = n"
    "mem_state.more s2 = mem_state.more s1"
    using boot_mem_init [of n "mem_state.more s1"] by metis
  note f = more_client [OF s2(4)]
  have sel: "g_events s2 = replicate (MAX_EVENTS + 1) blank_event" "jconns s2 = (\<lambda>_. None)" "interest s2 = (\<lambda>_. None)"
    "clinks s2 = h" by (simp_all add: f s1_def boot_client_sel)
  have m: "mem_ok s2" "live s2 = {}" using mem_rep_init_ok [OF s2(2)] by simp_all
  have "i < 1024 \<Longrightarrow> replicate 1025 blank_event ! i = blank_event" for i by (rule nth_replicate) simp
  then have free: "ev_status (g_events s2 ! i) = 0" if "i < MAX_EVENTS" for i
    using that unfolding sel by (simp add: blank_event_def)
  then have act: "active s2 = {}" by (auto simp: active_def)
  have "\<exists>k < MAX_EVENTS. ev_status (g_events s2 ! k) = 0" using free [of 0] by (intro exI [of _ 0]) simp
  then have rm: "room s2 = (5 \<le> n)" using s2(3) by (simp add: room_def)
  have "table_ok s2" using m act sel by (simp add: table_ok_def slot_blocks_def)
  moreover have "invaild_conn \<noteq> g_jconnect" by simp
  then have "h invaild_conn = None" using frame_dom [OF h(3)] by (simp add: boot_client_sel)
  then have "conn_ok s2 []" using h(2) sel by (simp add: conn_ok_def)
  ultimately have "client_ok s2" using act sel by (simp add: client_ok_def)
  moreover have "clinks s2 (Heap k) = None" for k
    using frame_dom [OF h(3), of "Heap k"] sel(4) by (simp add: boot_client_sel)
  ultimately show ?thesis using i1 s2(1,3) act m(2) rm sel f by (auto simp: s1_def boot_client_sel)
qed

text \<open>Watching the pipe changes nothing for the slots.\<close>

lemma wake_up_shape:
  assumes "set_wake_up_polling wake tk s = (r, tk', s')"
  shows "s' = s \<or> (\<exists>d. interest s d = None \<and> s' = s\<lparr>interest := (interest s)(d \<mapsto> (EPOLLIN, Fd d))\<rparr>)"
proof (cases "wk_pipe wake")
  case None
  then show ?thesis using assms by (simp add: set_wake_up_polling_def)
next
  case (Some t)
  show ?thesis
  proof (cases "list_ex Not (take 4 (wk_fcntl wake)) \<or> interest s (fst t) \<noteq> None")
    case True
    then have "set_wake_up_polling wake tk s = (- 1, t, s)" using Some by (auto simp: set_wake_up_polling_def)
    then show ?thesis using assms by simp
  next
    case False
    then have "set_wake_up_polling wake tk s = (0, t, epoll_ctl EPOLL_CTL_ADD (fst t) EPOLLIN (Fd (fst t)) s)"
      using Some by (simp add: set_wake_up_polling_def)
    moreover have "interest s (fst t) = None" using False by blast
    ultimately show ?thesis using assms by (auto simp: epoll_ctl_def)
  qed
qed

lemma watch_client:
  assumes ok: "client_ok s" and d: "interest s d = None"
  shows "client_ok (s\<lparr>interest := (interest s)(d \<mapsto> (EPOLLIN, Fd d))\<rparr>)" (is "client_ok ?s")
proof -
  have t: "table_ok s" "conn_ok s []" using ok by (simp_all add: client_ok_def)
  have act: "active ?s = active s" by (simp add: active_def)
  have rep: "slot_rep ?s i c x" if "slot_rep s i c x" for i c x using that d by (auto simp: slot_rep_def)
  have bl: "slot_blocks ?s i = slot_blocks s i" for i
  proof (cases "i \<in> active s")
    case True
    then obtain c x where r: "slot_rep s i c x" using table_rep [OF t(1)] by blast
    show ?thesis using slot_blocks_rep [OF True r] slot_blocks_rep [OF _ rep [OF r]] True act by simp
  qed (simp add: slot_blocks_def act)
  have "\<exists>c x. slot_rep ?s i c x" if "i \<in> active ?s" for i using table_rep [OF t(1)] that act rep by blast
  moreover have "k = MAX_EVENTS \<or> k \<in> active ?s \<and> slot_fd ?s k = e" if "interest ?s e = Some (v, Ptr k)" for e v k
    using that table_interest [OF t(1), of e v k] act by (auto split: if_splits)
  moreover have "slot_jc ?s i = slot_jc s i" for i by simp
  moreover have "mem_ok ?s" "length (g_events ?s) = MAX_EVENTS + 1" "live ?s = (\<Union>i. slot_blocks ?s i)"
    using t(1) bl by (simp_all add: table_ok_def)
  moreover have "slot_jc ?s i \<noteq> slot_jc ?s j \<and> slot_blocks ?s i \<inter> slot_blocks ?s j = {}"
    if "i \<in> active ?s" "j \<in> active ?s" "i \<noteq> j" for i j
    using table_pair [OF t(1), of i j] that act bl by simp
  ultimately have "table_ok ?s" unfolding table_ok_def by blast
  moreover have "conn_ok ?s []" by (rule conn_ok_cong [OF t(2)]) simp_all
  ultimately show ?thesis using ok act by (simp add: client_ok_def)
qed

lemma wake_up_client:
  "client_ok s \<Longrightarrow> set_wake_up_polling wake tk s = (r, tk', s') \<Longrightarrow> client_ok s'"
  using wake_up_shape watch_client by blast

lemma main_rounds_outcome:
  assumes "client_ok s" and ip: "knows_ip inet_pton" and "pos \<le> MAX_EVENTS"
  shows "main_rounds inet_pton tickle ws (pos, nt, s) \<noteq> None \<and>
    (\<forall>go pos' nt' s'. main_rounds inet_pton tickle ws (pos, nt, s) = Some (Inr (go, pos', nt', s')) \<longrightarrow>
      client_ok s' \<and> pos' \<le> MAX_EVENTS) \<and>
    (\<forall>f. main_rounds inet_pton tickle ws (pos, nt, s) = Some (Inl f) \<longrightarrow> f = Stuck \<or>
      (\<exists>us u vs pos1 nt1 s1. ws = us @ u # vs \<and>
        main_rounds inet_pton tickle us (pos, nt, s) = Some (Inr (True, pos1, nt1, s1)) \<and>
        nt1 \<le> p_clock u div 1000 \<and> \<not> start_ready s1))"
  using assms(1,3)
proof (induction ws arbitrary: pos nt s)
  case Nil
  then show ?case by simp
next
  case (Cons w ws)
  note m = main_round_outcome [OF Cons.prems(1) ip Cons.prems(2), of tickle w nt]
  then obtain r where r: "main_round inet_pton tickle w (pos, nt, s) = Some r" by blast
  show ?case
  proof (cases r)
    case (Inl f)
    then have "f = Stuck \<or> nt \<le> p_clock w div 1000 \<and> \<not> start_ready s" using m r by blast
    moreover have "main_rounds inet_pton tickle [] (pos, nt, s) = Some (Inr (True, pos, nt, s))" by simp
    ultimately show ?thesis using r Inl by (auto intro: exI [of _ "[]"])
  next
    case (Inr q)
    obtain go pos1 nt1 s1 where q: "q = (go, pos1, nt1, s1)" by (cases q) auto
    have ok1: "client_ok s1" "pos1 \<le> MAX_EVENTS" using m r Inr q by blast+
    note IH = Cons.IH [OF ok1, of nt1]
    show ?thesis
    proof (cases go)
      case False
      then show ?thesis using r Inr q ok1 by simp
    next
      case True
      have step: "main_rounds inet_pton tickle (w # us) (pos, nt, s) = main_rounds inet_pton tickle us (pos1, nt1, s1)"
        for us using r Inr q True by simp
      have "f = Stuck \<or> (\<exists>us u vs pos2 nt2 s2. w # ws = us @ u # vs \<and>
          main_rounds inet_pton tickle us (pos, nt, s) = Some (Inr (True, pos2, nt2, s2)) \<and>
          nt2 \<le> p_clock u div 1000 \<and> \<not> start_ready s2)"
        if f: "main_rounds inet_pton tickle ws (pos1, nt1, s1) = Some (Inl f)" for f
      proof (cases "f = Stuck")
        case False
        then obtain us u vs pos2 nt2 s2 where u: "ws = us @ u # vs"
          "main_rounds inet_pton tickle us (pos1, nt1, s1) = Some (Inr (True, pos2, nt2, s2))"
          "nt2 \<le> p_clock u div 1000" "\<not> start_ready s2"
          using IH f by blast
        then have "w # ws = (w # us) @ u # vs" by simp
        with u step show ?thesis by metis
      qed simp
      then show ?thesis using IH unfolding step by blast
    qed
  qed
qed

section \<open>A transaction that succeeds\<close>

lemma create_transaction_connects:
  fixes s :: "'z client_state_scheme"
  assumes ok: "client_ok s" and room: "room s"
    and msg: "512 \<le> length (gather_logmsg e)" "length (gather_logmsg e) < 2 ^ 63"
    and addr: "length (inx_addr (ip e)) = 16" "flag (ip e) = USE_IPV4"
    and mem: "conn_mem s = (p, junk) # cm" "p \<noteq> Null" "p \<noteq> invaild_conn" "jconns s p = None" "clinks s p = None"
    and sock: "socket_env s = out # outs" "interest s (so_fd out) = None" "0 \<le> so_fd out" "0 \<le> so_getfl out"
      "0 \<le> so_setfl out" "\<And>b n. take 2 b = [2, 0] \<Longrightarrow> so_connect out b n \<noteq> Connect_error"
  shows "\<exists>s' k c x. create_transaction e s = Some (Inr s') \<and> started s s' e \<and> new_slot s s' e k c x \<and>
    jc_fd c = so_fd out"
proof -
  have pool: "conn_ok s []" using ok by (simp add: client_ok_def)
  have h: "get_connection s = Some (Inr (Null, s))" by (rule get_connection_empty [OF pool])
  define s1 where "s1 = set_conn p junk (s\<lparr>conn_mem := cm, clinks := (clinks s)(p \<mapsto> \<lparr>nxt = Null, prev = Null\<rparr>)\<rparr>)"
  have mc: "malloc_conn s = Inr (p, s1)" using mem by (simp add: malloc_conn_def s1_def)
  let ?psa = "splice 4 (take 16 (addr_mem (ip e) (behind s))) (splice 2 (le16 (ucast (tl_port e))) (splice 0 (le16 2) (replicate 128 0)))"
  have s1: "socket_env s1 = out # outs" "interest s1 (so_fd out) = None" "behind s1 = behind s"
    using sock(1,2) by (simp_all add: s1_def set_conn_def)
  have "take 16 ?psa = [2, 0] @ le16 (ucast (tl_port e)) @ take 12 (inx_addr (ip e))"
    by (rule sockaddr_in_bytes [OF _ addr(1)]) simp
  then have "take 2 (take 16 ?psa) = [2, 0]" by simp
  then have "so_connect out (take 16 ?psa) 16 \<noteq> Connect_error" by (rule sock(6))
  then have res: "connect_result out ?psa = so_fd out" using sock(3-5) by (simp add: connect_result_def)
  define s2 where "s2 = s1\<lparr>socket_env := outs, net_calls := net_calls s1 @ connect_trace out ?psa\<rparr>"
  have "16 \<le> length (addr_mem (ip e) (behind s))" using addr(1) by (simp add: addr_mem_def)
  then have cs: "create_connect_socket (replicate 128 0) (ip e) (behind s) 2 (ucast (tl_port e)) s1 = Inr (so_fd out, ?psa, s2)"
    unfolding create_connect_socket_def Let_def s2_def
    using create_connect_socket_tail [OF s1(1,2), of ?psa, unfolded Let_def] res by simp
  let ?c = "junk\<lparr>jc_fd := so_fd out, is_alive := 0, jc_status := BEGIN_CONN\<rparr>"
  define s3 where "s3 = set_conn p ?c s2"
  have s3: "client_ok s3" "active s3 = active s" "\<And>j. slot_same s s3 j" "\<forall>j \<in> active s3. slot_jc s3 j \<noteq> p"
    using client_new_conn [OF ok mem(4,5,2,3), of s3 ?c "\<lparr>nxt = Null, prev = Null\<rparr>"]
    by (simp_all add: s3_def s2_def s1_def)
  have c3: "jconns s3 p = Some ?c" "interest s3 (so_fd out) = None" "room s3"
    using room sock(2) by (simp_all add: s3_def s2_def s1_def room_def)
  obtain s' k c' x where s': "send_entry e p s3 = Inr s'" "started s3 s' e" "new_slot s3 s' e k c' x" "jc_fd c' = so_fd out"
    using send_entry_outcome [OF s3(1) c3(1) mem(2) s3(4) _ _ _ msg] sock(3) c3(2,3) by auto
  have "jconns s2 p = Some junk" by (simp add: s2_def s1_def)
  then have "create_transaction e s = Some (Inr s')"
    using h mc mem(2) cs s1(3) addr(2) sock(3) s'(1)
    by (simp add: create_transaction_def get_conn_def s3_def [symmetric])
  moreover have "started s s' e"
    using s3(2,3)
    by (intro started_from [OF s'(2)]) (simp_all add: s3_def s2_def s1_def)
  moreover have "new_slot s s' e k c' x" using s'(3) s3(2) by (simp add: new_slot_def)
  ultimately show ?thesis using s'(4) by blast
qed

text \<open>The slot is told that the connection stands, then that it can write, and all goes out.\<close>

lemma flush_whole:
  assumes "mem_ok s" "stream_ok s p x" "0 \<le> server_sock x" "list_all willing (write_env s)"
    and "length (buf_bytes s (in_buf x)) \<le> sum_list (map takes (write_env s))"
  shows "\<exists>s'. stream_flush_out p (- 1) s = Inr (int (length (buf_bytes s (in_buf x))), s') \<and>
    flushed s s' p x (length (buf_bytes s (in_buf x)))"
  using flush_loop_all [OF assms(1,2), of "int (length (buf_bytes s (in_buf x)))" 0] assms(4,5)
    stream_flush_out_whole [OF assms(1-3)] by auto

lemma connect_and_send:
  assumes ok: "client_ok s" and i: "i \<in> active s" "slot_rep s i c x" "call_back (g_events s ! i) = Connect_cb"
    and env: "list_all willing (write_env s)" "length (buf_bytes s (in_buf x)) \<le> sum_list (map takes (write_env s))"
  shows "\<exists>s' chunks. each dispatch [Ready i re1 True, Ready i re2 True] s = Inr s' \<and> handled s s' i \<and>
    i \<notin> active s' \<and> sent s' = sent s @ map (Pair (slot_fd s i)) chunks \<and> concat chunks = buf_bytes s (in_buf x)"
proof -
  obtain c' x' where r: "slot_rep s i c' x'" "get_ev i s = Inr (g_events s ! i)" "get_conn (slot_jc s i) s = Inr c'"
    "get_stream (jc_stream c') s = Inr x'" "server_sock x' = slot_fd s i" "0 \<le> server_sock x'" "mem_ok s"
    "stream_ok s (jc_stream c') x'" "i < length (g_events s)" "ev_status (g_events s ! i) = 1"
    "interest s (slot_fd s i) \<noteq> None"
    using client_slot [OF ok i(1)] by blast
  have eq: "c' = c" "x' = x" using slot_rep_unique [OF i(2) r(1)] by simp_all
  have arg: "ev_arg (g_events s ! i) = i" using ok i(1) by (simp add: client_ok_def)
  let ?s1 = "rereg i Data_transfer EPOLLOUT s" and ?p = "jc_stream c"
  have d1: "dispatch (Ready i re1 True) s = Inr ?s1"
    using r(2-5) i(3) arg eventadd_active(2) [OF r(9-11)] by (simp add: dispatch_def connect_cb_def)
  have "Data_transfer \<in> {Connect_cb, Data_transfer}" by simp
  note h1 = rereg_handled [OF ok i(1) this, where w = EPOLLOUT]
  have ok1: "client_ok ?s1" using h1(1) by (simp add: handled_def)
  have x1: "mem_ok ?s1" "stream_ok ?s1 ?p x" using r(7,8) eq by simp_all
  have bb: "buf_bytes ?s1 = buf_bytes s" by (rule bufs_cong) simp_all
  have sock: "0 \<le> server_sock x" "server_sock x = slot_fd s i" using r(5,6) eq by simp_all
  obtain s2 where s2: "stream_flush_out ?p (- 1) ?s1 = Inr (int (length (buf_bytes s (in_buf x))), s2)"
    "flushed ?s1 s2 ?p x (length (buf_bytes s (in_buf x)))"
    using flush_whole [OF x1 sock(1)] env bb by auto
  then have fl: "mem_ok s2" "stream_ok s2 ?p x" "stream_frame ?s1 s2 ?p x" "buf_bytes s2 (in_buf x) = []"
    using bb by (simp_all add: flushed_def)
  obtain chunks where ch: "sent s2 = sent s @ map (Pair (slot_fd s i)) chunks" "concat chunks = buf_bytes s (in_buf x)"
    using s2(2) bb sock(2) by (auto simp: flushed_def)
  have rep1: "slot_rep ?s1 i c x" by (rule h1(3) [OF i(2)])
  note h2 = frame_handled [OF ok1 h1(2) rep1 fl(1,2) refl refl fl(3)]
  have ok2: "client_ok s2" using h2(1) by (simp add: handled_def)
  let ?c = "c\<lparr>is_alive := 1, jc_status := CONN_ESTAB\<rparr>"
  have ev2: "g_events s2 = g_events ?s1" using fl(3) more_event(1) [of s2 ?s1] by (simp add: stream_frame_def)
  have jc: "slot_jc s2 i = slot_jc s i" using r(9) by (simp add: ev2)
  let ?s3 = "set_conn (slot_jc s i) ?c s2"
  note h3 = conn_handled [OF ok2 h2(2,3), of ?c, unfolded jc, simplified]
  have ok3: "client_ok ?s3" using h3(1) by (simp add: handled_def)
  obtain s' where s': "release_stream_from_connect i BAD_CONNECT ?s3 = Inr s'" "handled ?s3 s' i" "i \<notin> active s'"
    "sent s' = sent ?s3" using bad_handled [OF ok3 h3(2)] by blast
  have b: "buf_ok ?s3 (in_buf x)" by (rule stream_ok_bufs(1) [of _ ?p]) (simp add: fl(2))
  obtain n where n: "buf_data_size (in_buf x) ?s3 = Inr n" "unat n = length (buf_bytes ?s3 (in_buf x))"
    using buf_size [OF b] by blast
  have "buf_bytes ?s3 = buf_bytes s2" by (rule bufs_cong) simp_all
  then have "unat n = 0" using n(2) fl(4) by simp
  then have n0: "n = 0" by (simp add: unat_eq_0)
  have g1: "get_ev i ?s1 = Inr (g_events ?s1 ! i)" "call_back (g_events ?s1 ! i) = Data_transfer"
    "ev_arg (g_events ?s1 ! i) = i" "slot_jc ?s1 i = slot_jc s i" "slot_fd ?s1 i = slot_fd s i"
    using r(9) arg by (simp_all add: get_ev_ok)
  have g2: "get_conn (slot_jc s i) ?s1 = Inr c" "get_stream ?p ?s1 = Inr x"
    using r(3) eq get_stream_ok [OF x1(2)] by (simp_all add: get_conn_def)
  have "dispatch (Ready i re2 True) ?s1 = data_transfer (slot_fd s i) re2 True i ?s1"
    using g1 by (simp add: dispatch_def)
  also have "\<dots> = Inr s'"
    unfolding data_transfer_def Let_def
    using g1 g2 s2(1) n(1) n0 s'(1) sock(2) by simp
  finally have d2: "dispatch (Ready i re2 True) ?s1 = Inr s'" .
  have "handled s s' i"
    by (rule handled_trans [OF h1(1) handled_trans [OF h2(1) handled_trans [OF h3(1) s'(2)]]])
  then show ?thesis using d1 d2 s'(3,4) ch by auto
qed

section \<open>Properties\<close>

text \<open>
  C1. The client stays consistent: from the program as it is loaded, for every script of times,
  events, system calls and allocations and for any number of rounds, \<open>main\<close> returns. Whenever
  it comes to the end of a round or of the loop, every slot in use has a connection, a stream and
  a registration of its own that agree, what is allocated is exactly the streams of these slots,
  and the connection pool is empty. A failure can only come at the start of a transaction for
  which there is no slot or no memory (or the script ends in mid-air): no assertion fails and no
  released object is touched otherwise.
\<close>

theorem client_main_safe:
  assumes "knows_ip inet_pton"
  shows "main inet_pton efd wake ws (boot_client n so cm lm bh w r) \<noteq> None \<and>
    (\<forall>go pos nt s'. main inet_pton efd wake ws (boot_client n so cm lm bh w r) = Some (Inr (go, pos, nt, s')) \<longrightarrow>
      client_ok s' \<and> live s' = (\<Union>i \<in> active s'. slot_blocks s' i) \<and> conn_ok s' []) \<and>
    (\<forall>f. main inet_pton efd wake ws (boot_client n so cm lm bh w r) = Some (Inl f) \<longrightarrow> f = Stuck \<or>
      (\<exists>us u vs pos nt s1. ws = us @ u # vs \<and>
        main inet_pton efd wake us (boot_client n so cm lm bh w r) = Some (Inr (True, pos, nt, s1)) \<and>
        nt \<le> p_clock u div 1000 \<and> \<not> start_ready s1))"
proof -
  obtain s1 s2 where b: "init_connect_pool (boot_client n so cm lm bh w r) = Inr s1" "mem_module_init s1 = Inr s2"
    "client_ok s2" using boot_init [of n so cm lm bh w r] by blast
  have start: "main inet_pton efd wake us (boot_client n so cm lm bh w r) =
      (if efd \<le> 0 then Some (Inr (False, 0, 0, s2))
       else (case set_wake_up_polling wake (0, 0) s2 of (r, tickle, s) \<Rightarrow>
         if r \<noteq> 0 then Some (Inr (False, 0, 0, s))
         else main_rounds inet_pton (fst tickle) us (0, 0, s)))" for us
    using b(1,2) by (simp add: main_def main_loop_def)
  have parts: "live s' = (\<Union>i \<in> active s'. slot_blocks s' i) \<and> conn_ok s' []" if "client_ok s'" for s' :: client_state
  proof -
    have "live s' = (\<Union>i. slot_blocks s' i)" "conn_ok s' []" using that by (simp_all add: client_ok_def table_ok_def)
    moreover have "slot_blocks s' i = {}" if "i \<notin> active s'" for i using that by (simp add: slot_blocks_def)
    then have "(\<Union>i. slot_blocks s' i) = (\<Union>i \<in> active s'. slot_blocks s' i)" by blast
    ultimately show ?thesis by simp
  qed
  obtain r' tickle s where w: "set_wake_up_polling wake (0, 0) s2 = (r', tickle, s)" by (metis prod_cases3)
  have "client_ok s" by (rule wake_up_client [OF b(3) w])
  note m = main_rounds_outcome [OF this assms, of 0 "fst tickle" _ 0, simplified]
  show ?thesis
  proof (cases "efd \<le> 0 \<or> r' \<noteq> 0")
    case True
    then show ?thesis unfolding start w using b(3) \<open>client_ok s\<close> parts by auto
  next
    case False
    then have "main inet_pton efd wake us (boot_client n so cm lm bh w r) = main_rounds inet_pton (fst tickle) us (0, 0, s)"
      for us unfolding start w by simp
    then show ?thesis using m [of ws] parts by auto
  qed
qed

text \<open>A kernel and a block for the log entry to try the client with.\<close>

definition ip_table :: pton where
  "ip_table fam t = (if fam = AF_INET \<and> t = dotted_quad 192 168 104 159 then (1, [192, 168, 104, 159]) else (0, []))"

definition junk_entry :: transfer_log_entry where
  "junk_entry = \<lparr>ip = \<lparr>inx_addr = replicate 16 0, flag = 0\<rparr>, proto = 0, tl_port = 0, msg_len = 0,
     gather_logmsg = replicate (32 * 1024) 0xAA\<rparr>"

definition junk_conn :: jconnect where
  "junk_conn = \<lparr>jaddr = \<lparr>inx_addr = [], flag = 0\<rparr>, port = 0, jc_fd = 0, is_alive = 7, create_time = 0,
     requests = 0, jc_status = CONN_CLOSE, jc_stream = Null\<rparr>"

lemma knows_ip_table: "knows_ip ip_table"
  by (simp add: knows_ip_def ip_table_def)

text \<open>
  The next connection succeeds: \<open>malloc\<close> has a block \<open>p\<close> for it, and \<open>socket\<close>,
  \<open>fcntl\<close> and \<open>connect\<close> over IPv4 work, with the descriptor \<open>d\<close>.
\<close>

definition can_connect :: "'z comm_state_scheme \<Rightarrow> loc \<Rightarrow> int \<Rightarrow> bool" where
  "can_connect s p d \<longleftrightarrow> (\<exists>junk cm. conn_mem s = (p, junk) # cm) \<and> p \<noteq> Null \<and> p \<noteq> invaild_conn \<and>
     jconns s p = None \<and> clinks s p = None \<and> interest s d = None \<and> 0 \<le> d \<and>
     (\<exists>out outs. socket_env s = out # outs \<and> so_fd out = d \<and> 0 \<le> so_getfl out \<and> 0 \<le> so_setfl out \<and>
        (\<forall>b n. take 2 b = [2, 0] \<longrightarrow> so_connect out b n \<noteq> Connect_error))"

text \<open>In terms of \<open>can_connect\<close>.\<close>

lemma create_can_connect:
  fixes s :: "'z client_state_scheme"
  assumes "client_ok s" and "room s" and cc: "can_connect s p d"
    and "512 \<le> length (gather_logmsg e)" and "length (gather_logmsg e) < 2 ^ 63"
    and "length (inx_addr (ip e)) = 16" and "flag (ip e) = USE_IPV4"
  shows "\<exists>s' k c x. create_transaction e s = Some (Inr s') \<and> started s s' e \<and> new_slot s s' e k c x \<and> jc_fd c = d"
proof -
  obtain junk cm out outs where cc: "conn_mem s = (p, junk) # cm" "p \<noteq> Null" "p \<noteq> invaild_conn" "jconns s p = None"
    "clinks s p = None" "socket_env s = out # outs" "interest s (so_fd out) = None" "0 \<le> so_fd out"
    "0 \<le> so_getfl out" "0 \<le> so_setfl out" "so_fd out = d"
    and conn: "\<And>b n. take 2 b = [2, 0] \<Longrightarrow> so_connect out b n \<noteq> Connect_error"
    using cc unfolding can_connect_def by blast
  show ?thesis using create_transaction_connects [OF assms(1,2,4-7) cc(1-10) conn] cc(11) by simp
qed

text \<open>A transaction from its creation to the end.\<close>

lemma transaction_sends:
  fixes s :: "'z client_state_scheme"
  assumes "client_ok s" and "room s" and "can_connect s p d"
    and "512 \<le> length (gather_logmsg e)" and "length (gather_logmsg e) < 2 ^ 63"
    and "length (inx_addr (ip e)) = 16" and "flag (ip e) = USE_IPV4"
    and "list_all willing (write_env s)" and "520 \<le> sum_list (map takes (write_env s))"
  shows "\<exists>s1 k. create_transaction e s = Some (Inr s1) \<and> active s1 = insert k (active s) \<and> k \<notin> active s \<and>
    (\<forall>re1 re2. \<exists>s2 chunks. each dispatch [Ready k re1 True, Ready k re2 True] s1 = Inr s2 \<and>
      sent s2 = sent s @ map (Pair d) chunks \<and> concat chunks = le64 512 @ take 512 (gather_logmsg e) \<and>
      closed_fds s2 = closed_fds s @ [d] \<and> active s2 = active s \<and> client_ok s2)"
proof -
  obtain s1 k c x where s1: "create_transaction e s = Some (Inr s1)" "started s s1 e" "new_slot s s1 e k c x"
    "jc_fd c = d"
    using create_can_connect [OF assms(1-7)] by blast
  have ok1: "client_ok s1" and env: "sent s1 = sent s" "closed_fds s1 = closed_fds s" "write_env s1 = write_env s"
    using s1(2) by (simp_all add: started_def)
  have k: "k \<notin> active s" "active s1 = insert k (active s)" "slot_rep s1 k c x"
    "call_back (g_events s1 ! k) = Connect_cb" "buf_bytes s1 (in_buf x) = le64 512 @ take 512 (gather_logmsg e)"
    using s1(3) by (simp_all add: new_slot_def)
  have fd: "slot_fd s1 k = d" using k(3) s1(4) by (simp add: slot_rep_def)
  have len: "length (buf_bytes s1 (in_buf x)) = 520" using k(5) assms(4) by simp
  have "\<exists>s2 chunks. each dispatch [Ready k re1 True, Ready k re2 True] s1 = Inr s2 \<and>
      sent s2 = sent s @ map (Pair d) chunks \<and> concat chunks = le64 512 @ take 512 (gather_logmsg e) \<and>
      closed_fds s2 = closed_fds s @ [d] \<and> active s2 = active s \<and> client_ok s2" for re1 re2
  proof -
    have "k \<in> active s1" using k(2) by simp
    from connect_and_send [OF ok1 this k(3,4)] obtain s2 chunks where
      s2: "each dispatch [Ready k re1 True, Ready k re2 True] s1 = Inr s2" "handled s1 s2 k" "k \<notin> active s2"
      "sent s2 = sent s1 @ map (Pair (slot_fd s1 k)) chunks" "concat chunks = buf_bytes s1 (in_buf x)"
      using assms(8,9) env(3) len by metis
    have "active s2 = active s" using s2(2,3) k(1,2) by (auto simp: handled_def)
    moreover have "closed_fds s2 = closed_fds s @ [d]" "client_ok s2" using s2(2,3) env(2) fd by (simp_all add: handled_def)
    ultimately show ?thesis using s2(1,4,5) env(1) fd k(5) by auto
  qed
  then show ?thesis using s1(1) k(1,2) by blast
qed

text \<open>
  C3. A transaction does its work: when the connection can be made, there is room for it, and the
  peer takes what it is sent, in whatever pieces, then creating a transaction and handling the two
  events of its descriptor, connected and writable, sends exactly the frame - the length 512 in
  eight bytes and the first 512 bytes of the message - in order and on that descriptor, closes it
  once, and leaves the table as it was before.
\<close>

theorem transaction_sends_frame:
  fixes s :: "'z client_state_scheme"
  assumes "client_ok s" and "room s" and "can_connect s p d"
    and "512 \<le> length (gather_logmsg e)" and "length (gather_logmsg e) < 2 ^ 63"
    and "length (inx_addr (ip e)) = 16" and "flag (ip e) = USE_IPV4"
    and "list_all willing (write_env s)" and "520 \<le> sum_list (map takes (write_env s))"
  shows "\<exists>s1 k. create_transaction e s = Some (Inr s1) \<and> active s1 = insert k (active s) \<and> k \<notin> active s \<and>
    (\<forall>re1 re2. \<exists>s2 chunks. each dispatch [Ready k re1 True, Ready k re2 True] s1 = Inr s2 \<and>
      sent s2 = sent s @ map (Pair d) chunks \<and> concat chunks = le64 512 @ take 512 (gather_logmsg e) \<and>
      closed_fds s2 = closed_fds s @ [d] \<and> active s2 = active s \<and> client_ok s2)"
  by (rule transaction_sends [OF assms])

text \<open>
  C5. What the client sends is mostly not its message: the frame announces 512 bytes whatever the
  length of the message, 140, so that the last 372 of them are what the block of the log entry
  held before, memory of other uses that was never cleared.
\<close>

theorem benchmark_sends_old_memory:
  fixes s :: "'z client_state_scheme"
  assumes "client_ok s" and "knows_ip inet_pton" and "log_mem s = Some junk # rest"
    and "start_transaction inet_pton s = Some (Inr s1)" and "active s1 \<noteq> active s"
  shows "\<exists>k c x msg. active s1 = insert k (active s) \<and> slot_rep s1 k c x \<and> length msg = 140 \<and>
    buf_bytes s1 (in_buf x) = le64 512 @ msg @ take 372 (drop 140 (gather_logmsg junk))"
proof -
  obtain junk' rest' where st: "log_mem s = Some junk' # rest'" "started s s1 (entry_for junk')"
    using start_transaction_outcome [OF assms(1,2)] assms(4) by blast
  then have j: "started s s1 (entry_for junk)" using assms(3) by simp
  then obtain k c x where k: "new_slot s s1 (entry_for junk) k c x" using assms(5) by (auto simp: started_def)
  let ?m = "map (\<lambda>ch. of_nat (of_char ch)) log_msg :: byte list"
  have len: "length ?m = 140" by (simp add: length_log_msg)
  then have "take 512 (gather_logmsg (entry_for junk)) = ?m @ take 372 (drop 140 (gather_logmsg junk))"
    by (simp add: entry_for_def splice_def)
  then have "buf_bytes s1 (in_buf x) = le64 512 @ ?m @ take 372 (drop 140 (gather_logmsg junk))"
    using k by (simp add: new_slot_def)
  then show ?thesis using k len unfolding new_slot_def by blast
qed

text \<open>A booted client whose next connection will succeed.\<close>

lemma boot_ready:
  "\<exists>s :: client_state. client_ok s \<and> room s \<and> can_connect s (Heap 0) 5 \<and> active s = {} \<and> write_env s = w \<and>
    log_mem s = [Some junk_entry] \<and> closed_fds s = [] \<and> sent s = [] \<and> clock s = 0"
proof -
  obtain s1 s2 where s: "init_connect_pool (boot_client 6 [good_socket 5] [(Heap 0, junk_conn)] [Some junk_entry] [] w []) = Inr s1"
    "mem_module_init s1 = Inr s2" "client_ok s2" "active s2 = {}" "write_env s2 = w" "sent s2 = []" "closed_fds s2 = []"
    "socket_env s2 = [good_socket 5]" "conn_mem s2 = [(Heap 0, junk_conn)]" "log_mem s2 = [Some junk_entry]"
    "interest s2 = (\<lambda>_. None)" "jconns s2 = (\<lambda>_. None)" "room s2 = (5 \<le> (6 :: nat))" "\<forall>k. clinks s2 (Heap k) = None"
    using boot_init [of 6 "[good_socket 5]" "[(Heap 0, junk_conn)]" "[Some junk_entry]" "[]" w "[]"] by blast
  have "kernel_connect b n \<noteq> Connect_error" if "take 2 b = [2, 0]" for b n using that by (simp add: kernel_connect_def)
  then have "can_connect s2 (Heap 0) 5" using s by (simp add: can_connect_def good_socket_def)
  moreover have "client_ok (s2\<lparr>clock := 0\<rparr>)" "active (s2\<lparr>clock := 0\<rparr>) = {}"
    using s(3,4) client_cong(1,2) [of "s2\<lparr>clock := 0\<rparr>" s2] by simp_all
  ultimately show ?thesis using s
    by (intro exI [of _ "s2\<lparr>clock := 0\<rparr>"]) (simp add: can_connect_def)
qed


definition test_entry :: transfer_log_entry where
  "test_entry = junk_entry\<lparr>ip := \<lparr>inx_addr = replicate 16 0, flag = USE_IPV4\<rparr>\<rparr>"

lemma test_entry_sel [simp]:
  "gather_logmsg test_entry = replicate (32 * 1024) 0xAA" "gather_logmsg junk_entry = replicate (32 * 1024) 0xAA"
  "inx_addr (ip test_entry) = replicate 16 0" "flag (ip test_entry) = USE_IPV4"
  by (simp_all add: test_entry_def junk_entry_def)

theorem transaction_sends_frame_witness:
  "\<exists>(s :: client_state) s1 k. active s = {} \<and> write_env s = [Done 7, Error EINTR, Done 600] \<and>
    create_transaction test_entry s = Some (Inr s1) \<and>
    (\<exists>s2 chunks. each dispatch [Ready k False True, Ready k False True] s1 = Inr s2 \<and>
      sent s2 = map (Pair 5) chunks \<and> concat chunks = le64 512 @ replicate 512 0xAA \<and>
      closed_fds s2 = [5] \<and> active s2 = {})"
proof -
  let ?w = "[Done 7, Error EINTR, Done 600] :: nat outcome list"
  obtain s :: client_state where s: "client_ok s" "room s" "can_connect s (Heap 0) 5" "active s = {}"
    "write_env s = ?w" "closed_fds s = []" "sent s = []" using boot_ready [of ?w] by blast
  have w: "list_all willing (write_env s)" "520 \<le> sum_list (map takes (write_env s))"
    using s(5) by (simp_all add: willing_def takes_def)
  have e: "512 \<le> length (gather_logmsg test_entry)" "length (gather_logmsg test_entry) < 2 ^ 63"
    "length (inx_addr (ip test_entry)) = 16" "flag (ip test_entry) = USE_IPV4" by simp_all
  have t: "take 512 (gather_logmsg test_entry) = replicate 512 0xAA" by simp
  show ?thesis using transaction_sends_frame [OF s(1-3) e w] s(4-7) t by simp metis
qed

text \<open>The booted client after its first transaction.\<close>

lemma boot_started:
  "\<exists>(s :: client_state) s1 rest k. client_ok s \<and> log_mem s = Some junk_entry # rest \<and>
    start_transaction ip_table s = Some (Inr s1) \<and> active s1 = {k} \<and> active s = {} \<and> client_ok s1 \<and> closed_fds s1 = [] \<and>
    slot_fd s1 k = 5"
proof -
  obtain s :: client_state where s: "client_ok s" "room s" "can_connect s (Heap 0) 5" "active s = {}"
    "write_env s = []" "log_mem s = [Some junk_entry]" "closed_fds s = []" using boot_ready [of "[]"] by blast
  let ?s = "s\<lparr>log_mem := []\<rparr>" and ?e = "entry_for junk_entry"
  have c: "client_ok ?s" "room ?s" "active ?s = {}" "can_connect ?s (Heap 0) 5"
    using client_cong [of ?s s] s(1-4) by (simp_all add: can_connect_def)
  have e: "512 \<le> length (gather_logmsg ?e)" "length (gather_logmsg ?e) < 2 ^ 63"
    "length (inx_addr (ip ?e)) = 16" "flag (ip ?e) = USE_IPV4"
    by (simp_all add: entry_for_def length_log_msg)
  obtain s1 k c1 x where s1: "create_transaction ?e ?s = Some (Inr s1)" "started ?s s1 ?e" "new_slot ?s s1 ?e k c1 x"
    "jc_fd c1 = 5"
    using create_can_connect [OF c(1,2,4) e] by blast
  have "start_transaction ip_table s = Some (Inr s1)"
    using start_transaction_eq [OF knows_ip_table, of s junk_entry "[]"] s(6) s1(1) by simp
  moreover have "active s1 = {k}" "slot_fd s1 k = 5" using s1(3,4) c(3) by (simp_all add: new_slot_def slot_rep_def)
  moreover have "client_ok s1" "closed_fds s1 = []" using s1(2) s(7) by (simp_all add: started_def)
  ultimately show ?thesis using s(1,4,6) by blast
qed

theorem benchmark_sends_old_memory_witness:
  "\<exists>(s :: client_state) s1 k c x msg. start_transaction ip_table s = Some (Inr s1) \<and> active s1 = {k} \<and>
    slot_rep s1 k c x \<and> length msg = 140 \<and> buf_bytes s1 (in_buf x) = le64 512 @ msg @ replicate 372 0xAA"
proof -
  obtain s :: client_state and s1 rest k where b: "client_ok s" "log_mem s = Some junk_entry # rest"
    "start_transaction ip_table s = Some (Inr s1)" "active s1 = {k}" "active s = {}" using boot_started by blast
  have "active s1 \<noteq> active s" using b(4,5) by simp
  from benchmark_sends_old_memory [OF b(1) knows_ip_table b(2,3) this] b(3-5) show ?thesis by simp metis
qed

theorem expires_closes_stale_witness:
  "\<exists>(s :: client_state) k tnow s' pos. active s = {k} \<and> slot_fd s k = 5 \<and> closed_fds s = [] \<and>
    expires_house_keeping MAX_EVENTS tnow 8 s = Inr (pos, s') \<and> pos = 1 \<and> active s' = {} \<and> closed_fds s' = [5]"
proof -
  obtain s :: client_state and k where s: "client_ok s" "active s = {k}" "closed_fds s = []" "slot_fd s k = 5"
    using boot_started by blast
  let ?t = "last_active (g_events s ! k) + 10"
  have t: "table_ok s" using s(1) by (simp add: client_ok_def)
  have st: "{j. stale ?t 8 s j} = {k}" using s(2,4) by (auto simp: stale_def)
  obtain s' rs where r: "expires_house_keeping MAX_EVENTS ?t 8 s = Inr (MAX_EVENTS mod MAX_EVENTS + 1, s')"
    "set rs = {k}" "distinct rs" "active s' = active s - set rs" "closed_fds s' = closed_fds s @ map (slot_fd s) rs"
    using expires_closes_stale [OF t order_refl, of ?t 8] unfolding st by blast
  have "length rs = 1" using distinct_card [OF r(3)] r(2) by simp
  then obtain y where y: "rs = [y]" by (cases rs) simp_all
  then have "rs = [k]" using r(2) by simp
  then show ?thesis using r s(2-4) by auto
qed


text \<open>The first round of a run, from the program as it is loaded.\<close>

abbreviation (input) test_wake :: wake_outcome where "test_wake \<equiv> \<lparr>wk_pipe = Some (8, 9), wk_fcntl = []\<rparr>"

abbreviation (input) test_boot :: client_state where
  "test_boot \<equiv> boot_client 6 [good_socket 5] [(Heap 0, junk_conn)] [Some junk_entry] [] [] []"

lemma boot_watched:
  "\<exists>s. (\<forall>ws. main ip_table 3 test_wake ws test_boot = main_rounds ip_table 8 ws (0, 0, s)) \<and>
    client_ok s \<and> room s \<and> can_connect s (Heap 0) 5 \<and> active s = {} \<and> log_mem s = [Some junk_entry]"
proof -
  obtain s1 s2 where s: "init_connect_pool test_boot = Inr s1" "mem_module_init s1 = Inr s2" "client_ok s2" "active s2 = {}"
    "socket_env s2 = [good_socket 5]" "conn_mem s2 = [(Heap 0, junk_conn)]" "log_mem s2 = [Some junk_entry]"
    "interest s2 = (\<lambda>_. None)" "jconns s2 = (\<lambda>_. None)" "room s2 = (5 \<le> (6 :: nat))" "\<forall>k. clinks s2 (Heap k) = None"
    using boot_init [of 6 "[good_socket 5]" "[(Heap 0, junk_conn)]" "[Some junk_entry]" "[]" "[]" "[]"] by blast
  let ?s = "s2\<lparr>interest := (interest s2)(8 \<mapsto> (EPOLLIN, Fd 8))\<rparr>"
  have "set_wake_up_polling test_wake (0, 0) s2 = (0, (8, 9), ?s)"
    using s(8) by (simp add: set_wake_up_polling_def epoll_ctl_def)
  then have "main ip_table 3 test_wake ws test_boot = main_rounds ip_table 8 ws (0, 0, ?s)" for ws
    using s(1,2) by (simp add: main_def main_loop_def)
  moreover have "client_ok ?s" using watch_client [OF s(3), of 8] s(8) by simp
  moreover have "kernel_connect b n \<noteq> Connect_error" if "take 2 b = [2, 0]" for b n using that by (simp add: kernel_connect_def)
  then have "can_connect ?s (Heap 0) 5" using s by (simp add: can_connect_def good_socket_def)
  moreover have "room ?s" "active ?s = {}" using s(4,10) by (simp_all add: room_def active_def)
  ultimately show ?thesis using s(7) by (intro exI [of _ ?s]) simp
qed

theorem client_main_safe_witness:
  "\<exists>s' k. main ip_table 3 test_wake [\<lparr>p_clock = 0, p_events = Done []\<rparr>] test_boot = Some (Inr (True, 1, 1, s')) \<and>
    active s' = {k} \<and> live s' = slot_blocks s' k \<and> live s' \<noteq> {} \<and> conn_ok s' []"
proof -
  let ?w = "\<lparr>p_clock = 0, p_events = Done []\<rparr>"
  obtain s where s: "\<And>ws. main ip_table 3 test_wake ws test_boot = main_rounds ip_table 8 ws (0, 0, s)"
    "client_ok s" "room s" "can_connect s (Heap 0) 5" "active s = {}" "log_mem s = [Some junk_entry]"
    using boot_watched by blast
  let ?s = "s\<lparr>clock := 0\<rparr>" and ?e = "entry_for junk_entry"
  let ?t = "?s\<lparr>log_mem := []\<rparr>"
  have c: "client_ok ?t" "room ?t" "active ?t = {}" "can_connect ?t (Heap 0) 5"
    using client_cong [of ?t s] s(2-5) by (simp_all add: can_connect_def)
  have e: "512 \<le> length (gather_logmsg ?e)" "length (gather_logmsg ?e) < 2 ^ 63"
    "length (inx_addr (ip ?e)) = 16" "flag (ip ?e) = USE_IPV4"
    by (simp_all add: entry_for_def length_log_msg)
  obtain s1 k c1 x where s1: "create_transaction ?e ?t = Some (Inr s1)" "started ?t s1 ?e" "new_slot ?t s1 ?e k c1 x"
    using create_can_connect [OF c(1,2,4) e] by blast
  have st: "start_transaction ip_table ?s = Some (Inr s1)"
    using start_transaction_eq [OF knows_ip_table, of ?s junk_entry "[]"] s(6) s1(1) by simp
  have k: "active s1 = {k}" "client_ok s1" using s1(2,3) c(3) by (simp_all add: new_slot_def started_def)
  have fresh: "last_active (g_events s1 ! k) = 0" using s1(2,3) by (simp add: new_slot_def started_def time_now_def)
  have "table_ok s1" using k(2) by (simp add: client_ok_def)
  then obtain s2 rs where s2: "expires_house_keeping 0 0 8 s1 = Inr (1, s2)" "set rs = {j. stale 0 8 s1 j}"
    "active s2 = active s1 - set rs"
    using house_keeping_sweeps [of s1 0 0 8] unfolding swept_def by auto
  have "set rs = {}" using s2(2) k(1) fresh by (auto simp: stale_def)
  then have a: "active s2 = {k}" using s2(3) k(1) by simp
  have "main_round ip_table 8 ?w (0, 0, s) = Some (Inr (True, 1, 1, s2))"
    using st s2(1) by (simp add: main_round_def time_now_def epoll_wait_def)
  then have run: "main ip_table 3 test_wake [?w] test_boot = Some (Inr (True, 1, 1, s2))" unfolding s(1) by simp
  have "live s2 = slot_blocks s2 k" "conn_ok s2 []" "client_ok s2"
    using client_main_safe [OF knows_ip_table, of 3 test_wake "[?w]" 6] run a by auto
  moreover have "slot_blocks s2 k \<noteq> {}"
  proof -
    have "table_ok s2" using calculation(3) by (simp add: client_ok_def)
    then obtain c x where "slot_rep s2 k c x" using table_rep [of s2 k] a by auto
    then show ?thesis using slot_blocks_rep [of k s2 c x] a by (simp add: stream_blocks_def)
  qed
  ultimately show ?thesis using run a by blast
qed

end
