(* ===== verification/Fastlz.thy ===== *)
theory Fastlz
  imports Prelude
begin

text \<open>
  The compressor and the decompressor of \<open>fastlz.c\<close>.

  The file includes itself twice, with \<open>FASTLZ_LEVEL\<close> 1 and 2; here the level is a parameter.
  Memory is a list of bytes, the input \<open>inp\<close> and the output \<open>out\<close>, and a pointer is its offset;
  an access behind the end of a list is a fault. The parameter \<open>length\<close> (\<open>len\<close>) of a function
  may be smaller than the memory that can be read. Built for an LP64 machine, \<open>FASTLZ_STRICT_ALIGN\<close> is
  defined, so the code reads and copies byte by byte, and \<open>FASTLZ_SAFE\<close> is defined.
\<close>

section \<open>Memory\<close>

definition rd :: "byte list \<Rightarrow> nat \<Rightarrow> byte res" where
  "rd m i = bindE (accessE (i < length m)) (\<lambda>_. Inr (m ! i))"

definition puts :: "nat \<Rightarrow> byte list \<Rightarrow> byte list \<Rightarrow> byte list res" where
  "puts i bs m = bindE (accessE (i + length bs \<le> length m)) (\<lambda>_. Inr (splice i bs m))"

unbundle bit_operations_syntax

abbreviation (input) MAX_COPY :: nat where "MAX_COPY \<equiv> 32"
abbreviation (input) MAX_LEN :: nat where "MAX_LEN \<equiv> 264"

definition MAX_DISTANCE :: "nat \<Rightarrow> nat" where
  "MAX_DISTANCE level = (if level = 1 then 8192 else 8191)"

definition MAX_FARDISTANCE :: nat where
  "MAX_FARDISTANCE = 65535 + MAX_DISTANCE 2 - 1"

section \<open>The decompressor\<close>

text \<open>The loop that adds up the bytes of a long match (level 2); it reads on while they are 255.\<close>

function add_codes :: "byte list \<Rightarrow> nat \<Rightarrow> uint32 \<Rightarrow> (nat \<times> uint32) res" where
  "add_codes inp ip len =
     bindE (rd inp ip) (\<lambda>code.
     if code = 255 then add_codes inp (ip + 1) (len + ucast code) else Inr (ip + 1, len + ucast code))"
  by pat_completeness auto
termination
  by (relation "measure (\<lambda>(inp, ip, len). length inp - ip)") (auto simp: rd_def res_simps)

declare add_codes.simps [simp del]

text \<open>
  The head of a match: the new \<open>ip\<close>, \<open>len\<close> and \<open>ref\<close>. The offset \<open>ref\<close> may be negative.
\<close>

definition match_head :: "nat \<Rightarrow> byte list \<Rightarrow> uint32 \<Rightarrow> nat \<Rightarrow> nat \<Rightarrow> (nat \<times> uint32 \<times> int) res" where
  "match_head level inp ctrl ip op =
     (let len = drop_bit 5 ctrl - 1; ofs = push_bit 8 (ctrl AND 31); ref = int op - uint ofs in
      if level = 1 then
        bindE (if len = 6 then bindE (rd inp ip) (\<lambda>b. Inr (ip + 1, len + ucast b)) else Inr (ip, len)) (\<lambda>(ip, len).
        bindE (rd inp ip) (\<lambda>b. Inr (ip + 1, len, ref - uint b)))
      else
        bindE (if len = 6 then add_codes inp ip len else Inr (ip, len)) (\<lambda>(ip, len).
        bindE (rd inp ip) (\<lambda>code.
        if code = 255 \<and> ofs = push_bit 8 31 then
          bindE (rd inp (ip + 1)) (\<lambda>a.
          bindE (rd inp (ip + 2)) (\<lambda>b.
          let ofs = push_bit 8 (ucast a) + ucast b :: uint32 in
          Inr (ip + 3, len, int op - uint ofs - int (MAX_DISTANCE level))))
        else Inr (ip + 1, len, ref - uint code))))"

text \<open>\<open>*op++ = b\<close>, \<open>*op++ = *ref++\<close> and \<open>*op++ = *ip++\<close>, repeated.\<close>

primrec copy_run :: "nat \<Rightarrow> byte \<Rightarrow> nat \<Rightarrow> byte list \<Rightarrow> (nat \<times> byte list) res" where
  "copy_run 0 b op out = Inr (op, out)"
| "copy_run (Suc n) b op out = bindE (puts op [b] out) (copy_run n b (op + 1))"

primrec copy_ref :: "nat \<Rightarrow> nat \<Rightarrow> nat \<Rightarrow> byte list \<Rightarrow> (nat \<times> byte list) res" where
  "copy_ref 0 ref op out = Inr (op, out)"
| "copy_ref (Suc n) ref op out =
     bindE (rd out ref) (\<lambda>b. bindE (puts op [b] out) (copy_ref n (ref + 1) (op + 1)))"

primrec copy_lit :: "nat \<Rightarrow> byte list \<Rightarrow> nat \<Rightarrow> nat \<Rightarrow> byte list \<Rightarrow> (nat \<times> byte list) res" where
  "copy_lit 0 inp ip op out = Inr (op, out)"
| "copy_lit (Suc n) inp ip op out =
     bindE (rd inp ip) (\<lambda>b. bindE (puts op [b] out) (copy_lit n inp (ip + 1) (op + 1)))"

text \<open>\<open>if (ip < ip_limit) ctrl = *ip++; else loop = 0;\<close>\<close>

definition next_ctrl :: "byte list \<Rightarrow> int \<Rightarrow> nat \<Rightarrow> (uint32 option \<times> nat) res" where
  "next_ctrl inp ip_limit ip =
     (if int ip < ip_limit then bindE (rd inp ip) (\<lambda>b. Inr (Some (ucast b), ip + 1)) else Inr (None, ip))"

text \<open>One round of the loop; \<open>None\<close> is \<open>return 0\<close>, and the first result is \<open>None\<close> when \<open>loop\<close> is 0.\<close>

definition dec_step ::
  "nat \<Rightarrow> byte list \<Rightarrow> int \<Rightarrow> int \<Rightarrow> uint32 \<Rightarrow> nat \<Rightarrow> nat \<Rightarrow> byte list \<Rightarrow>
     (uint32 option \<times> nat \<times> nat \<times> byte list) option res" where
  "dec_step level inp ip_limit op_limit ctrl ip op out =
     (if ctrl \<ge> 32 then
        bindE (match_head level inp ctrl ip op) (\<lambda>(ip, len, ref).
        if int op + uint len + 3 > op_limit then Inr None
        else if ref - 1 < 0 then Inr None
        else
          bindE (next_ctrl inp ip_limit ip) (\<lambda>(c, ip).
          bindE (if ref = int op
                 then bindE (rd out (nat (ref - 1))) (\<lambda>b. copy_run (unat len + 3) b op out)
                 else copy_ref (unat len + 3) (nat (ref - 1)) op out) (\<lambda>(op, out).
          Inr (Some (c, ip, op, out)))))
      else
        let ctrl = ctrl + 1 in
        if int op + uint ctrl > op_limit then Inr None
        else if int ip + uint ctrl > ip_limit then Inr None
        else
          bindE (copy_lit (unat ctrl) inp ip op out) (\<lambda>(op, out).
          bindE (next_ctrl inp ip_limit (ip + unat ctrl)) (\<lambda>(c, ip).
          Inr (Some (c, ip, op, out)))))"

lemma rd_eq_Inr [res_simps]: "rd m i = Inr b \<longleftrightarrow> i < length m \<and> b = m ! i"
  by (auto simp: rd_def res_simps)

lemma add_codes_bounds: "add_codes inp ip len = Inr (ip', len') \<Longrightarrow> ip < ip' \<and> ip' \<le> length inp"
proof (induction inp ip len rule: add_codes.induct)
  case (1 inp ip len)
  from 1(2) [unfolded add_codes.simps [of inp ip len]] obtain code where
    "rd inp ip = Inr code" "code = 255 \<Longrightarrow> add_codes inp (ip + 1) (len + ucast code) = Inr (ip', len')"
    "code \<noteq> 255 \<Longrightarrow> ip' = ip + 1"
    by (auto simp: bindE_eq_Inr split: if_splits)
  then show ?case using 1(1) by (cases "code = 255") (fastforce simp: rd_eq_Inr)+
qed

lemma match_head_bounds: "match_head level inp ctrl ip op = Inr (ip', len, ref) \<Longrightarrow> ip < ip' \<and> ip' \<le> length inp"
  unfolding match_head_def Let_def by (auto simp: res_simps dest!: add_codes_bounds split: if_splits)

lemma dec_step_progress:
  "dec_step level inp ip_limit op_limit ctrl ip op out = Inr (Some (Some c, ip', op', out')) \<Longrightarrow>
     ip < ip' \<and> ip' \<le> length inp"
  unfolding dec_step_def Let_def next_ctrl_def
  by (auto simp: res_simps dest!: match_head_bounds split: if_splits)

function dec_loop ::
  "nat \<Rightarrow> byte list \<Rightarrow> int \<Rightarrow> int \<Rightarrow> uint32 \<Rightarrow> nat \<Rightarrow> nat \<Rightarrow> byte list \<Rightarrow> (int \<times> byte list) res" where
  "dec_loop level inp ip_limit op_limit ctrl ip op out =
     (case dec_step level inp ip_limit op_limit ctrl ip op out of
        Inl e \<Rightarrow> Inl e
      | Inr None \<Rightarrow> Inr (0, out)
      | Inr (Some (None, ip, op, out)) \<Rightarrow> Inr (int op, out)
      | Inr (Some (Some c, ip, op, out)) \<Rightarrow> dec_loop level inp ip_limit op_limit c ip op out)"
  by pat_completeness auto
termination
  by (relation "measure (\<lambda>(level, inp, ip_limit, op_limit, ctrl, ip, op, out). length inp - ip)")
    (auto dest!: dec_step_progress)

declare dec_loop.simps [simp del]

definition FASTLZ_DECOMPRESSOR :: "nat \<Rightarrow> byte list \<Rightarrow> int \<Rightarrow> byte list \<Rightarrow> int \<Rightarrow> (int \<times> byte list) res" where
  "FASTLZ_DECOMPRESSOR level inp len out maxout =
     bindE (rd inp 0) (\<lambda>b. dec_loop level inp len maxout (ucast b AND 31) 1 0 out)"

definition fastlz_decompress :: "byte list \<Rightarrow> int \<Rightarrow> byte list \<Rightarrow> int \<Rightarrow> (int \<times> byte list) res" where
  "fastlz_decompress inp len out maxout =
     bindE (rd inp 0) (\<lambda>b.
     let level = unat (drop_bit 5 b) + 1 in
     if level = 1 then FASTLZ_DECOMPRESSOR 1 inp len out maxout
     else if level = 2 then FASTLZ_DECOMPRESSOR 2 inp len out maxout
     else Inr (0, out))"

section \<open>The compressor\<close>

text \<open>The variables of the compressor; the table holds offsets into the input.\<close>

record lz_state =
  lz_ip :: nat
  lz_op :: nat
  lz_copy :: nat
  lz_htab :: "nat \<Rightarrow> nat"
  lz_out :: "byte list"

definition FASTLZ_READU16 :: "byte list \<Rightarrow> nat \<Rightarrow> uint32 res" where
  "FASTLZ_READU16 inp p =
     bindE (rd inp p) (\<lambda>a. bindE (rd inp (p + 1)) (\<lambda>b. Inr (ucast a OR push_bit 8 (ucast b))))"

definition HASH_FUNCTION :: "byte list \<Rightarrow> nat \<Rightarrow> nat res" where
  "HASH_FUNCTION inp p =
     bindE (FASTLZ_READU16 inp p) (\<lambda>v.
     bindE (FASTLZ_READU16 inp (p + 1)) (\<lambda>w.
     Inr (unat ((v XOR (w XOR drop_bit 3 v)) AND 8191))))"

text \<open>\<open>n\<close> comparisons \<open>*a++ != *b++\<close> with the short circuit of \<open>||\<close>.\<close>

primrec same_bytes :: "byte list \<Rightarrow> nat \<Rightarrow> nat \<Rightarrow> nat \<Rightarrow> bool res" where
  "same_bytes inp 0 a b = Inr True"
| "same_bytes inp (Suc n) a b =
     bindE (rd inp a) (\<lambda>x. bindE (rd inp b) (\<lambda>y.
     if x \<noteq> y then Inr False else same_bytes inp n (a + 1) (b + 1)))"

text \<open>
  The search for a match at \<open>anchor\<close>, up to the label \<open>match\<close>: \<open>None\<close> where the code goes to
  \<open>literal\<close>, otherwise \<open>distance\<close>, \<open>ref\<close> and \<open>len\<close>. Slots of the table never point behind
  \<open>anchor\<close>.
\<close>

definition is_run :: "byte list \<Rightarrow> nat \<Rightarrow> bool res" where
  "is_run inp ip =
     bindE (rd inp ip) (\<lambda>x. bindE (rd inp (ip - 1)) (\<lambda>y.
     if x = y then
       bindE (FASTLZ_READU16 inp (ip - 1)) (\<lambda>v. bindE (FASTLZ_READU16 inp (ip + 1)) (\<lambda>w. Inr (v = w)))
     else Inr False))"

definition find_match ::
  "nat \<Rightarrow> byte list \<Rightarrow> nat \<Rightarrow> (nat \<Rightarrow> nat) \<Rightarrow> ((nat \<times> nat \<times> nat) option \<times> (nat \<Rightarrow> nat)) res" where
  "find_match level inp anchor htab =
     bindE (if level = 2 then is_run inp anchor else Inr False) (\<lambda>r.
     if r then Inr (Some (1, anchor - 1 + 3, 3), htab)
     else
       bindE (HASH_FUNCTION inp anchor) (\<lambda>hval.
       let ref = htab hval; distance = anchor - ref; htab = htab(hval := anchor) in
       if distance = 0 \<or> distance \<ge> (if level = 1 then MAX_DISTANCE 1 else MAX_FARDISTANCE)
       then Inr (None, htab)
       else
         bindE (same_bytes inp 3 ref anchor) (\<lambda>eq.
         if \<not> eq then Inr (None, htab)
         else if level = 2 \<and> distance \<ge> MAX_DISTANCE 2 then
           bindE (same_bytes inp 2 (anchor + 3) (ref + 3)) (\<lambda>eq.
           Inr (if eq then Some (distance, ref + 5, 5) else None, htab))
         else Inr (Some (distance, ref + 3, 3), htab))))"

text \<open>The loops that find the end of the match: the new \<open>ip\<close>.\<close>

function run_end :: "byte list \<Rightarrow> byte \<Rightarrow> nat \<Rightarrow> nat \<Rightarrow> nat \<Rightarrow> nat res" where
  "run_end inp x ref ip ip_bound =
     (if ip < ip_bound then
        bindE (rd inp ref) (\<lambda>y. if y \<noteq> x then Inr ip else run_end inp x (ref + 1) (ip + 1) ip_bound)
      else Inr ip)"
  by pat_completeness auto
termination
  by (relation "measure (\<lambda>(inp, x, ref, ip, ip_bound). ip_bound - ip)") auto

declare run_end.simps [simp del]

function match_rest :: "byte list \<Rightarrow> nat \<Rightarrow> nat \<Rightarrow> nat \<Rightarrow> nat res" where
  "match_rest inp ref ip ip_bound =
     (if ip < ip_bound then
        bindE (rd inp ref) (\<lambda>x. bindE (rd inp ip) (\<lambda>y.
        if x \<noteq> y then Inr (ip + 1) else match_rest inp (ref + 1) (ip + 1) ip_bound))
      else Inr ip)"
  by pat_completeness auto
termination
  by (relation "measure (\<lambda>(inp, ref, ip, ip_bound). ip_bound - ip)") auto

declare match_rest.simps [simp del]

text \<open>\<open>n\<close> comparisons that are not guarded by \<open>ip_bound\<close> come first.\<close>

primrec match_end :: "nat \<Rightarrow> byte list \<Rightarrow> nat \<Rightarrow> nat \<Rightarrow> nat \<Rightarrow> nat res" where
  "match_end 0 inp ref ip ip_bound = match_rest inp ref ip ip_bound"
| "match_end (Suc n) inp ref ip ip_bound =
     bindE (rd inp ref) (\<lambda>x. bindE (rd inp ip) (\<lambda>y.
     if x \<noteq> y then Inr (ip + 1) else match_end n inp (ref + 1) (ip + 1) ip_bound))"

text \<open>The bytes written for a match of the biased length \<open>len\<close> and the biased \<open>distance\<close>.\<close>

function len_codes :: "nat \<Rightarrow> byte list" where
  "len_codes len = (if len \<ge> 255 then 255 # len_codes (len - 255) else [of_nat len])"
  by pat_completeness auto
termination by (relation "measure id") auto

declare len_codes.simps [simp del]

definition match_codes2 :: "nat \<Rightarrow> nat \<Rightarrow> byte list" where
  "match_codes2 len distance =
     (if distance < MAX_DISTANCE 2 then
        if len < 7 then [of_nat (len * 32 + distance div 256), of_nat (distance mod 256)]
        else of_nat (7 * 32 + distance div 256) # len_codes (len - 7) @ [of_nat (distance mod 256)]
      else
        let d = distance - MAX_DISTANCE 2 in
        if len < 7 then [of_nat (len * 32 + 31), 255, of_nat (d div 256), of_nat (d mod 256)]
        else of_nat (7 * 32 + 31) # len_codes (len - 7) @ [255, of_nat (d div 256), of_nat (d mod 256)])"

function match_codes1 :: "nat \<Rightarrow> nat \<Rightarrow> byte list" where
  "match_codes1 len distance =
     (if len > MAX_LEN - 2 then
        [of_nat (7 * 32 + distance div 256), of_nat (MAX_LEN - 2 - 7 - 2), of_nat (distance mod 256)] @
        match_codes1 (len - (MAX_LEN - 2)) distance
      else if len < 7 then [of_nat (len * 32 + distance div 256), of_nat (distance mod 256)]
      else [of_nat (7 * 32 + distance div 256), of_nat (len - 7), of_nat (distance mod 256)])"
  by pat_completeness auto
termination by (relation "measure fst") auto

declare match_codes1.simps [simp del]

text \<open>
  The part of the main loop from the label \<open>match\<close> on. The pending literals end before \<open>op\<close>,
  their count is in front of them.
\<close>

definition close_literals :: "nat \<Rightarrow> nat \<Rightarrow> byte list \<Rightarrow> (nat \<times> byte list) res" where
  "close_literals copy op out =
     (if copy \<noteq> 0
      then bindE (puts (op - copy - 1) [of_nat (copy - 1)] out) (\<lambda>out. Inr (op, out))
      else Inr (op - 1, out))"

definition comp_match :: "nat \<Rightarrow> byte list \<Rightarrow> nat \<Rightarrow> nat \<times> nat \<times> nat \<Rightarrow> lz_state \<Rightarrow> lz_state res" where
  "comp_match level inp ip_bound m st = (case m of (distance, ref, len) \<Rightarrow>
     let anchor = lz_ip st; ip = anchor + len; distance = distance - 1 in
     bindE (if distance = 0
            then bindE (rd inp (ip - 1)) (\<lambda>x. run_end inp x ref ip ip_bound)
            else match_end 8 inp ref ip ip_bound) (\<lambda>ip.
     bindE (close_literals (lz_copy st) (lz_op st) (lz_out st)) (\<lambda>(op, out).
     let ip = ip - 3; len = ip - anchor;
         codes = (if level = 2 then match_codes2 len distance else match_codes1 len distance) in
     bindE (puts op codes out) (\<lambda>out.
     let op = op + length codes in
     bindE (HASH_FUNCTION inp ip) (\<lambda>h.
     let htab = (lz_htab st)(h := ip); ip = ip + 1 in
     bindE (HASH_FUNCTION inp ip) (\<lambda>h.
     let htab = htab(h := ip); ip = ip + 1 in
     bindE (puts op [of_nat (MAX_COPY - 1)] out) (\<lambda>out.
     Inr \<lparr>lz_ip = ip, lz_op = op + 1, lz_copy = 0, lz_htab = htab, lz_out = out\<rparr>)))))))"

text \<open>The part from the label \<open>literal\<close> on, which is also the body of the loop for the left-over.\<close>

definition comp_literal :: "byte list \<Rightarrow> lz_state \<Rightarrow> lz_state res" where
  "comp_literal inp st =
     bindE (rd inp (lz_ip st)) (\<lambda>b.
     bindE (puts (lz_op st) [b] (lz_out st)) (\<lambda>out.
     let st = st\<lparr>lz_ip := lz_ip st + 1, lz_op := lz_op st + 1, lz_copy := lz_copy st + 1, lz_out := out\<rparr> in
     if lz_copy st = MAX_COPY then
       bindE (puts (lz_op st) [of_nat (MAX_COPY - 1)] out) (\<lambda>out.
       Inr (st\<lparr>lz_copy := 0, lz_op := lz_op st + 1, lz_out := out\<rparr>))
     else Inr st))"

definition comp_step :: "nat \<Rightarrow> byte list \<Rightarrow> nat \<Rightarrow> lz_state \<Rightarrow> lz_state res" where
  "comp_step level inp ip_bound st =
     bindE (find_match level inp (lz_ip st) (lz_htab st)) (\<lambda>(m, htab).
     let st = st\<lparr>lz_htab := htab\<rparr> in
     case m of
       None \<Rightarrow> comp_literal inp st
     | Some m \<Rightarrow> comp_match level inp ip_bound m st)"


lemma run_end_le: "run_end inp x ref ip ip_bound = Inr r \<Longrightarrow> ip \<le> r"
proof (induction inp x ref ip ip_bound rule: run_end.induct)
  case (1 inp x ref ip ip_bound)
  from 1(2) [unfolded run_end.simps [of inp x ref ip ip_bound]] show ?case
    using 1(1) by (fastforce simp: bindE_eq_Inr split: if_splits)
qed

lemma match_rest_le: "match_rest inp ref ip ip_bound = Inr r \<Longrightarrow> ip \<le> r"
proof (induction inp ref ip ip_bound rule: match_rest.induct)
  case (1 inp ref ip ip_bound)
  from 1(2) [unfolded match_rest.simps [of inp ref ip ip_bound]] show ?case
    using 1(1) by (fastforce simp: bindE_eq_Inr split: if_splits)
qed

lemma match_end_le: "match_end n inp ref ip ip_bound = Inr r \<Longrightarrow> ip \<le> r"
  by (induction n arbitrary: ref ip) (fastforce simp: bindE_eq_Inr dest: match_rest_le split: if_splits)+

lemma find_match_len: "find_match level inp anchor htab = Inr (Some (d, ref, len), htab') \<Longrightarrow> 3 \<le> len"
  unfolding find_match_def Let_def by (auto simp: bindE_eq_Inr split: if_splits)

lemma comp_step_progress:
  assumes "comp_step level inp ip_bound st = Inr st'"
  shows "lz_ip st < lz_ip st'"
proof -
  obtain m htab where m: "find_match level inp (lz_ip st) (lz_htab st) = Inr (m, htab)"
    "(case m of None \<Rightarrow> comp_literal inp (st\<lparr>lz_htab := htab\<rparr>)
      | Some m \<Rightarrow> comp_match level inp ip_bound m (st\<lparr>lz_htab := htab\<rparr>)) = Inr st'"
    using assms unfolding comp_step_def Let_def by (auto simp: bindE_eq_Inr)
  show ?thesis
  proof (cases m)
    case None
    then show ?thesis using m(2) by (auto simp: comp_literal_def Let_def bindE_eq_Inr split: if_splits)
  next
    case (Some p)
    obtain d ref len where p: "p = (d, ref, len)" by (cases p) auto
    have "3 \<le> len" using find_match_len m(1) Some p by blast
    then show ?thesis using m(2) Some p
      by (auto simp: comp_match_def Let_def bindE_eq_Inr split: if_splits dest!: run_end_le match_end_le)
  qed
qed

text \<open>The main loop, and the loop for the left-over, which ends at the offset \<open>n\<close>.\<close>

function comp_loop :: "nat \<Rightarrow> byte list \<Rightarrow> int \<Rightarrow> nat \<Rightarrow> lz_state \<Rightarrow> lz_state res" where
  "comp_loop level inp ip_limit ip_bound st =
     (if int (lz_ip st) < ip_limit then
        (case comp_step level inp ip_bound st of
           Inl e \<Rightarrow> Inl e
         | Inr st \<Rightarrow> comp_loop level inp ip_limit ip_bound st)
      else Inr st)"
  by pat_completeness auto
termination
  by (relation "measure (\<lambda>(level, inp, ip_limit, ip_bound, st). nat (ip_limit - int (lz_ip st)))")
    (auto dest: comp_step_progress)

declare comp_loop.simps [simp del]

function rest_loop :: "byte list \<Rightarrow> nat \<Rightarrow> lz_state \<Rightarrow> lz_state res" where
  "rest_loop inp n st =
     (if lz_ip st < n then
        (case comp_literal inp st of Inl e \<Rightarrow> Inl e | Inr st \<Rightarrow> rest_loop inp n st)
      else Inr st)"
  by pat_completeness auto
termination
  by (relation "measure (\<lambda>(inp, n, st). n - lz_ip st)")
    (auto simp: comp_literal_def Let_def bindE_eq_Inr split: if_splits)

declare rest_loop.simps [simp del]

text \<open>
  The function itself. With \<open>ip_bound = ip + length - 2\<close>, the loops for left-over bytes run while
  \<open>ip <= ip_bound + 1\<close>, to the end of the input.
\<close>

definition comp_start :: "byte list \<Rightarrow> byte list \<Rightarrow> lz_state res" where
  "comp_start inp out =
     bindE (puts 0 [of_nat (MAX_COPY - 1)] out) (\<lambda>out.
     bindE (rd inp 0) (\<lambda>a. bindE (puts 1 [a] out) (\<lambda>out.
     bindE (rd inp 1) (\<lambda>b. bindE (puts 2 [b] out) (\<lambda>out.
     Inr \<lparr>lz_ip = 2, lz_op = 3, lz_copy = 2, lz_htab = \<lambda>_. 0, lz_out = out\<rparr>)))))"

text \<open>The length of the last literals, and the marker of level 2.\<close>

definition comp_finish :: "nat \<Rightarrow> lz_state \<Rightarrow> (int \<times> byte list) res" where
  "comp_finish level st =
     bindE (close_literals (lz_copy st) (lz_op st) (lz_out st)) (\<lambda>(op, out).
     bindE (if level = 2 then bindE (rd out 0) (\<lambda>b. puts 0 [b OR 32] out) else Inr out) (\<lambda>out.
     Inr (int op, out)))"

definition FASTLZ_COMPRESSOR :: "nat \<Rightarrow> byte list \<Rightarrow> int \<Rightarrow> byte list \<Rightarrow> (int \<times> byte list) res" where
  "FASTLZ_COMPRESSOR level inp len out =
     (if len < 4 then
        if len \<noteq> 0 then
          bindE (puts 0 [of_int (len - 1)] out) (\<lambda>out.
          bindE (copy_lit (nat len) inp 0 1 out) (\<lambda>(_, out). Inr (len + 1, out)))
        else Inr (0, out)
      else
        bindE (comp_start inp out) (\<lambda>st.
        bindE (comp_loop level inp (len - 12) (nat len - 2) st) (\<lambda>st.
        bindE (rest_loop inp (nat len) st) (comp_finish level))))"

definition fastlz_compress_level :: "int \<Rightarrow> byte list \<Rightarrow> int \<Rightarrow> byte list \<Rightarrow> (int \<times> byte list) res" where
  "fastlz_compress_level level inp len out =
     (if level = 1 then FASTLZ_COMPRESSOR 1 inp len out
      else if level = 2 then FASTLZ_COMPRESSOR 2 inp len out
      else Inr (0, out))"

definition fastlz_compress :: "byte list \<Rightarrow> int \<Rightarrow> byte list \<Rightarrow> (int \<times> byte list) res" where
  "fastlz_compress inp len out =
     (if len < 65536 then FASTLZ_COMPRESSOR 1 inp len out else FASTLZ_COMPRESSOR 2 inp len out)"

end
