(* ===== verification/Decompress.thy ===== *)
theory Decompress
  imports Fastlz
begin

text \<open>
  What the decompressor of \<open>fastlz.c\<close> does: the tokens of the compressed format and their
  meaning, that the decompressor computes it, and which memory it touches.
\<close>

section \<open>Copying\<close>

lemma rd_Inr [simp]: "i < length m \<Longrightarrow> rd m i = Inr (m ! i)"
  by (simp add: rd_def)

lemma rd_Inl [simp]: "rd m i = Inl e \<longleftrightarrow> length m \<le> i \<and> e = Invalid_access"
  by (auto simp: rd_def res_simps)

lemma puts_Inr [simp]: "i + length bs \<le> length m \<Longrightarrow> puts i bs m = Inr (splice i bs m)"
  by (simp add: puts_def)

lemma splice_1: "i < length m \<Longrightarrow> splice i [b] m = m[i := b]"
  by (simp add: splice_def upd_conv_take_nth_drop)

lemma rd_drop: "drop i m = b # r \<Longrightarrow> rd m i = Inr b \<and> drop (Suc i) m = r"
proof -
  assume d: "drop i m = b # r"
  then have "i < length m" by (metis drop_eq_Nil leI list.distinct(1))
  with d show ?thesis by (metis Cons_nth_drop_Suc list.inject rd_Inr)
qed

lemma copy_lit_puts:
  "drop ip inp = bs @ r \<Longrightarrow> op + length bs \<le> length out \<Longrightarrow>
     copy_lit (length bs) inp ip op out = Inr (op + length bs, splice op bs out)"
proof (induction bs arbitrary: ip op out)
  case (Cons b bs)
  have d: "rd inp ip = Inr b" "drop (Suc ip) inp = bs @ r" using rd_drop [of ip inp b] Cons.prems(1) by simp_all
  have "copy_lit (length bs) inp (Suc ip) (Suc op) (out[op := b]) =
      Inr (Suc op + length bs, splice (Suc op) bs (out[op := b]))"
    using Cons.IH [OF d(2)] Cons.prems(2) by simp
  moreover have "splice (Suc op) bs (out[op := b]) = splice op (b # bs) out"
    using Cons.prems(2) by (simp add: splice_def take_Suc_conv_app_nth)
  ultimately show ?case using d(1) Cons.prems(2) by (simp add: splice_1)
qed simp

text \<open>What a match means: bytes from \<open>Suc d\<close> places back are appended one by one.\<close>

primrec copy_back :: "nat \<Rightarrow> nat \<Rightarrow> byte list \<Rightarrow> byte list" where
  "copy_back d 0 xs = xs"
| "copy_back d (Suc n) xs = copy_back d n (xs @ [xs ! (length xs - Suc d)])"

lemma length_copy_back [simp]: "length (copy_back d n xs) = length xs + n"
  by (induction n arbitrary: xs) simp_all

lemma copy_back_add: "copy_back d (m + n) xs = copy_back d n (copy_back d m xs)"
  by (induction m arbitrary: xs) simp_all

text \<open>A copy writes from \<open>op\<close> on and leaves the rest of the output alone.\<close>

lemma copy_ref_back:
  "d < op \<Longrightarrow> op + n \<le> length out \<Longrightarrow> \<exists>out'. copy_ref n (op - Suc d) op out = Inr (op + n, out') \<and>
     length out' = length out \<and> take (op + n) out' = copy_back d n (take op out) \<and>
     drop (op + n) out' = drop (op + n) out"
proof (induction n arbitrary: op out)
  case (Suc n)
  let ?b = "out ! (op - Suc d)" and ?out = "out[op := out ! (op - Suc d)]"
  have len: "op < length out" "op - Suc d < length out" using Suc.prems by simp_all
  have "\<exists>out'. copy_ref n (Suc op - Suc d) (Suc op) ?out = Inr (Suc op + n, out') \<and>
     length out' = length ?out \<and> take (Suc op + n) out' = copy_back d n (take (Suc op) ?out) \<and>
     drop (Suc op + n) out' = drop (Suc op + n) ?out"
    using Suc.prems by (intro Suc.IH) simp_all
  moreover have "take (Suc op) ?out = take op out @ [take op out ! (length (take op out) - Suc d)]"
    using Suc.prems by (simp add: take_Suc_conv_app_nth)
  moreover have "Suc op - Suc d = Suc (op - Suc d)" using Suc.prems by simp
  ultimately show ?case using len by (auto simp: splice_1)
qed simp

text \<open>The special case of a run copies the same bytes as the general one.\<close>

lemma copy_run_ref:
  "0 < op \<Longrightarrow> op + n \<le> length out \<Longrightarrow> copy_run n (out ! (op - 1)) op out = copy_ref n (op - 1) op out"
proof (induction n arbitrary: op out)
  case (Suc n)
  have "copy_run n (out[op := out ! (op - 1)] ! (Suc op - 1)) (Suc op) (out[op := out ! (op - 1)]) =
    copy_ref n (Suc op - 1) (Suc op) (out[op := out ! (op - 1)])"
    using Suc.prems by (intro Suc.IH) simp_all
  moreover have "Suc (op - Suc 0) = op" using Suc.prems by simp
  ultimately show ?case using Suc.prems by (simp add: splice_1)
qed simp


section \<open>Tokens\<close>

unbundle bit_operations_syntax

text \<open>
  The compressed format: literals, and matches with a biased distance and a length. The bytes of a
  token are those of the format; a match is written by \<open>match_codes1\<close> or \<open>match_codes2\<close>.
\<close>

datatype token = Lit "byte list" | Match nat nat

primrec token_bytes :: "nat \<Rightarrow> token \<Rightarrow> byte list" where
  "token_bytes level (Lit bs) = of_nat (length bs - 1) # bs"
| "token_bytes level (Match d n) = (if level = 2 then match_codes2 (n - 2) d else match_codes1 (n - 2) d)"

primrec token_ok :: "nat \<Rightarrow> nat \<Rightarrow> token \<Rightarrow> bool" where
  "token_ok level m (Lit bs) \<longleftrightarrow> bs \<noteq> [] \<and> length bs \<le> MAX_COPY"
| "token_ok level m (Match d n) \<longleftrightarrow> d < m \<and> 3 \<le> n \<and>
     (if level = 1 then d < 8192 \<and> n \<le> MAX_LEN else level = 2 \<and> d < 8191 + 65536 \<and> n < 2 ^ 31)"

primrec apply_token :: "byte list \<Rightarrow> token \<Rightarrow> byte list" where
  "apply_token xs (Lit bs) = xs @ bs"
| "apply_token xs (Match d n) = copy_back d n xs"

primrec token_length :: "token \<Rightarrow> nat" where
  "token_length (Lit bs) = length bs"
| "token_length (Match d n) = n"

lemma length_apply_token [simp]: "length (apply_token xs t) = length xs + token_length t"
  by (cases t) simp_all

section \<open>The control byte\<close>

lemma unat_ucast_byte: "unat (ucast (b :: byte) :: uint32) = unat b"
  using unsigned_less [of b, where 'a = nat] by (simp add: unsigned_ucast_eq take_bit_nat_eq_self)

lemma unat_byte: "k < 256 \<Longrightarrow> unat (of_nat k :: byte) = k"
  by (simp add: unat_of_nat)

lemma of_nat_unat_eq: "unat w = a \<Longrightarrow> w = of_nat a"
  by auto

lemma ctrl_bits:
  fixes w :: uint32
  assumes "a < 8" "b < 32" and w: "w = ucast (of_nat (a * 32 + b) :: byte)"
  shows "drop_bit 5 w = of_nat a" "w AND 31 = of_nat b" "32 \<le> w \<longleftrightarrow> 1 \<le> a" "unat w = a * 32 + b"
proof -
  have "a * 32 + b < 256" using assms(1,2) by simp
  then show u: "unat w = a * 32 + b" unfolding w unat_ucast_byte by (rule unat_byte)
  have "unat (drop_bit 5 w) = drop_bit 5 (a * 32 + b)" unfolding unat_drop_bit_eq u ..
  then have "unat (drop_bit 5 w) = a" using assms(2) by (simp add: drop_bit_eq_div)
  then show "drop_bit 5 w = of_nat a" by (rule of_nat_unat_eq)
  have m: "w AND 31 = take_bit 5 w" by (simp add: take_bit_eq_mask mask_eq_exp_minus_1)
  have "unat (w AND 31) = take_bit 5 (a * 32 + b)" unfolding m unsigned_take_bit_eq u ..
  then have "unat (w AND 31) = b" using assms(2) by (simp add: take_bit_eq_mod)
  then show "w AND 31 = of_nat b" by (rule of_nat_unat_eq)
  show "32 \<le> w \<longleftrightarrow> 1 \<le> a" using assms(2) by (auto simp: word_le_nat_alt u)
qed


lemma uint_byte: "k < 256 \<Longrightarrow> uint (of_nat k :: byte) = int k"
  by (simp add: uint_nat unat_byte)

lemma ofs_uint: "k < 32 \<Longrightarrow> uint (push_bit 8 (of_nat k :: uint32)) = 256 * int k"
  by (simp add: push_bit_eq_mult uint_word_ariths unsigned_of_nat take_bit_eq_mod)

lemma ofs_far: "k < 32 \<Longrightarrow> push_bit 8 (of_nat k :: uint32) = push_bit 8 31 \<longleftrightarrow> k = 31"
proof -
  assume k: "k < 32"
  have "uint (push_bit 8 31 :: uint32) = 256 * 31" by simp
  then have "push_bit 8 (of_nat k :: uint32) = push_bit 8 31 \<longleftrightarrow> 256 * int k = 256 * 31"
    using ofs_uint [OF k] by (simp only: word_uint_eq_iff)
  then show ?thesis by simp
qed

lemma ucast_of_byte: "k < 256 \<Longrightarrow> (ucast (of_nat k :: byte) :: uint32) = of_nat k"
  by (intro of_nat_unat_eq) (simp only: unat_ucast_byte unat_byte)

lemma far_uint:
  assumes "a < 256" and "b < 256"
  shows "uint (push_bit 8 (ucast (of_nat a :: byte)) + ucast (of_nat b :: byte) :: uint32) = int (a * 256 + b)"
proof -
  have "push_bit 8 (ucast (of_nat a :: byte)) + ucast (of_nat b :: byte) = (of_nat (a * 256 + b) :: uint32)"
    unfolding ucast_of_byte [OF assms(1)] ucast_of_byte [OF assms(2)] by (simp add: push_bit_eq_mult)
  moreover have "uint (of_nat (a * 256 + b) :: uint32) = int (a * 256 + b)"
    using assms by (subst uint_nat) (simp only: unat_of_nat, simp)
  ultimately show ?thesis by (simp only:)
qed

lemma add_codes_len:
  "drop ip inp = len_codes l @ r \<Longrightarrow> add_codes inp ip len = Inr (ip + length (len_codes l), len + of_nat l) \<and>
     drop (ip + length (len_codes l)) inp = r"
proof (induction l arbitrary: ip len rule: len_codes.induct)
  case (1 l)
  show ?case
  proof (cases "255 \<le> l")
    case True
    then have c: "len_codes l = 255 # len_codes (l - 255)" by (subst len_codes.simps) simp
    have d: "rd inp ip = Inr 255" "drop (Suc ip) inp = len_codes (l - 255) @ r"
      using rd_drop [of ip inp 255] 1(2) c by simp_all
    have "(255 :: uint32) + of_nat (l - 255) = of_nat l" using True by (simp add: of_nat_diff)
    then show ?thesis using 1(1) [OF True d(2), of "len + 255"] d(1) c
      by (simp add: add_codes.simps [of inp ip len] add.assoc)
  next
    case False
    then have c: "len_codes l = [of_nat l]" by (subst len_codes.simps) simp
    have d: "rd inp ip = Inr (of_nat l)" "drop (Suc ip) inp = r" using rd_drop [of ip inp "of_nat l"] 1(2) c by simp_all
    have u: "unat (of_nat l :: byte) = l" using False by (intro unat_byte) simp
    then have "(of_nat l :: byte) \<noteq> 255" using False by auto
    moreover have "(ucast (of_nat l :: byte) :: uint32) = of_nat l" using False by (intro ucast_of_byte) simp
    ultimately show ?thesis using d c by (simp add: add_codes.simps [of inp ip len])
  qed
qed


section \<open>One token\<close>

lemma len_not_six: "k < 6 \<Longrightarrow> (of_nat k :: uint32) \<noteq> 6"
proof
  assume k: "k < 6" "(of_nat k :: uint32) = 6"
  then have "unat (of_nat k :: uint32) = 6" by simp
  moreover have "unat (of_nat k :: uint32) = k" using k(1) by (simp add: unat_of_nat)
  ultimately show False using k(1) by linarith
qed

lemma bytes_of_distance: "int m - 256 * int (d div 256) - int (d mod 256) = int m - int d"
proof -
  have "256 * int (d div 256) + int (d mod 256) = int d" by (metis mult_div_mod_eq of_nat_add of_nat_mult of_nat_numeral)
  then show ?thesis by simp
qed

lemma match_head_token1:
  assumes ok: "token_ok 1 op (Match d n)" and ctrl: "ctrl = ucast (hd (match_codes1 (n - 2) d))"
    and d: "drop ip inp = tl (match_codes1 (n - 2) d) @ r"
  shows "32 \<le> ctrl \<and> (\<exists>ip'. match_head 1 inp ctrl ip op = Inr (ip', of_nat (n - 3), int op - int d) \<and> drop ip' inp = r)"
proof -
  let ?a = "d div 256" and ?b = "d mod 256"
  have n: "3 \<le> n" "n \<le> 264" "d < 8192" using ok by simp_all
  have ab: "?a < 32" "?b < 256" using n(3) by (simp_all add: div_less_iff_less_mult)
  note dist = bytes_of_distance [of op d]
  show ?thesis
  proof (cases "n - 2 < 7")
    case True
    then have m: "match_codes1 (n - 2) d = [of_nat ((n - 2) * 32 + ?a), of_nat ?b]" by (subst match_codes1.simps) simp
    have "n - 2 < 8" using True by simp
    note c = ctrl_bits [OF this ab(1) ctrl [unfolded m list.sel]]
    have "of_nat (n - 2) - 1 = (of_nat (n - 3) :: uint32)" using n(1) by (simp add: of_nat_diff)
    moreover have "(of_nat (n - 3) :: uint32) \<noteq> 6" using True n(1) by (intro len_not_six) simp
    moreover have "rd inp ip = Inr (of_nat ?b)" "drop (Suc ip) inp = r" using rd_drop [of ip inp "of_nat ?b" r] d m by simp_all
    ultimately show ?thesis using c n(1) ofs_uint [OF ab(1)] uint_byte [OF ab(2)] dist
      by (simp add: match_head_def Let_def)
  next
    case False
    have "\<not> MAX_LEN - 2 < n - 2" using n(2) by simp
    with False have m: "match_codes1 (n - 2) d = [of_nat (7 * 32 + ?a), of_nat (n - 2 - 7), of_nat ?b]"
      by (subst match_codes1.simps) (simp only: if_False)
    have "(7 :: nat) < 8" by simp
    note c = ctrl_bits [OF this ab(1) ctrl [unfolded m list.sel]]
    have "(6 :: uint32) + of_nat (n - 2 - 7) = of_nat (n - 3)" using False by (simp add: of_nat_diff)
    moreover have "(ucast (of_nat (n - 2 - 7) :: byte) :: uint32) = of_nat (n - 2 - 7)" using n(2) by (intro ucast_of_byte) simp
    moreover have r1: "rd inp ip = Inr (of_nat (n - 2 - 7))" "drop (Suc ip) inp = of_nat ?b # r"
      using rd_drop [of ip inp "of_nat (n - 2 - 7)"] d m by simp_all
    moreover have "rd inp (Suc ip) = Inr (of_nat ?b)" "drop (Suc (Suc ip)) inp = r" using rd_drop [OF r1(2)] by simp_all
    ultimately show ?thesis using c ofs_uint [OF ab(1)] uint_byte [OF ab(2)] dist
      by (simp add: match_head_def Let_def)
  qed
qed


text \<open>The length of a level 2 match: the bytes that follow the control byte.\<close>

definition len_part :: "nat \<Rightarrow> byte list" where
  "len_part l = (if l < 7 then [] else len_codes (l - 7))"

lemma match_codes2_parts:
  "match_codes2 l d = (if d < 8191 then [of_nat (min l 7 * 32 + d div 256)] @ len_part l @ [of_nat (d mod 256)]
     else [of_nat (min l 7 * 32 + 31)] @ len_part l @
       [255, of_nat ((d - 8191) div 256), of_nat ((d - 8191) mod 256)])"
  by (simp add: match_codes2_def len_part_def MAX_DISTANCE_def Let_def)

lemma match_len2:
  assumes l: "1 \<le> l" and c: "drop_bit 5 ctrl = (of_nat (min l 7) :: uint32)" and d: "drop ip inp = len_part l @ r"
  shows "\<exists>ip'. (if drop_bit 5 ctrl - 1 = 6 then add_codes inp ip (drop_bit 5 ctrl - 1) else Inr (ip, drop_bit 5 ctrl - 1)) =
    Inr (ip', of_nat (l - 1)) \<and> drop ip' inp = r"
proof (cases "l < 7")
  case True
  then have e: "drop_bit 5 ctrl - 1 = (of_nat (l - 1) :: uint32)" using l c by (simp add: of_nat_diff)
  moreover have "(of_nat (l - 1) :: uint32) \<noteq> 6" using True l by (intro len_not_six) simp
  ultimately show ?thesis using d True unfolding e by (simp only: if_False) (simp add: len_part_def)
next
  case False
  then have e: "drop_bit 5 ctrl - 1 = (6 :: uint32)" using c by simp
  have "(6 :: uint32) + of_nat (l - 7) = of_nat (l - 1)" using False by (simp add: of_nat_diff)
  then show ?thesis using add_codes_len [of ip inp "l - 7" r 6] d False unfolding e by (simp add: len_part_def)
qed

lemma match_head_token2:
  assumes ok: "token_ok 2 op (Match d n)" and ctrl: "ctrl = ucast (hd (match_codes2 (n - 2) d))"
    and d: "drop ip inp = tl (match_codes2 (n - 2) d) @ r"
  shows "32 \<le> ctrl \<and> (\<exists>ip'. match_head 2 inp ctrl ip op = Inr (ip', of_nat (n - 3), int op - int d) \<and> drop ip' inp = r)"
proof -
  have n: "1 \<le> n - 2" "n - 2 - 1 = n - 3" "min (n - 2) 7 < 8" "1 \<le> min (n - 2) 7" using ok by auto
  note m = match_codes2_parts [of "n - 2" d]
  show ?thesis
  proof (cases "d < 8191")
    case True
    let ?a = "d div 256" and ?b = "d mod 256"
    have ab: "?a < 32" "?b < 256" using True by (simp_all add: div_less_iff_less_mult)
    have "ctrl = ucast (of_nat (min (n - 2) 7 * 32 + ?a) :: byte)" using ctrl m True by simp
    note c = ctrl_bits [OF n(3) ab(1) this]
    have "drop ip inp = len_part (n - 2) @ of_nat ?b # r" using d m True by simp
    then obtain ip' where ip': "(if drop_bit 5 ctrl - 1 = 6 then add_codes inp ip (drop_bit 5 ctrl - 1)
        else Inr (ip, drop_bit 5 ctrl - 1)) = Inr (ip', of_nat (n - 3))" "drop ip' inp = of_nat ?b # r"
      using match_len2 [OF n(1) c(1)] n(2) by metis
    have r: "rd inp ip' = Inr (of_nat ?b)" "drop (Suc ip') inp = r" using rd_drop [OF ip'(2)] by simp_all
    have "\<not> (?b = 255 \<and> ?a = 31)" using True mult_div_mod_eq [of 256 d] by linarith
    moreover have "(of_nat ?b :: byte) = 255 \<Longrightarrow> ?b = 255" using unat_byte [OF ab(2)] by simp
    ultimately have "\<not> ((of_nat ?b :: byte) = 255 \<and> push_bit 8 (ctrl AND 31) = push_bit 8 31)"
      unfolding c(2) ofs_far [OF ab(1)] by blast
    then have near: "((of_nat ?b :: byte) = 255 \<and> push_bit 8 (ctrl AND 31) = push_bit 8 31) = False" by blast
    have "(2 :: nat) \<noteq> 1" by simp
    then have "match_head 2 inp ctrl ip op = Inr (ip' + 1, of_nat (n - 3), int op - uint (push_bit 8 (ctrl AND 31)) - uint (of_nat ?b :: byte))"
      unfolding match_head_def Let_def by (simp only: if_False ip'(1) bindE_Inr prod.case r(1) near)
    then have "match_head 2 inp ctrl ip op = Inr (Suc ip', of_nat (n - 3), int op - int d)"
      unfolding c(2) ofs_uint [OF ab(1)] uint_byte [OF ab(2)] bytes_of_distance by simp
    then show ?thesis using c(3) n(4) r(2) by blast
  next
    case False
    let ?e = "d - 8191"
    let ?a = "?e div 256" and ?b = "?e mod 256"
    have "?e < 65536" using ok False by simp linarith
    then have ab: "?a < 256" "?b < 256" by (simp_all add: div_less_iff_less_mult)
    have "ctrl = ucast (of_nat (min (n - 2) 7 * 32 + 31) :: byte)" using ctrl m False by simp
    moreover have "(31 :: nat) < 32" by simp
    ultimately have c: "drop_bit 5 ctrl = of_nat (min (n - 2) 7)" "ctrl AND 31 = of_nat 31" "32 \<le> ctrl \<longleftrightarrow> 1 \<le> min (n - 2) 7"
      using ctrl_bits(1-3) [OF n(3)] by blast+
    have "drop ip inp = len_part (n - 2) @ 255 # of_nat ?a # of_nat ?b # r" using d m False by simp
    then obtain ip' where ip': "(if drop_bit 5 ctrl - 1 = 6 then add_codes inp ip (drop_bit 5 ctrl - 1)
        else Inr (ip, drop_bit 5 ctrl - 1)) = Inr (ip', of_nat (n - 3))" "drop ip' inp = 255 # of_nat ?a # of_nat ?b # r"
      using match_len2 [OF n(1) c(1)] n(2) by metis
    note r1 = rd_drop [OF ip'(2)]
    note r2 = rd_drop [OF conjunct2 [OF r1]]
    note r3 = rd_drop [OF conjunct2 [OF r2]]
    have "Suc ip' = ip' + 1" "Suc (Suc ip') = ip' + 2" "Suc (Suc (Suc ip')) = ip' + 3" by simp_all
    then have r: "rd inp ip' = Inr 255" "rd inp (ip' + 1) = Inr (of_nat ?a)" "rd inp (ip' + 2) = Inr (of_nat ?b)"
      "drop (ip' + 3) inp = r" using r1 r2 r3 by (simp_all only:)
    have "int op - int (?a * 256 + ?b) - int 8191 = int op - int d" using False by simp
    moreover have far: "((255 :: byte) = 255 \<and> push_bit 8 (ctrl AND 31) = push_bit 8 31) = True" unfolding c(2) by simp
    have "(2 :: nat) \<noteq> 1" by simp
    then have "match_head 2 inp ctrl ip op = Inr (ip' + 3, of_nat (n - 3), int op -
        uint (push_bit 8 (ucast (of_nat ?a :: byte)) + ucast (of_nat ?b :: byte) :: uint32) - int (MAX_DISTANCE 2))"
      unfolding match_head_def Let_def
      by (simp only: if_False if_True ip'(1) bindE_Inr prod.case r(1-3) far)
    ultimately have "match_head 2 inp ctrl ip op = Inr (ip' + 3, of_nat (n - 3), int op - int d)"
      unfolding far_uint [OF ab] by (simp add: MAX_DISTANCE_def)
    then show ?thesis using c(3) n(4) r(4) by blast
  qed
qed


lemma next_ctrl_drop:
  assumes "drop ip inp = r"
  shows "next_ctrl inp (int (length inp)) ip = Inr (case r of [] \<Rightarrow> (None, ip) | b # _ \<Rightarrow> (Some (ucast b), ip + 1))"
proof (cases r)
  case Nil
  then show ?thesis using assms by (simp add: next_ctrl_def)
next
  case (Cons b q)
  then have "rd inp ip = Inr b" "ip < length inp" using rd_drop [of ip inp b q] assms by (simp_all add: rd_eq_Inr)
  then show ?thesis using Cons by (simp add: next_ctrl_def)
qed

text \<open>One round of the loop executes one token.\<close>

definition stepped ::
  "nat \<Rightarrow> token \<Rightarrow> nat \<Rightarrow> byte list \<Rightarrow> byte list \<Rightarrow> byte list \<Rightarrow> (uint32 option \<times> nat \<times> nat \<times> byte list) option res \<Rightarrow> bool" where
  "stepped level t op out inp r res \<longleftrightarrow> (\<exists>ip' out'.
     res = Inr (Some (case r of [] \<Rightarrow> None | b # _ \<Rightarrow> Some (ucast b), ip', op + token_length t, out')) \<and>
     (r \<noteq> [] \<longrightarrow> drop ip' inp = tl r) \<and> take (op + token_length t) out' = apply_token (take op out) t \<and>
     length out' = length out \<and> drop (op + token_length t) out' = drop (op + token_length t) out)"

lemma dec_step_lit:
  assumes ok: "token_ok level op (Lit bs)" and ctrl: "ctrl = ucast (of_nat (length bs - 1) :: byte)"
    and d: "drop ip inp = bs @ r" and ip: "ip \<le> length inp" and fits: "op + length bs \<le> length out" "int (op + length bs) \<le> op_limit"
  shows "stepped level (Lit bs) op out inp r (dec_step level inp (int (length inp)) op_limit ctrl ip op out)"
proof -
  have bs: "1 \<le> length bs" "length bs - 1 < 32" using ok by (auto simp: Suc_le_eq)
  have "ctrl = ucast (of_nat (0 * 32 + (length bs - 1)) :: byte)" using ctrl by simp
  note c = ctrl_bits(3,4) [OF _ bs(2) this, simplified]
  have small: "\<not> ctrl \<ge> 32" using c(1) by simp
  have u: "unat (ctrl + 1) = length bs" using c(2) bs by (simp add: unat_word_ariths)
  have "length (drop ip inp) = length (bs @ r)" using d by simp
  then have len: "ip + length bs \<le> length inp" using ip by simp
  have l: "copy_lit (length bs) inp ip op out = Inr (op + length bs, splice op bs out)" by (rule copy_lit_puts [OF d fits(1)])
  have "drop (ip + length bs) inp = r" using d by (metis add.commute append_eq_conv_conj drop_drop)
  note nc = next_ctrl_drop [OF this]
  have "dec_step level inp (int (length inp)) op_limit ctrl ip op out =
      Inr (Some (case r of [] \<Rightarrow> None | b # _ \<Rightarrow> Some (ucast b), (case r of [] \<Rightarrow> ip + length bs | b # _ \<Rightarrow> ip + length bs + 1),
        op + length bs, splice op bs out))"
    using small fits(2) len l nc unfolding dec_step_def Let_def
    by (simp add: u uint_nat split: list.split)
  moreover have "r \<noteq> [] \<Longrightarrow> drop (case r of [] \<Rightarrow> ip + length bs | b # _ \<Rightarrow> ip + length bs + 1) inp = tl r"
    using \<open>drop (ip + length bs) inp = r\<close> rd_drop [of "ip + length bs" inp] by (cases r) simp_all
  moreover have "take (op + length bs) (splice op bs out) = take op out @ bs" using fits(1) by (intro take_splice_upto) simp
  moreover have "drop (op + length bs) (splice op bs out) = drop (op + length bs) out"
    using fits(1) by (simp add: splice_def)
  ultimately show ?thesis using fits(1) unfolding stepped_def by (simp only: token_length.simps apply_token.simps) auto
qed


lemma dec_step_match:
  assumes ok: "token_ok level op (Match d n)"
    and ctrl: "ctrl = ucast (hd (token_bytes level (Match d n)))"
    and d: "drop ip inp = tl (token_bytes level (Match d n)) @ r"
    and fits: "op + n \<le> length out" "int (op + n) \<le> op_limit"
  shows "stepped level (Match d n) op out inp r (dec_step level inp (int (length inp)) op_limit ctrl ip op out)"
proof -
  have n: "d < op" "3 \<le> n" using ok by simp_all
  have n': "n < 2 ^ 31" "level \<noteq> 1 \<Longrightarrow> level = 2" using ok by (cases "level = 1"; simp)+
  have "32 \<le> ctrl \<and> (\<exists>ip'. match_head level inp ctrl ip op = Inr (ip', of_nat (n - 3), int op - int d) \<and> drop ip' inp = r)"
  proof (cases "level = 1")
    case True
    then have b: "token_bytes level (Match d n) = match_codes1 (n - 2) d" by simp
    show ?thesis using match_head_token1 [OF ok [unfolded True] ctrl [unfolded b] d [unfolded b]] unfolding True .
  next
    case False
    note l = n'(2) [OF False]
    then have b: "token_bytes level (Match d n) = match_codes2 (n - 2) d" by simp
    show ?thesis using match_head_token2 [OF ok [unfolded l] ctrl [unfolded b] d [unfolded b]] unfolding l .
  qed
  then obtain ip' where big: "32 \<le> ctrl" and h: "match_head level inp ctrl ip op = Inr (ip', of_nat (n - 3), int op - int d)"
    and r: "drop ip' inp = r" by blast
  have "unat (of_nat (n - 3) :: uint32) = n - 3" using n'(1) by (simp add: unat_of_nat)
  then have u: "unat (of_nat (n - 3) :: uint32) + 3 = n" "uint (of_nat (n - 3) :: uint32) = int n - 3"
    using n(2) by (simp_all add: uint_nat)
  obtain out' where cp: "copy_ref n (op - Suc d) op out = Inr (op + n, out')" "length out' = length out"
    "take (op + n) out' = copy_back d n (take op out)" "drop (op + n) out' = drop (op + n) out"
    using copy_ref_back [OF n(1) fits(1)] by blast
  have ref: "nat (int op - int d - 1) = op - Suc d" "(int op - int d = int op) = (d = 0)" using n(1) by auto
  have "d = 0 \<Longrightarrow> copy_run n (out ! (op - Suc d)) op out = Inr (op + n, out')"
    using copy_run_ref [of op n out] n(1) fits(1) cp(1) by simp
  then have copied: "(if int op - int d = int op then bindE (rd out (nat (int op - int d - 1))) (\<lambda>b. copy_run n b op out)
      else copy_ref n (nat (int op - int d - 1)) op out) = Inr (op + n, out')"
    using cp(1) n(1) fits(1) unfolding ref by simp
  have guards: "\<not> int op + uint (of_nat (n - 3) :: uint32) + 3 > op_limit" "\<not> int op - int d - 1 < 0"
    using fits(2) n(1) by (simp_all add: u(2))
  have "dec_step level inp (int (length inp)) op_limit ctrl ip op out =
      Inr (Some (case r of [] \<Rightarrow> None | b # _ \<Rightarrow> Some (ucast b), (case r of [] \<Rightarrow> ip' | b # _ \<Rightarrow> ip' + 1), op + n, out'))"
    unfolding dec_step_def
    by (simp only: big if_True h bindE_Inr prod.case guards if_False next_ctrl_drop [OF r] u(1) copied)
      (simp add: copied split: list.split)
  moreover have "r \<noteq> [] \<Longrightarrow> drop (case r of [] \<Rightarrow> ip' | b # _ \<Rightarrow> ip' + 1) inp = tl r"
    using r rd_drop [of ip' inp] by (cases r) simp_all
  ultimately show ?thesis using cp unfolding stepped_def by (simp only: token_length.simps apply_token.simps) auto
qed

lemma match_codes1_not_empty [simp]: "match_codes1 len d \<noteq> []"
  by (subst match_codes1.simps) simp

lemma match_codes2_not_empty [simp]: "match_codes2 len d \<noteq> []"
  by (simp add: match_codes2_parts)

lemma token_bytes_not_empty [simp]: "token_bytes level t \<noteq> []"
  by (cases t) simp_all

lemma dec_step_token:
  assumes "token_ok level op t" and "ctrl = ucast (hd (token_bytes level t))"
    and "drop ip inp = tl (token_bytes level t) @ r" and "ip \<le> length inp"
    and "op + token_length t \<le> length out" and "int (op + token_length t) \<le> op_limit"
  shows "stepped level t op out inp r (dec_step level inp (int (length inp)) op_limit ctrl ip op out)"
proof (cases t)
  case (Lit bs)
  show ?thesis using dec_step_lit [of level op bs] assms unfolding Lit by simp
next
  case (Match d n)
  show ?thesis using dec_step_match [of level op d n, OF assms(1-3) [unfolded Match]] assms(5,6) unfolding Match by simp
qed

section \<open>A stream of tokens\<close>

abbreviation (input) expand :: "byte list \<Rightarrow> token list \<Rightarrow> byte list" where
  "expand xs ts \<equiv> foldl apply_token xs ts"

definition stream_bytes :: "nat \<Rightarrow> token list \<Rightarrow> byte list" where
  "stream_bytes level ts = concat (map (token_bytes level) ts)"

primrec tokens_ok :: "nat \<Rightarrow> nat \<Rightarrow> token list \<Rightarrow> bool" where
  "tokens_ok level m [] \<longleftrightarrow> True"
| "tokens_ok level m (t # ts) \<longleftrightarrow> token_ok level m t \<and> tokens_ok level (m + token_length t) ts"

lemma length_expand: "length (expand xs ts) = length xs + sum_list (map token_length ts)"
  by (induction ts arbitrary: xs) simp_all

lemma stream_bytes_simps [simp]:
  "stream_bytes level [] = []" "stream_bytes level (t # ts) = token_bytes level t @ stream_bytes level ts"
  "stream_bytes level (ts @ us) = stream_bytes level ts @ stream_bytes level us"
  by (simp_all add: stream_bytes_def)

text \<open>The loop, started behind the first byte of the stream.\<close>

lemma dec_loop_tokens:
  assumes "tokens_ok level op (t # ts)" and "ctrl = ucast (hd (token_bytes level t))"
    and "drop ip inp = tl (stream_bytes level (t # ts))" and "ip \<le> length inp"
    and "length (expand (take op out) (t # ts)) \<le> length out"
    and "int (length (expand (take op out) (t # ts))) \<le> op_limit" and "op \<le> length out"
  shows "\<exists>out'. dec_loop level inp (int (length inp)) op_limit ctrl ip op out =
      Inr (int (length (expand (take op out) (t # ts))), out') \<and> length out' = length out \<and>
      take (length (expand (take op out) (t # ts))) out' = expand (take op out) (t # ts) \<and>
      drop (length (expand (take op out) (t # ts))) out' = drop (length (expand (take op out) (t # ts))) out"
  using assms
proof (induction ts arbitrary: t ctrl ip op out)
  case Nil
  have len: "length (take op out) = op" using Nil.prems(7) by simp
  have "stepped level t op out inp [] (dec_step level inp (int (length inp)) op_limit ctrl ip op out)"
    using Nil.prems len by (intro dec_step_token) simp_all
  then show ?case using len unfolding stepped_def dec_loop.simps [of level inp _ _ ctrl ip op out] by auto
next
  case (Cons u us)
  have len: "length (take op out) = op" using Cons.prems(7) by simp
  let ?r = "stream_bytes level (u # us)" and ?n = "op + token_length t"
  have fits: "?n \<le> length out" "int ?n \<le> op_limit" using Cons.prems(5,6) len by (simp_all add: length_expand)
  have "stepped level t op out inp ?r (dec_step level inp (int (length inp)) op_limit ctrl ip op out)"
    using Cons.prems(1-4) fits by (intro dec_step_token) simp_all
  then obtain ip' out' where st: "dec_step level inp (int (length inp)) op_limit ctrl ip op out =
      Inr (Some (Some (ucast (hd (token_bytes level u))), ip', ?n, out'))" "drop ip' inp = tl ?r"
    "take ?n out' = apply_token (take op out) t" "length out' = length out" "drop ?n out' = drop ?n out"
    by (cases "token_bytes level u") (auto simp: stepped_def)
  have ip': "ip' \<le> length inp" using dec_step_progress [OF st(1)] by simp
  have "length (expand (take ?n out') (u # us)) \<le> length out'" "int (length (expand (take ?n out') (u # us))) \<le> op_limit"
    "?n \<le> length out'" using Cons.prems(5,6) fits st(3,4) by simp_all
  moreover have "tokens_ok level ?n (u # us)" using Cons.prems(1) by simp
  ultimately obtain out2 where o2: "dec_loop level inp (int (length inp)) op_limit (ucast (hd (token_bytes level u))) ip' ?n out' =
      Inr (int (length (expand (take ?n out') (u # us))), out2)" "length out2 = length out'"
    "take (length (expand (take ?n out') (u # us))) out2 = expand (take ?n out') (u # us)"
    "drop (length (expand (take ?n out') (u # us))) out2 = drop (length (expand (take ?n out') (u # us))) out'"
    using Cons.IH [OF _ refl st(2) ip'] by blast
  have e: "expand (take ?n out') (u # us) = expand (take op out) (t # u # us)" using st(3) by simp
  have "?n \<le> length (expand (take op out) (t # u # us))" using len by (simp add: length_expand)
  then have "drop (length (expand (take op out) (t # u # us))) out' = drop (length (expand (take op out) (t # u # us))) out"
    using st(5) by (metis le_add_diff_inverse2 drop_drop)
  then show ?case using o2 st(1,4) unfolding e dec_loop.simps [of level inp _ _ ctrl ip op out] by simp
qed


section \<open>The whole function\<close>

text \<open>The first byte of the compressed data: a literal count, with the level in its upper bits.\<close>

definition first_byte :: "nat \<Rightarrow> nat \<Rightarrow> byte" where
  "first_byte level k = (if level = 2 then of_nat k OR 32 else of_nat k)"

lemma or_32: "k < 32 \<Longrightarrow> (of_nat k :: byte) OR 32 = of_nat (32 + k)"
proof -
  have "\<forall>k \<in> set [0..<32]. (of_nat k :: byte) OR 32 = of_nat (32 + k)" by code_simp
  then show "k < 32 \<Longrightarrow> (of_nat k :: byte) OR 32 = of_nat (32 + k)" by simp
qed

lemma first_byte_bits:
  assumes "k < 32" and l: "level = 1 \<or> level = 2"
  shows "unat (drop_bit 5 (first_byte level k)) + 1 = level"
    and "(ucast (first_byte level k) AND 31 :: uint32) = ucast (of_nat k :: byte)"
proof -
  let ?h = "level - 1"
  have b: "first_byte level k = of_nat (?h * 32 + k)" using l or_32 [OF assms(1)] by (auto simp: first_byte_def)
  have u: "unat (first_byte level k) = ?h * 32 + k" unfolding b using assms by (intro unat_byte) auto
  have "unat (drop_bit 5 (first_byte level k)) = drop_bit 5 (?h * 32 + k)" unfolding unat_drop_bit_eq u ..
  also have "\<dots> = ?h" using assms(1) by (simp add: drop_bit_eq_div)
  finally show "unat (drop_bit 5 (first_byte level k)) + 1 = level" using l by auto
  have "?h < 8" using l by auto
  from ctrl_bits(2) [OF this assms(1) refl]
  have "(ucast (first_byte level k) AND 31 :: uint32) = of_nat k" unfolding b .
  then show "(ucast (first_byte level k) AND 31 :: uint32) = ucast (of_nat k :: byte)"
    using assms(1) by (simp only: ucast_of_byte)
qed

lemma fastlz_decompress_tokens:
  assumes l: "level = 1 \<or> level = 2" and ok: "tokens_ok level 0 (Lit bs # ts)"
    and inp: "inp = first_byte level (length bs - 1) # tl (stream_bytes level (Lit bs # ts))"
    and fits: "length (expand [] (Lit bs # ts)) \<le> length out" "int (length (expand [] (Lit bs # ts))) \<le> maxout"
  shows "\<exists>out'. fastlz_decompress inp (int (length inp)) out maxout =
      Inr (int (length (expand [] (Lit bs # ts))), out') \<and> length out' = length out \<and>
      take (length (expand [] (Lit bs # ts))) out' = expand [] (Lit bs # ts) \<and>
      drop (length (expand [] (Lit bs # ts))) out' = drop (length (expand [] (Lit bs # ts))) out"
proof -
  have k: "length bs - 1 < 32" using ok by auto
  note fb = first_byte_bits [OF k l]
  have r: "rd inp 0 = Inr (first_byte level (length bs - 1))" using inp by (simp add: rd_def)
  have "fastlz_decompress inp (int (length inp)) out maxout = FASTLZ_DECOMPRESSOR level inp (int (length inp)) out maxout"
    unfolding fastlz_decompress_def r bindE_Inr Let_def fb(1) using l by auto
  also have "\<dots> = dec_loop level inp (int (length inp)) maxout (ucast (hd (token_bytes level (Lit bs)))) 1 0 out"
    unfolding FASTLZ_DECOMPRESSOR_def r bindE_Inr fb(2) by simp
  finally have "fastlz_decompress inp (int (length inp)) out maxout =
    dec_loop level inp (int (length inp)) maxout (ucast (hd (token_bytes level (Lit bs)))) 1 0 out" .
  moreover have "drop 1 inp = tl (stream_bytes level (Lit bs # ts))" "1 \<le> length inp" using inp by simp_all
  ultimately show ?thesis using dec_loop_tokens [OF ok refl, of 1 inp out maxout] fits by simp
qed


section \<open>Any input\<close>

text \<open>
  Whatever the input is. The reads of a match are not checked against the end of the input; they
  end at the first byte that is not 255, at \<open>k\<close>.
\<close>

lemma add_codes_ends:
  "ip \<le> k \<Longrightarrow> k < length inp \<Longrightarrow> inp ! k \<noteq> 255 \<Longrightarrow> \<exists>ip' len'. add_codes inp ip len = Inr (ip', len') \<and> ip' \<le> k + 1"
proof (induction inp ip len rule: add_codes.induct)
  case (1 inp ip len)
  have r: "rd inp ip = Inr (inp ! ip)" using 1(2,3) by simp
  show ?case
  proof (cases "inp ! ip = 255")
    case True
    then have "ip + 1 \<le> k" using 1(2,4) by (cases "ip = k") auto
    then show ?thesis using 1(1) [OF r True] 1(3,4) r True by (simp add: add_codes.simps [of inp ip len])
  next
    case False
    then show ?thesis using r 1(2) by (simp add: add_codes.simps [of inp ip len])
  qed
qed

lemma down_le: "- uint (v :: uint32) \<le> uint (w :: byte)" "- uint (v :: uint32) \<le> int m"
  using uint_ge_0 [of v] uint_ge_0 [of w] by linarith+

lemma match_head_ends:
  assumes "ip \<le> k" and "k + 4 \<le> length inp" and "inp ! k \<noteq> 255"
  shows "\<exists>ip' len ref. match_head level inp ctrl ip op = Inr (ip', len, ref) \<and> ref \<le> int op"
proof -
  let ?l = "drop_bit 5 ctrl - 1 :: uint32"
  show ?thesis
  proof (cases "level = 1")
    case True
    have "\<exists>ip' len. (if ?l = 6 then bindE (rd inp ip) (\<lambda>b. Inr (ip + 1, ?l + ucast b)) else Inr (ip, ?l)) = Inr (ip', len) \<and> ip' \<le> k + 1"
      using assms(1,2) by simp
    then obtain ip' len where i: "(if ?l = 6 then bindE (rd inp ip) (\<lambda>b. Inr (ip + 1, ?l + ucast b)) else Inr (ip, ?l)) = Inr (ip', len)"
      "ip' \<le> k + 1" by blast
    have "rd inp ip' = Inr (inp ! ip')" using i(2) assms(2) by simp
    then have "match_head level inp ctrl ip op =
        Inr (ip' + 1, len, int op - uint (push_bit 8 (ctrl AND 31)) - uint (inp ! ip'))"
      unfolding match_head_def Let_def using True by (simp only: simp_thms if_True i(1) bindE_Inr prod.case)
    moreover have "int op - uint (push_bit 8 (ctrl AND 31)) - uint (inp ! ip') \<le> int op"
      using uint_ge_0 [of "push_bit 8 (ctrl AND 31)"] uint_ge_0 [of "inp ! ip'"] by linarith
    ultimately show ?thesis by blast
  next
    case False
    have "\<exists>ip' len. (if ?l = 6 then add_codes inp ip ?l else Inr (ip, ?l)) = Inr (ip', len) \<and> ip' \<le> k + 1"
      using add_codes_ends [of ip k inp ?l] assms by auto
    then obtain ip' len where i: "(if ?l = 6 then add_codes inp ip ?l else Inr (ip, ?l)) = Inr (ip', len)"
      "ip' \<le> k + 1" by blast
    have r: "rd inp ip' = Inr (inp ! ip')" "rd inp (ip' + 1) = Inr (inp ! (ip' + 1))" "rd inp (ip' + 2) = Inr (inp ! (ip' + 2))"
      using i(2) assms(2) by simp_all
    have "\<exists>q. match_head level inp ctrl ip op = Inr q \<and> snd (snd q) \<le> int op"
      unfolding match_head_def Let_def using False
      by (simp only: if_False i(1) bindE_Inr prod.case r) (simp add: down_le split: if_split)
    then show ?thesis by (metis prod.collapse)
  qed
qed

definition safe_step :: "int \<Rightarrow> int \<Rightarrow> byte list \<Rightarrow> (uint32 option \<times> nat \<times> nat \<times> byte list) option res \<Rightarrow> bool" where
  "safe_step ip_limit op_limit out res \<longleftrightarrow> res = Inr None \<or> (\<exists>c ip' op' out'. res = Inr (Some (c, ip', op', out')) \<and>
     int op' \<le> op_limit \<and> length out' = length out \<and> drop (nat op_limit) out' = drop (nat op_limit) out \<and>
     (c \<noteq> None \<longrightarrow> int ip' \<le> ip_limit))"

lemma next_ctrl_ends:
  assumes "ip_limit \<le> int (length inp)"
  shows "\<exists>c ip'. next_ctrl inp ip_limit ip = Inr (c, ip') \<and> (c \<noteq> None \<longrightarrow> int ip' \<le> ip_limit)"
  using assms by (auto simp: next_ctrl_def)

lemma drop_further: "drop m xs = drop m ys \<Longrightarrow> m \<le> n \<Longrightarrow> drop n xs = drop n ys"
  by (metis drop_drop le_add_diff_inverse2)

lemma nat_bound: "int m + int n \<le> b \<Longrightarrow> m + n \<le> nat b"
  by linarith

lemma dec_step_safe:
  assumes k: "ip_limit \<le> int k" "k + 4 \<le> length inp" "inp ! k \<noteq> 255"
    and out: "op_limit \<le> int (length out)" and ip: "32 \<le> ctrl \<Longrightarrow> int ip \<le> ip_limit"
  shows "safe_step ip_limit op_limit out (dec_step level inp ip_limit op_limit ctrl ip op out)"
proof -
  have lim: "ip_limit \<le> int (length inp)" using k(1,2) by linarith
  show ?thesis
  proof (cases "32 \<le> ctrl")
    case True
    have "ip \<le> k" using ip [OF True] k(1) by simp
    then obtain ip1 len ref where h: "match_head level inp ctrl ip op = Inr (ip1, len, ref)" "ref \<le> int op"
      using match_head_ends [of ip k inp level ctrl op] k by blast
    show ?thesis
    proof (cases "int op + uint len + 3 > op_limit \<or> ref - 1 < 0")
      case True
      then show ?thesis using \<open>32 \<le> ctrl\<close> h(1) by (auto simp: safe_step_def dec_step_def)
    next
      case False
      let ?n = "unat len + 3" and ?d = "nat (int op - ref)"
      obtain c ip2 where c: "next_ctrl inp ip_limit ip1 = Inr (c, ip2)" "c \<noteq> None \<longrightarrow> int ip2 \<le> ip_limit"
        using next_ctrl_ends [OF lim] by blast
      have n: "int op + int ?n \<le> op_limit" using False by simp
      then have fits: "op + ?n \<le> length out" using out by linarith
      have d: "?d < op" "nat (ref - 1) = op - Suc ?d" "(ref = int op) = (?d = 0)" using False h(2) by auto
      obtain out' where cp: "copy_ref ?n (op - Suc ?d) op out = Inr (op + ?n, out')" "length out' = length out"
        "drop (op + ?n) out' = drop (op + ?n) out" using copy_ref_back [OF d(1) fits] by blast
      have "?d = 0 \<Longrightarrow> copy_run ?n (out ! (op - Suc ?d)) op out = Inr (op + ?n, out')"
        using copy_run_ref [of op ?n out] d(1) fits cp(1) by simp
      then have copied: "(if ref = int op then bindE (rd out (nat (ref - 1))) (\<lambda>b. copy_run ?n b op out)
          else copy_ref ?n (nat (ref - 1)) op out) = Inr (op + ?n, out')"
        using cp(1) d(1) fits unfolding d(2,3) by simp
      have guards: "\<not> int op + uint len + 3 > op_limit" "\<not> ref - 1 < 0" using False by simp_all
      have "dec_step level inp ip_limit op_limit ctrl ip op out = Inr (Some (c, ip2, op + ?n, out'))"
        unfolding dec_step_def
        by (simp only: \<open>32 \<le> ctrl\<close> if_True h(1) bindE_Inr prod.case guards if_False c(1) copied)
      moreover have "drop (nat op_limit) out' = drop (nat op_limit) out" by (rule drop_further [OF cp(3) nat_bound [OF n]])
      ultimately show ?thesis using n cp(2) c(2) by (simp add: safe_step_def)
    qed
  next
    case False
    let ?c = "ctrl + 1"
    show ?thesis
    proof (cases "int op + uint ?c > op_limit \<or> int ip + uint ?c > ip_limit")
      case True
      then show ?thesis using False by (auto simp: safe_step_def dec_step_def Let_def)
    next
      case guards: False
      let ?n = "unat ?c"
      have n: "int op + int ?n \<le> op_limit" "int ip + int ?n \<le> ip_limit" using guards by simp_all
      then have fits: "op + ?n \<le> length out" "ip + ?n \<le> length inp" using out k(1,2) by linarith+
      let ?bs = "take ?n (drop ip inp)"
      have "drop ip inp = ?bs @ drop ?n (drop ip inp)" "length ?bs = ?n"
        using fits(2) by (simp_all del: drop_drop)
      then have cp: "copy_lit ?n inp ip op out = Inr (op + ?n, splice op ?bs out)"
        using copy_lit_puts [of ip inp ?bs _ op out] fits(1) by metis
      obtain c ip2 where c: "next_ctrl inp ip_limit (ip + ?n) = Inr (c, ip2)" "c \<noteq> None \<longrightarrow> int ip2 \<le> ip_limit"
        using next_ctrl_ends [OF lim] by blast
      have "dec_step level inp ip_limit op_limit ctrl ip op out = Inr (Some (c, ip2, op + ?n, splice op ?bs out))"
        unfolding dec_step_def Let_def using guards
        by (simp only: False if_False cp bindE_Inr prod.case c(1)) simp
      moreover have "drop (op + ?n) (splice op ?bs out) = drop (op + ?n) out" using fits by (simp add: splice_def)
      then have "drop (nat op_limit) (splice op ?bs out) = drop (nat op_limit) out" by (rule drop_further [OF _ nat_bound [OF n(1)]])
      moreover have "length (splice op ?bs out) = length out" using fits by simp
      ultimately show ?thesis using n(1) c(2) by (simp add: safe_step_def)
    qed
  qed
qed

lemma dec_loop_safe:
  assumes "ip_limit \<le> int k" and "k + 4 \<le> length inp" and "inp ! k \<noteq> 255"
    and "op_limit \<le> int (length out)" and "32 \<le> ctrl \<Longrightarrow> int ip \<le> ip_limit"
  shows "\<exists>r out'. dec_loop level inp ip_limit op_limit ctrl ip op out = Inr (r, out') \<and> (r = 0 \<or> 0 \<le> r \<and> r \<le> op_limit) \<and>
    length out' = length out \<and> drop (nat op_limit) out' = drop (nat op_limit) out"
  using assms
proof (induction level inp ip_limit op_limit ctrl ip op out rule: dec_loop.induct)
  case (1 level inp ip_limit op_limit ctrl ip op out)
  have "safe_step ip_limit op_limit out (dec_step level inp ip_limit op_limit ctrl ip op out)"
    using 1(2-6) by (intro dec_step_safe) simp_all
  then consider "dec_step level inp ip_limit op_limit ctrl ip op out = Inr None"
    | c ip' op' out' where "dec_step level inp ip_limit op_limit ctrl ip op out = Inr (Some (c, ip', op', out'))"
      "int op' \<le> op_limit" "length out' = length out" "drop (nat op_limit) out' = drop (nat op_limit) out"
      "c \<noteq> None \<longrightarrow> int ip' \<le> ip_limit" unfolding safe_step_def by blast
  then show ?case
  proof cases
    case 1
    then show ?thesis by (simp add: dec_loop.simps [of level inp ip_limit op_limit ctrl ip op out])
  next
    case 2
    show ?thesis
    proof (cases c)
      case None
      then show ?thesis using 2 by (simp add: dec_loop.simps [of level inp ip_limit op_limit ctrl ip op out])
    next
      case (Some b)
      have "\<exists>r out2. dec_loop level inp ip_limit op_limit b ip' op' out' = Inr (r, out2) \<and> (r = 0 \<or> 0 \<le> r \<and> r \<le> op_limit) \<and>
        length out2 = length out' \<and> drop (nat op_limit) out2 = drop (nat op_limit) out'"
        using 2(2-5) Some 1(2-5) by (intro 1(1) [OF 2(1) [unfolded Some] refl refl refl refl refl]) simp_all
      then show ?thesis using 2 Some by (simp add: dec_loop.simps [of level inp ip_limit op_limit ctrl ip op out])
    qed
  qed
qed


lemma copy_run_total:
  "0 < op \<Longrightarrow> op + n \<le> length out \<Longrightarrow> \<exists>out'. copy_run n (out ! (op - 1)) op out = Inr (op + n, out')"
  using copy_run_ref [of op n out] copy_ref_back [of 0 op n out] by auto

lemma long_match_reads_behind:
  assumes "length out = 266"
  shows "\<exists>out'. fastlz_decompress [0, 5, 224, a, 0] 3 out 266 = Inr (10 + uint a, out')"
proof -
  let ?inp = "[0, 5, 224, a, 0] :: byte list" and ?o = "splice 0 [5] out" and ?len = "6 + ucast a :: uint32"
  have "dec_step 1 ?inp 3 266 0 1 0 out = Inr (Some (Some 224, 3, 1, ?o))"
    using assms by (simp add: dec_step_def next_ctrl_def rd_def)
  then have start: "fastlz_decompress ?inp 3 out 266 = dec_loop 1 ?inp 3 266 224 3 1 ?o"
    by (simp add: fastlz_decompress_def FASTLZ_DECOMPRESSOR_def dec_loop.simps [of 1 ?inp 3 266 0 1 0 out]
        del: One_nat_def)
  have u: "unat (ucast a :: uint32) = unat a" "unat a < 256" using unsigned_less [of a, where 'a = nat] by (simp_all add: unat_ucast_byte)
  have len: "unat ?len = 6 + unat a" using u by (simp add: unat_word_ariths)
  have h: "match_head 1 ?inp 224 3 1 = Inr (5, ?len, 1)" by (simp add: match_head_def rd_def)
  have fits: "1 + (unat ?len + 3) \<le> length ?o" using u(2) assms unfolding len by simp
  have o: "?o ! 0 = 5" using assms by (simp add: splice_def)
  obtain out' where cp: "copy_run (unat ?len + 3) 5 1 ?o = Inr (1 + (unat ?len + 3), out')"
    using copy_run_total [OF _ fits] o by auto
  have rd0: "rd ?o 0 = Inr 5" using o assms by (subst rd_Inr) auto
  have ul: "uint ?len = 6 + uint a" unfolding uint_nat len by simp
  have "uint a < 256" using unsigned_less [of a, where 'a = int] by simp
  then have guard: "\<not> (1 :: int) + uint ?len + 3 > 266" unfolding ul by simp
  have res: "int (1 + (unat ?len + 3)) = 10 + uint a" unfolding len by simp
  have "next_ctrl ?inp 3 5 = Inr (None, 5)" by (simp add: next_ctrl_def)
  moreover have "(1 :: int) = int 1" "(32 :: uint32) \<le> 224" "nat (1 - 1) = 0" "\<not> (1 :: int) - 1 < 0" by simp_all
  ultimately have "dec_step 1 ?inp 3 266 224 3 1 ?o = Inr (Some (None, 5, 1 + (unat ?len + 3), out'))"
    unfolding dec_step_def
    by (simp only: simp_thms h bindE_Inr prod.case guard if_True if_False rd0 cp)
  then have "dec_loop 1 ?inp 3 266 224 3 1 ?o = Inr (int (1 + (unat ?len + 3)), out')"
    unfolding dec_loop.simps [of 1 ?inp 3 266 224 3 1 ?o] by (simp only: sum.case option.case prod.case)
  then show ?thesis unfolding start res by blast
qed

section \<open>Properties\<close>

text \<open>
  C18. The decompressor computes the reference semantics of the format: for every stream of tokens
  that starts with literals, marked with its level, and every output buffer that is large enough,
  the result is the length of the expansion and the buffer holds the expansion, followed by what it
  held before. The special case for runs changes nothing.
\<close>
theorem fastlz_decompress_expands:
  assumes "level = 1 \<or> level = 2" and "tokens_ok level 0 (Lit bs # ts)"
    and "length (expand [] (Lit bs # ts)) \<le> length out" and "int (length (expand [] (Lit bs # ts))) \<le> maxout"
  shows "\<exists>out'. fastlz_decompress (first_byte level (length bs - 1) # tl (stream_bytes level (Lit bs # ts)))
      (int (length (stream_bytes level (Lit bs # ts)))) out maxout = Inr (int (length (expand [] (Lit bs # ts))), out') \<and>
    out' = expand [] (Lit bs # ts) @ drop (length (expand [] (Lit bs # ts))) out"
proof -
  let ?n = "length (expand [] (Lit bs # ts))"
  have len: "length (first_byte level (length bs - 1) # tl (stream_bytes level (Lit bs # ts))) =
    length (stream_bytes level (Lit bs # ts))" by simp
  obtain out' where o: "fastlz_decompress (first_byte level (length bs - 1) # tl (stream_bytes level (Lit bs # ts)))
      (int (length (stream_bytes level (Lit bs # ts)))) out maxout = Inr (int ?n, out')"
    "take ?n out' = expand [] (Lit bs # ts)" "drop ?n out' = drop ?n out"
    using fastlz_decompress_tokens [OF assms(1,2) refl assms(3,4)] unfolding len by blast
  have "out' = take ?n out' @ drop ?n out'" by simp
  then show ?thesis using o by metis
qed

theorem fastlz_decompress_expands_witness:
  "\<exists>out'. fastlz_decompress [34, 1, 2, 3, 96, 2, 0, 9] 8 (replicate 12 0) 12 = Inr (9, out') \<and>
    out' = [1, 2, 3, 1, 2, 3, 1, 2, 9] @ replicate 3 0"
proof -
  let ?ts = "[Match 2 5, Lit [9]]"
  have ok: "tokens_ok 2 0 (Lit [1, 2, 3] # ?ts)" by simp
  have e: "expand [] (Lit [1, 2, 3] # ?ts) = [1, 2, 3, 1, 2, 3, 1, 2, 9]" by code_simp
  have b: "first_byte 2 (length [1, 2, 3 :: byte] - 1) = 34" "stream_bytes 2 (Lit [1, 2, 3] # ?ts) = [2, 1, 2, 3, 96, 2, 0, 9]"
    by code_simp+
  have d: "drop 9 (replicate 12 (0 :: byte)) = replicate 3 0" by simp
  show ?thesis using fastlz_decompress_expands [OF _ ok, of "replicate 12 0" 12] d unfolding e b by simp
qed




end
