(* ===== verification/Compress.thy ===== *)
theory Compress
  imports Decompress
begin

text \<open>
  What the compressor of \<open>fastlz.c\<close> writes: at every moment a stream of tokens that expands to the
  input read so far. It follows that decompression gives back the input, that the output fits a
  buffer of a known size, and that no memory is touched that does not belong to the buffers.
\<close>

section \<open>Searching\<close>

lemma readu16_Inr: "p + 1 < length inp \<Longrightarrow> \<exists>v. FASTLZ_READU16 inp p = Inr v"
  by (simp add: FASTLZ_READU16_def)

lemma hash_Inr: "p + 2 < length inp \<Longrightarrow> \<exists>h. HASH_FUNCTION inp p = Inr h"
  using readu16_Inr [of p inp] readu16_Inr [of "p + 1" inp] by (auto simp: HASH_FUNCTION_def)

lemma u16_inject:
  "(ucast a OR push_bit 8 (ucast b) :: uint32) = ucast c OR push_bit 8 (ucast d) \<longleftrightarrow> a = (c :: byte) \<and> b = (d :: byte)"
proof
  assume e: "(ucast a OR push_bit 8 (ucast b) :: uint32) = ucast c OR push_bit 8 (ucast d)"
  have none: "\<not> bit x (8 + n)" for x :: byte and n using bit_imp_le_length [of x "8 + n"] by auto
  have low: "(ucast (ucast x OR push_bit 8 (ucast y) :: uint32) :: byte) = x"
    and high: "(ucast (drop_bit 8 (ucast x OR push_bit 8 (ucast y) :: uint32)) :: byte) = y" for x y :: byte
    by (auto intro!: bit_word_eqI simp: bit_simps none)
  show "a = c \<and> b = d" using low [of a b] high [of a b] unfolding e low high by simp
qed simp

lemma same_bytes_spec:
  "a + n \<le> length inp \<Longrightarrow> b + n \<le> length inp \<Longrightarrow>
     \<exists>r. same_bytes inp n a b = Inr r \<and> (r \<longrightarrow> (\<forall>i < n. inp ! (a + i) = inp ! (b + i)))"
proof (induction n arbitrary: a b)
  case (Suc n)
  show ?case
  proof (cases "inp ! a = inp ! b")
    case True
    obtain r where r: "same_bytes inp n (Suc a) (Suc b) = Inr r" "r \<longrightarrow> (\<forall>i < n. inp ! (Suc a + i) = inp ! (Suc b + i))"
      using Suc.IH [of "Suc a" "Suc b"] Suc.prems by auto
    have "inp ! (a + i) = inp ! (b + i)" if "i < Suc n" "r" for i using that r(2) True by (cases i) auto
    then show ?thesis using r(1) True Suc.prems by auto
  next
    case False
    then have "same_bytes inp (Suc n) a b = Inr False" using Suc.prems by simp
    then show ?thesis by blast
  qed
qed auto

text \<open>A match at \<open>p\<close>: the distance, where the comparison goes on, and how much is known to be equal.\<close>

definition is_match :: "nat \<Rightarrow> byte list \<Rightarrow> nat \<Rightarrow> nat \<times> nat \<times> nat \<Rightarrow> bool" where
  "is_match level inp p m \<longleftrightarrow> (case m of (d, ref, len) \<Rightarrow>
     1 \<le> d \<and> d \<le> p \<and> ref = p - d + len \<and> (\<forall>i < len. inp ! (p + i) = inp ! (p - d + i)) \<and>
     (if level = 1 then len = 3 \<and> d < 8192
      else d < 73725 \<and> (if d < 8191 then len = 3 else len = 5)))"

lemma is_run_spec:
  assumes "1 \<le> p" and "p + 2 < length inp"
  shows "\<exists>r. is_run inp p = Inr r \<and> (r \<longrightarrow> (\<forall>i < 3. inp ! (p + i) = inp ! (p - 1 + i)))"
proof -
  have r: "rd inp p = Inr (inp ! p)" "rd inp (p - 1) = Inr (inp ! (p - 1))" "rd inp (p + 1) = Inr (inp ! (p + 1))"
    "rd inp (p + 2) = Inr (inp ! (p + 2))" "p - 1 + 1 = p" "p + 1 + 1 = p + 2" using assms by (auto intro!: rd_Inr)
  have run: "is_run inp p = Inr (inp ! p = inp ! (p - 1) \<and> inp ! (p - 1) = inp ! (p + 1) \<and> inp ! p = inp ! (p + 2))"
    unfolding is_run_def FASTLZ_READU16_def r bindE_Inr u16_inject by simp
  have "inp ! (p + i) = inp ! (p - 1 + i)"
    if i: "i < 3" and e: "inp ! p = inp ! (p - 1)" "inp ! (p - 1) = inp ! (p + 1)" "inp ! p = inp ! (p + 2)" for i
  proof -
    consider "i = 0" | "i = 1" | "i = 2" using i by arith
    then show ?thesis
    proof cases
      case 3
      have "p - 1 + 2 = p + 1" using assms(1) by simp
      then show ?thesis using e 3 by simp
    qed (use e r(5) in simp_all)
  qed
  then show ?thesis unfolding run by blast
qed


lemma find_match_spec:
  assumes l: "level = 1 \<or> level = 2" and p: "1 \<le> p" "p + 12 < length inp" and h: "\<forall>k. htab k < p"
  shows "\<exists>m htab'. find_match level inp p htab = Inr (m, htab') \<and> (\<forall>k. htab' k \<le> p) \<and>
    (\<forall>x. m = Some x \<longrightarrow> is_match level inp p x)"
proof -
  have "\<exists>r. (if level = 2 then is_run inp p else Inr False) = Inr r \<and>
      (r \<longrightarrow> level = 2 \<and> (\<forall>i < 3. inp ! (p + i) = inp ! (p - 1 + i)))"
    using is_run_spec [of p inp] p by auto
  then obtain r where r: "(if level = 2 then is_run inp p else Inr False) = Inr r"
    "r \<longrightarrow> level = 2 \<and> (\<forall>i < 3. inp ! (p + i) = inp ! (p - 1 + i))" by blast
  show ?thesis
  proof (cases r)
    case True
    have "is_match level inp p (1, p - 1 + 3, 3)" using r(2) True p(1) by (simp add: is_match_def)
    moreover have "find_match level inp p htab = Inr (Some (1, p - 1 + 3, 3), htab)"
      unfolding find_match_def r(1) using True by simp
    ultimately show ?thesis using h less_imp_le by blast
  next
    case False
    obtain v where v: "HASH_FUNCTION inp p = Inr v" using hash_Inr [of p inp] p(2) by auto
    let ?ref = "htab v" and ?d = "p - htab v" and ?htab = "htab(v := p)"
    have d: "1 \<le> ?d" "?d \<le> p" "p - ?d = ?ref" using h [rule_format, of v] by simp_all
    have "?ref < p" using h by blast
    then have room: "?ref + 3 \<le> length inp" "p + 3 \<le> length inp" "p + 3 + 2 \<le> length inp" "?ref + 3 + 2 \<le> length inp"
      using p(2) by simp_all
    have h': "\<forall>k. ?htab k \<le> p" using h less_imp_le by auto
    have run: "find_match level inp p htab =
        (if ?d = 0 \<or> ?d \<ge> (if level = 1 then MAX_DISTANCE 1 else MAX_FARDISTANCE) then Inr (None, ?htab)
         else bindE (same_bytes inp 3 ?ref p) (\<lambda>eq.
           if \<not> eq then Inr (None, ?htab)
           else if level = 2 \<and> ?d \<ge> MAX_DISTANCE 2 then
             bindE (same_bytes inp 2 (p + 3) (?ref + 3)) (\<lambda>eq.
             Inr (if eq then Some (?d, ?ref + 5, 5) else None, ?htab))
           else Inr (Some (?d, ?ref + 3, 3), ?htab)))"
      unfolding find_match_def r(1) bindE_Inr v Let_def using False by simp
    obtain e3 where e3: "same_bytes inp 3 ?ref p = Inr e3" "e3 \<longrightarrow> (\<forall>i < 3. inp ! (?ref + i) = inp ! (p + i))"
      using same_bytes_spec [OF room(1,2)] by blast
    obtain e5 where e5: "same_bytes inp 2 (p + 3) (?ref + 3) = Inr e5"
      "e5 \<longrightarrow> (\<forall>i < 2. inp ! (p + 3 + i) = inp ! (?ref + 3 + i))"
      using same_bytes_spec [OF room(3,4)] by blast
    have near: "is_match level inp p (?d, ?ref + 3, 3)"
      if "?d < (if level = 1 then 8192 else 8191)" "e3"
      using that e3(2) d l by (auto simp: is_match_def)
    have far: "is_match level inp p (?d, ?ref + 5, 5)" if "level = 2" "8191 \<le> ?d" "?d < 73725" e3 e5
    proof -
      have "inp ! (p + i) = inp ! (?ref + i)" if "i < 5" for i
      proof (cases "i < 3")
        case False
        then have "3 \<le> i" by simp
        then obtain k where k: "i = 3 + k" using le_Suc_ex by blast
        then have "k < 2" using that by simp
        then show ?thesis using e5(2) \<open>e5\<close> k by (simp add: add.assoc)
      qed (use e3(2) \<open>e3\<close> in simp)
      then show ?thesis using that d by (auto simp: is_match_def)
    qed
    show ?thesis
    proof (cases "?d \<ge> (if level = 1 then MAX_DISTANCE 1 else MAX_FARDISTANCE) \<or> \<not> e3")
      case True
      then have "find_match level inp p htab = Inr (None, ?htab)" unfolding run e3(1) by auto
      then show ?thesis using h' by blast
    next
      case False
      then have b: "\<not> ?d \<ge> (if level = 1 then MAX_DISTANCE 1 else MAX_FARDISTANCE)" and e: e3 by simp_all
      have b': "?d < (if level = 1 then 8192 else 73725)"
        using b by (simp add: MAX_DISTANCE_def MAX_FARDISTANCE_def split: if_splits)
      have nz: "?d \<noteq> 0" using d(1) by linarith
      have run2: "find_match level inp p htab =
          (if level = 2 \<and> ?d \<ge> MAX_DISTANCE 2 then Inr (if e5 then Some (?d, ?ref + 5, 5) else None, ?htab)
           else Inr (Some (?d, ?ref + 3, 3), ?htab))"
        unfolding run e3(1) e5(1) by (simp only: b e nz simp_thms if_True if_False bindE_Inr)
      show ?thesis
      proof (cases "level = 2 \<and> ?d \<ge> MAX_DISTANCE 2")
        case True
        have "is_match level inp p (?d, ?ref + 5, 5)" if e5 using True b' e that by (intro far) (simp_all add: MAX_DISTANCE_def)
        then show ?thesis using True h' unfolding run2 by auto
      next
        case False
        have "is_match level inp p (?d, ?ref + 3, 3)"
          using False b' e l by (intro near) (auto simp: MAX_DISTANCE_def)
        then show ?thesis using False h' unfolding run2 by auto
      qed
    qed
  qed
qed

text \<open>The end of a match: one behind the first byte that differs, or where the comparison stopped.\<close>

lemma match_rest_spec:
  assumes "ip_bound \<le> length inp" and "\<delta> \<le> ip"
  shows "\<exists>e. match_rest inp (ip - \<delta>) ip ip_bound = Inr e \<and> ip \<le> e \<and> e \<le> max ip ip_bound \<and>
    (\<forall>j. ip \<le> j \<and> Suc j < e \<longrightarrow> inp ! j = inp ! (j - \<delta>))"
  using assms
proof (induction "ip_bound - ip" arbitrary: ip)
  case 0
  then show ?case by (auto simp: match_rest.simps [of inp _ ip])
next
  case (Suc m)
  have b: "ip < ip_bound" using Suc.hyps(2) by simp
  have r: "rd inp (ip - \<delta>) = Inr (inp ! (ip - \<delta>))" "rd inp ip = Inr (inp ! ip)" using b Suc.prems by simp_all
  show ?case
  proof (cases "inp ! (ip - \<delta>) = inp ! ip")
    case True
    have m: "m = ip_bound - Suc ip" "ip_bound \<le> length inp" "\<delta> \<le> Suc ip" using Suc.hyps(2) Suc.prems by simp_all
    obtain e where e: "match_rest inp (Suc ip - \<delta>) (Suc ip) ip_bound = Inr e" "Suc ip \<le> e" "e \<le> max (Suc ip) ip_bound"
      "\<forall>j. Suc ip \<le> j \<and> Suc j < e \<longrightarrow> inp ! j = inp ! (j - \<delta>)"
      using Suc.hyps(1) [OF m] by blast
    have "inp ! j = inp ! (j - \<delta>)" if "ip \<le> j" "Suc j < e" for j using that e(4) True by (cases "j = ip") auto
    moreover have "match_rest inp (ip - \<delta>) ip ip_bound = Inr e"
      using e(1) r b True Suc.prems by (simp add: match_rest.simps [of inp _ ip] Suc_diff_le)
    ultimately show ?thesis using e(2,3) b by auto
  next
    case False
    then have "match_rest inp (ip - \<delta>) ip ip_bound = Inr (Suc ip)" using r b by (simp add: match_rest.simps [of inp _ ip])
    then show ?thesis using b by auto
  qed
qed


lemma match_end_spec:
  assumes "ip + n \<le> length inp" and "ip_bound \<le> length inp" and "\<delta> \<le> ip"
  shows "\<exists>e. match_end n inp (ip - \<delta>) ip ip_bound = Inr e \<and> ip \<le> e \<and> (0 < n \<longrightarrow> ip < e) \<and>
    e \<le> max (ip + n) ip_bound \<and> (\<forall>j. ip \<le> j \<and> Suc j < e \<longrightarrow> inp ! j = inp ! (j - \<delta>))"
  using assms
proof (induction n arbitrary: ip)
  case 0
  then show ?case using match_rest_spec [of ip_bound inp \<delta> ip] by simp
next
  case (Suc n)
  have r: "rd inp (ip - \<delta>) = Inr (inp ! (ip - \<delta>))" "rd inp ip = Inr (inp ! ip)" using Suc.prems(1) by simp_all
  show ?case
  proof (cases "inp ! (ip - \<delta>) = inp ! ip")
    case True
    have m: "Suc ip + n \<le> length inp" "\<delta> \<le> Suc ip" using Suc.prems by simp_all
    obtain e where e: "match_end n inp (Suc ip - \<delta>) (Suc ip) ip_bound = Inr e" "Suc ip \<le> e" "e \<le> max (Suc ip + n) ip_bound"
      "\<forall>j. Suc ip \<le> j \<and> Suc j < e \<longrightarrow> inp ! j = inp ! (j - \<delta>)"
      using Suc.IH [OF m(1) Suc.prems(2) m(2)] by blast
    have "inp ! j = inp ! (j - \<delta>)" if "ip \<le> j" "Suc j < e" for j using that e(4) True by (cases "j = ip") auto
    moreover have "match_end (Suc n) inp (ip - \<delta>) ip ip_bound = Inr e"
      using e(1) r True Suc.prems by (simp add: Suc_diff_le)
    moreover have "ip < e" "e \<le> max (ip + Suc n) ip_bound" using e(2,3) by simp_all
    ultimately show ?thesis using less_imp_le by blast
  next
    case False
    then have "match_end (Suc n) inp (ip - \<delta>) ip ip_bound = Inr (Suc ip)" using r by simp
    then show ?thesis by auto
  qed
qed

lemma run_end_spec:
  assumes "ip_bound \<le> length inp" and "1 \<le> ip"
  shows "\<exists>e. run_end inp x (ip - 1) ip ip_bound = Inr e \<and> ip \<le> e \<and> e \<le> max ip ip_bound \<and>
    (ip < ip_bound \<and> inp ! (ip - 1) = x \<longrightarrow> ip < e) \<and> (\<forall>j. ip \<le> Suc j \<and> Suc j < e \<longrightarrow> inp ! j = x)"
  using assms
proof (induction "ip_bound - ip" arbitrary: ip)
  case 0
  then show ?case by (auto simp: run_end.simps [of inp x _ ip])
next
  case (Suc m)
  have b: "ip < ip_bound" using Suc.hyps(2) by simp
  have r: "rd inp (ip - 1) = Inr (inp ! (ip - 1))" using b Suc.prems(1) by (intro rd_Inr) simp
  show ?case
  proof (cases "inp ! (ip - 1) = x")
    case True
    have m: "m = ip_bound - Suc ip" "1 \<le> Suc ip" using Suc.hyps(2) by simp_all
    obtain e where e: "run_end inp x (Suc ip - 1) (Suc ip) ip_bound = Inr e" "Suc ip \<le> e" "e \<le> max (Suc ip) ip_bound"
      "\<forall>j. Suc ip \<le> Suc j \<and> Suc j < e \<longrightarrow> inp ! j = x" using Suc.hyps(1) [OF m(1) Suc.prems(1) m(2)] by blast
    have "inp ! j = x" if "ip \<le> Suc j" "Suc j < e" for j using that e(4) True by (cases "ip = Suc j") auto
    moreover have "Suc (ip - 1) = ip" using Suc.prems(2) by simp
    then have "run_end inp x (ip - 1) ip ip_bound = Inr e"
      using e(1) r b True by (simp add: run_end.simps [of inp x _ ip])
    moreover have "e \<le> max ip ip_bound" "ip < e" using e(2,3) b by simp_all
    ultimately show ?thesis using less_imp_le by blast
  next
    case False
    then have "run_end inp x (ip - 1) ip ip_bound = Inr ip" using r b by (simp add: run_end.simps [of inp x _ ip])
    then show ?thesis using False by auto
  qed
qed

text \<open>Both searches together, as the compressor calls them for a match at \<open>p\<close> in an input of \<open>n\<close> bytes.\<close>

lemma match_extent:
  assumes m: "is_match level inp p (d, ref, len)" and l: "level = 1 \<or> level = 2"
    and n: "p + 13 \<le> n" "n \<le> length inp"
  shows "\<exists>e. (if d - 1 = 0 then bindE (rd inp (p + len - 1)) (\<lambda>x. run_end inp x ref (p + len) (n - 2))
      else match_end 8 inp ref (p + len) (n - 2)) = Inr e \<and> p + len < e \<and> e \<le> n \<and> (level = 1 \<longrightarrow> e < n) \<and>
    (\<forall>j. p \<le> j \<and> Suc j < e \<longrightarrow> inp ! j = inp ! (j - d))"
proof -
  have d: "1 \<le> d" "d \<le> p" "ref = p + len - d" and eq: "\<forall>i < len. inp ! (p + i) = inp ! (p - d + i)"
    and len: "len = 3 \<or> len = 5" "level = 1 \<longrightarrow> len = 3" "len = 5 \<longrightarrow> 8191 \<le> d"
    using m l by (auto simp: is_match_def split: if_splits)
  have bound: "n - 2 \<le> length inp" "p + len + 8 \<le> length inp" "p + len < n - 2" using n len(1) by auto
  have first: "inp ! j = inp ! (j - d)" if "p \<le> j" "j < p + len" for j
  proof -
    have "j - p < len" "p + (j - p) = j" "p - d + (j - p) = j - d" using that d(2) by simp_all
    then show ?thesis using eq by metis
  qed
  have "\<exists>e. (if d - 1 = 0 then bindE (rd inp (p + len - 1)) (\<lambda>x. run_end inp x ref (p + len) (n - 2))
      else match_end 8 inp ref (p + len) (n - 2)) = Inr e \<and> p + len < e \<and> e \<le> max (p + len + 8) (n - 2) \<and>
    (\<forall>j. p + len \<le> j \<and> Suc j < e \<longrightarrow> inp ! j = inp ! (j - d))"
  proof (cases "d = 1")
    case True
    let ?x = "inp ! (p + len - 1)"
    have r: "rd inp (p + len - 1) = Inr ?x" using bound by (intro rd_Inr) simp
    have "1 \<le> p + len" using d by simp
    then obtain e where e: "run_end inp ?x (p + len - 1) (p + len) (n - 2) = Inr e" "p + len < e" "e \<le> max (p + len) (n - 2)"
      "\<forall>j. p + len \<le> Suc j \<and> Suc j < e \<longrightarrow> inp ! j = ?x"
      using run_end_spec [OF bound(1), of "p + len" ?x] bound(3) by blast
    have "inp ! j = inp ! (j - 1)" if "p + len \<le> j" "Suc j < e" for j
    proof -
      have "p + len \<le> Suc (j - 1)" "Suc (j - 1) < e" "p + len \<le> Suc j" using that d by auto
      then show ?thesis using e(4) that(2) by metis
    qed
    then show ?thesis using e(1-3) r True d(3) by auto
  next
    case False
    then have "\<not> d - 1 = 0" using d(1) by simp
    moreover have "d \<le> p + len" using d(2) by simp
    then obtain e where e: "match_end 8 inp (p + len - d) (p + len) (n - 2) = Inr e" "p + len < e" "e \<le> max (p + len + 8) (n - 2)"
      "\<forall>j. p + len \<le> j \<and> Suc j < e \<longrightarrow> inp ! j = inp ! (j - d)"
      using match_end_spec [OF bound(2,1)] by (metis zero_less_numeral)
    ultimately show ?thesis using d(3) by auto
  qed
  then obtain e where e: "(if d - 1 = 0 then bindE (rd inp (p + len - 1)) (\<lambda>x. run_end inp x ref (p + len) (n - 2))
      else match_end 8 inp ref (p + len) (n - 2)) = Inr e" "p + len < e" "e \<le> max (p + len + 8) (n - 2)"
    "\<forall>j. p + len \<le> j \<and> Suc j < e \<longrightarrow> inp ! j = inp ! (j - d)" by blast
  have "inp ! j = inp ! (j - d)" if "p \<le> j" "Suc j < e" for j
    using first e(4) that by (cases "j < p + len") simp_all
  moreover have "e \<le> n" "level = 1 \<longrightarrow> e < n" using e(3) len n(1) by auto
  ultimately show ?thesis using e(1,2) by blast
qed

section \<open>Copies of the input\<close>

lemma copy_back_input:
  "d < p \<Longrightarrow> p + n \<le> length inp \<Longrightarrow> \<forall>j. p \<le> j \<and> j < p + n \<longrightarrow> inp ! j = inp ! (j - Suc d) \<Longrightarrow>
     copy_back d n (take p inp) = take (p + n) inp"
proof (induction n arbitrary: p)
  case (Suc n)
  have "take p inp ! (length (take p inp) - Suc d) = inp ! p" using Suc.prems by simp
  then have "copy_back d (Suc n) (take p inp) = copy_back d n (take (Suc p) inp)"
    using Suc.prems(2) by (simp add: take_Suc_conv_app_nth)
  also have "\<dots> = take (Suc p + n) inp" using Suc.prems by (intro Suc.IH) auto
  finally show ?case by simp
qed simp


section \<open>The tokens of a match\<close>

text \<open>Level 1 cuts a long match into pieces of 262 bytes.\<close>

function match_tokens1 :: "nat \<Rightarrow> nat \<Rightarrow> token list" where
  "match_tokens1 len d = (if len > MAX_LEN - 2 then Match d 262 # match_tokens1 (len - (MAX_LEN - 2)) d else [Match d (len + 2)])"
  by pat_completeness auto
termination by (relation "measure fst") auto

declare match_tokens1.simps [simp del]

definition match_tokens :: "nat \<Rightarrow> nat \<Rightarrow> nat \<Rightarrow> token list" where
  "match_tokens level len d = (if level = 2 then [Match d (len + 2)] else match_tokens1 len d)"

lemma match_tokens1_bytes: "stream_bytes 1 (match_tokens1 len d) = match_codes1 len d"
proof (induction len d rule: match_tokens1.induct)
  case (1 len d)
  show ?case
  proof (cases "len > MAX_LEN - 2")
    case True
    have "match_codes1 260 d = [of_nat (7 * 32 + d div 256), of_nat 253, of_nat (d mod 256)]"
      by (simp add: match_codes1.simps [of 260])
    then show ?thesis using 1 True by (simp add: match_tokens1.simps [of len] match_codes1.simps [of len])
  qed (simp add: match_tokens1.simps [of len])
qed

lemma match_tokens1_expand: "expand xs (match_tokens1 len d) = copy_back d (len + 2) xs"
proof (induction len d arbitrary: xs rule: match_tokens1.induct)
  case (1 len d)
  show ?case
  proof (cases "len > MAX_LEN - 2")
    case True
    have pieces: "264 - 2 = (262 :: nat)" by simp
    have "expand xs (match_tokens1 len d) = expand (copy_back d 262 xs) (match_tokens1 (len - 262) d)"
      using True by (simp add: match_tokens1.simps [of len])
    also have "\<dots> = copy_back d (len - 262 + 2) (copy_back d 262 xs)" by (rule 1 [OF True, unfolded pieces])
    also have "\<dots> = copy_back d (262 + (len - 262 + 2)) xs" by (simp only: copy_back_add)
    also have "262 + (len - 262 + 2) = len + 2" using True by simp
    finally show ?thesis .
  qed (simp add: match_tokens1.simps [of len])
qed

lemma match_tokens1_ok: "d < m \<Longrightarrow> d < 8192 \<Longrightarrow> 1 \<le> len \<Longrightarrow> tokens_ok 1 m (match_tokens1 len d)"
proof (induction len d arbitrary: m rule: match_tokens1.induct)
  case (1 len d)
  then show ?case by (subst match_tokens1.simps) simp
qed

lemma match_codes1_length: "1 \<le> len \<Longrightarrow> length (match_codes1 len d) \<le> len + 1"
proof (induction len d rule: match_codes1.induct)
  case (1 len d)
  have "length (match_codes1 (len - 262) d) \<le> len - 261" if "262 < len"
  proof -
    have "1 \<le> len - 262" "len - 262 + 1 = len - 261" using that by auto
    then show ?thesis using 1(1) that by simp
  qed
  then show ?case using 1(2) by (subst match_codes1.simps) auto
qed

lemma len_codes_length: "length (len_codes l) \<le> l + 1"
proof (induction l rule: len_codes.induct)
  case (1 l)
  then have "255 \<le> l \<Longrightarrow> length (len_codes (l - 255)) \<le> l" by simp
  then show ?case by (subst len_codes.simps) simp
qed

lemma match_codes2_length:
  assumes "1 \<le> len" and "8191 \<le> d \<Longrightarrow> 3 \<le> len"
  shows "length (match_codes2 len d) \<le> len + 1"
  using assms len_codes_length [of "len - 7"] by (auto simp: match_codes2_parts len_part_def)

definition match_codes :: "nat \<Rightarrow> nat \<Rightarrow> nat \<Rightarrow> byte list" where
  "match_codes level len d = (if level = 2 then match_codes2 len d else match_codes1 len d)"

text \<open>A match found at \<open>p\<close> that ends at \<open>e\<close> is written as tokens for \<open>e - 1 - p\<close> bytes.\<close>

lemma match_tokens_spec:
  assumes m: "is_match level inp p (d, ref, len)" and l: "level = 1 \<or> level = 2"
    and e: "p + len < e" "e < 2 ^ 31"
  shows "stream_bytes level (match_tokens level (e - 3 - p) (d - 1)) = match_codes level (e - 3 - p) (d - 1)"
    and "length (match_codes level (e - 3 - p) (d - 1)) \<le> e - 2 - p"
    and "tokens_ok level p (match_tokens level (e - 3 - p) (d - 1))"
    and "expand xs (match_tokens level (e - 3 - p) (d - 1)) = copy_back (d - 1) (e - 1 - p) xs"
proof -
  let ?len = "e - 3 - p"
  have d: "1 \<le> d" "d \<le> p" "level = 1 \<longrightarrow> d < 8192" "d < 73725" and len: "3 \<le> len" "8191 < d \<longrightarrow> level = 2 \<longrightarrow> len = 5"
    using m l by (auto simp: is_match_def split: if_splits)
  have n: "1 \<le> ?len" "?len + 2 = e - 1 - p" "?len + 1 = e - 2 - p" "8191 \<le> d - 1 \<Longrightarrow> level = 2 \<Longrightarrow> 3 \<le> ?len"
    using e(1) len by auto
  have d1: "d - 1 < p" "d - 1 < 8191 + 65536" using d by simp_all
  show "stream_bytes level (match_tokens level ?len (d - 1)) = match_codes level ?len (d - 1)"
    using l match_tokens1_bytes by (auto simp: match_tokens_def match_codes_def)
  show "length (match_codes level ?len (d - 1)) \<le> e - 2 - p"
    using match_codes1_length [OF n(1)] match_codes2_length [OF n(1)] n(3,4) l by (auto simp: match_codes_def)
  show "tokens_ok level p (match_tokens level ?len (d - 1))"
    using match_tokens1_ok [OF d1(1) _ n(1)] d d1 n(1) e(2) l by (auto simp: match_tokens_def)
  show "expand xs (match_tokens level ?len (d - 1)) = copy_back (d - 1) (e - 1 - p) xs"
    unfolding n(2) [symmetric] by (simp only: match_tokens_def match_tokens1_expand split: if_split) simp
qed


section \<open>The invariant of the compressor\<close>

text \<open>
  The tokens \<open>ts\<close> have been written and are followed by the place for a count and the literals
  \<open>ls\<close>; both together stand for the input up to \<open>ip\<close>. A token for literals adds one byte to at
  most 32, and a match is shorter than what it stands for, so the output grows by a part in 32.
\<close>

definition comp_inv :: "nat \<Rightarrow> byte list \<Rightarrow> nat \<Rightarrow> nat \<Rightarrow> lz_state \<Rightarrow> token list \<Rightarrow> byte list \<Rightarrow> bool" where
  "comp_inv level inp n m st ts ls \<longleftrightarrow> tokens_ok level 0 ts \<and> length ls < MAX_COPY \<and> lz_copy st = length ls \<and>
     expand [] ts @ ls = take (lz_ip st) inp \<and> lz_ip st \<le> n \<and>
     lz_op st = length (stream_bytes level ts) + 1 + length ls \<and> length (lz_out st) = m \<and>
     take (lz_op st) (lz_out st) = stream_bytes level ts @ 31 # ls \<and>
     32 * length (stream_bytes level ts) \<le> 33 * length (expand [] ts) \<and>
     (ts = [] \<longrightarrow> ls \<noteq> []) \<and> (ts \<noteq> [] \<longrightarrow> (\<exists>bs. hd ts = Lit bs))"

lemma comp_inv_htab: "comp_inv level inp n m (st\<lparr>lz_htab := ht\<rparr>) ts ls = comp_inv level inp n m st ts ls"
proof -
  have "lz_ip (st\<lparr>lz_htab := ht\<rparr>) = lz_ip st" "lz_op (st\<lparr>lz_htab := ht\<rparr>) = lz_op st"
    "lz_copy (st\<lparr>lz_htab := ht\<rparr>) = lz_copy st" "lz_out (st\<lparr>lz_htab := ht\<rparr>) = lz_out st" by simp_all
  then show ?thesis unfolding comp_inv_def by (simp only:)
qed

abbreviation out_bound :: "nat \<Rightarrow> nat" where
  "out_bound n \<equiv> n + n div 32 + 1"

lemma bound_room: "32 * e \<le> 33 * i \<Longrightarrow> i + c \<le> n \<Longrightarrow> e + 1 + c \<le> out_bound (n :: nat)"
proof -
  assume a: "32 * e \<le> 33 * i" "i + c \<le> n"
  have "(e - i) * 32 \<le> i" using a(1) by simp
  then have "e - i \<le> i div 32" by (simp only: less_eq_div_iff_mult_less_eq)
  moreover have "i div 32 \<le> n div 32" using a(2) by (intro div_le_mono) simp
  ultimately show ?thesis using a(2) by linarith
qed

lemma tokens_ok_append:
  "tokens_ok level m (ts @ us) \<longleftrightarrow> tokens_ok level m ts \<and> tokens_ok level (m + sum_list (map token_length ts)) us"
  by (induction ts arbitrary: m) (auto simp: add.assoc)

lemma take_puts_end: "op < length out \<Longrightarrow> take (Suc op) (out[op := b]) = take op out @ [b]"
  by (simp add: take_Suc_conv_app_nth)

lemma comp_inv_length: "comp_inv level inp n m st ts ls \<Longrightarrow> n \<le> length inp \<Longrightarrow> length (expand [] ts) + length ls = lz_ip st"
proof -
  assume i: "comp_inv level inp n m st ts ls" and n: "n \<le> length inp"
  have "length (expand [] ts @ ls) = length (take (lz_ip st) inp)" using i by (simp only: comp_inv_def)
  moreover have "lz_ip st \<le> length inp" using i n unfolding comp_inv_def by linarith
  ultimately show ?thesis by simp
qed

lemma comp_literal_inv:
  assumes inv: "comp_inv level inp n m st ts ls" and n: "n \<le> length inp" and m: "out_bound n \<le> m" and ip: "lz_ip st < n"
  shows "\<exists>st' ts' ls'. comp_literal inp st = Inr st' \<and> comp_inv level inp n m st' ts' ls' \<and>
    lz_ip st' = Suc (lz_ip st) \<and> lz_htab st' = lz_htab st"
proof -
  let ?b = "inp ! lz_ip st" and ?op = "lz_op st" and ?sb = "stream_bytes level ts"
  let ?out = "(lz_out st)[?op := ?b]"
  have i: "tokens_ok level 0 ts" "length ls < 32" "lz_copy st = length ls" "expand [] ts @ ls = take (lz_ip st) inp"
    "?op = length ?sb + 1 + length ls" "length (lz_out st) = m" "take ?op (lz_out st) = ?sb @ 31 # ls"
    "32 * length ?sb \<le> 33 * length (expand [] ts)" "ts \<noteq> [] \<longrightarrow> (\<exists>bs. hd ts = Lit bs)"
    using inv unfolding comp_inv_def by blast+
  have len: "length (expand [] ts) + length ls = lz_ip st" by (rule comp_inv_length [OF inv n])
  have r: "rd inp (lz_ip st) = Inr ?b" using ip n by (intro rd_Inr) simp
  have room: "?op + 1 \<le> m" using bound_room [OF i(8), of "Suc (length ls)" n] len ip m i(5) by simp
  have out: "length ?out = m" "take (Suc ?op) ?out = ?sb @ 31 # ls @ [?b]"
    using take_puts_end [of ?op "lz_out st" ?b] room i(6,7) by simp_all
  have bytes: "expand [] ts @ ls @ [?b] = take (Suc (lz_ip st)) inp" using i(4) ip n by (simp add: take_Suc_conv_app_nth)
  show ?thesis
  proof (cases "length ls = 31")
    case False
    let ?st = "st\<lparr>lz_ip := Suc (lz_ip st), lz_op := Suc ?op, lz_copy := Suc (lz_copy st), lz_out := ?out\<rparr>"
    have "comp_literal inp st = Inr ?st"
      using r room i(3,6) False by (simp add: comp_literal_def splice_1)
    moreover have "comp_inv level inp n m ?st ts (ls @ [?b])"
      using i out bytes ip False by (simp add: comp_inv_def)
    ultimately show ?thesis by (intro exI [of _ ?st]) auto
  next
    case True
    let ?ts = "ts @ [Lit (ls @ [?b])]"
    have sb: "stream_bytes level ?ts = ?sb @ 31 # ls @ [?b]" using True by simp
    have ex: "expand [] ?ts = take (Suc (lz_ip st)) inp" using bytes by simp
    have exl: "length (expand [] ?ts) = length (expand [] ts) + 32" using True by simp
    have size: "32 * length (stream_bytes level ?ts) \<le> 33 * length (expand [] ?ts)" unfolding sb exl using i(8) True by simp
    have room2: "?op + 2 \<le> m"
      using bound_room [OF size, of 0 n] exl len ip m i(5) sb True by simp
    let ?out2 = "?out[Suc ?op := 31]"
    let ?st = "st\<lparr>lz_ip := Suc (lz_ip st), lz_op := Suc (Suc ?op), lz_copy := 0, lz_out := ?out2\<rparr>"
    have out2: "length ?out2 = m" "take (Suc (Suc ?op)) ?out2 = ?sb @ 31 # ls @ [?b, 31]"
      using take_puts_end [of "Suc ?op" ?out 31] room2 out by simp_all
    have "comp_literal inp st = Inr ?st"
      using r room room2 i(3,6) True by (simp add: comp_literal_def splice_1)
    moreover have "comp_inv level inp n m ?st ?ts []"
      using i out2 ex size ip True sb by (simp add: comp_inv_def tokens_ok_append hd_append)
    ultimately show ?thesis by (intro exI [of _ ?st]) auto
  qed
qed


text \<open>The literals become a token of their own, or their place is given up.\<close>

definition closed :: "token list \<Rightarrow> byte list \<Rightarrow> token list" where
  "closed ts ls = ts @ (if ls = [] then [] else [Lit ls])"

lemma closed_simps:
  "expand [] (closed ts ls) = expand [] ts @ ls"
  "length (stream_bytes level (closed ts ls)) = length (stream_bytes level ts) + (if ls = [] then 0 else 1 + length ls)"
  "tokens_ok level 0 (closed ts ls) \<longleftrightarrow> tokens_ok level 0 ts \<and> (ls = [] \<or> length ls \<le> MAX_COPY)"
  by (auto simp: closed_def tokens_ok_append)

lemma closed_first:
  assumes "comp_inv level inp n m st ts ls"
  shows "\<exists>bs us. closed ts ls = Lit bs # us"
proof (cases ts)
  case Nil
  then have "ls \<noteq> []" using assms unfolding comp_inv_def by blast
  then show ?thesis using Nil by (simp add: closed_def)
next
  case (Cons t us)
  then obtain bs where "t = Lit bs" using assms unfolding comp_inv_def by auto
  then show ?thesis using Cons by (simp add: closed_def)
qed

lemma close_literals_inv:
  assumes inv: "comp_inv level inp n m st ts ls" and n: "n \<le> length inp" and m: "out_bound n \<le> m"
  shows "\<exists>out. close_literals (lz_copy st) (lz_op st) (lz_out st) = Inr (length (stream_bytes level (closed ts ls)), out) \<and>
    length out = m \<and> take (length (stream_bytes level (closed ts ls))) out = stream_bytes level (closed ts ls)"
proof -
  let ?sb = "stream_bytes level ts" and ?out = "lz_out st"
  have i: "length ls < 32" "lz_copy st = length ls" "lz_op st = length ?sb + 1 + length ls" "length ?out = m"
    "take (lz_op st) ?out = ?sb @ 31 # ls" "32 * length ?sb \<le> 33 * length (expand [] ts)" "lz_ip st \<le> n"
    using inv unfolding comp_inv_def by blast+
  have len: "length (expand [] ts) + length ls = lz_ip st" by (rule comp_inv_length [OF inv n])
  have room: "length ?sb + 1 + length ls \<le> m" using bound_room [OF i(6), of "length ls" n] len i(7) m by simp
  show ?thesis
  proof (cases "ls = []")
    case True
    have "take (length ?sb) (take (lz_op st) ?out) = ?sb" unfolding i(5) by simp
    then have "take (length ?sb) ?out = ?sb" using i(3) by simp
    then show ?thesis using True i(2-4) by (simp add: close_literals_def closed_def)
  next
    case False
    let ?c = "of_nat (length ls - 1) :: byte"
    have pos: "lz_op st - length ls - 1 = length ?sb" using i(3) by simp
    have "take (lz_op st) (?out[length ?sb := ?c]) = (?sb @ 31 # ls)[length ?sb := ?c]"
      unfolding i(5) [symmetric] by (rule take_update_swap)
    then have "take (length ?sb + 1 + length ls) (?out[length ?sb := ?c]) = ?sb @ ?c # ls"
      unfolding i(3) by (simp only: list_update_length)
    moreover have "length (stream_bytes level (closed ts ls)) = lz_op st" using False i(3) by (simp add: closed_simps)
    moreover have "close_literals (lz_copy st) (lz_op st) ?out = Inr (lz_op st, ?out[length ?sb := ?c])"
      using False i(2,4) pos room by (simp add: close_literals_def splice_1)
    ultimately show ?thesis using False i(3,4) by (intro exI [of _ "?out[length ?sb := ?c]"]) (simp add: closed_def)
  qed
qed

lemma comp_inv_empty:
  assumes "tokens_ok level 0 ts" and "expand [] ts = take ip inp" and "ip \<le> n" and "op = length (stream_bytes level ts) + 1"
    and "length out = m" and "take op out = stream_bytes level ts @ [31]"
    and "32 * length (stream_bytes level ts) \<le> 33 * length (expand [] ts)" and "ts = Lit bs # us"
  shows "comp_inv level inp n m \<lparr>lz_ip = ip, lz_op = op, lz_copy = 0, lz_htab = ht, lz_out = out\<rparr> ts []"
proof -
  have "ts \<noteq> []" "hd ts = Lit bs" using assms(8) by simp_all
  then show ?thesis using assms(1-7) unfolding comp_inv_def by simp
qed

lemma match_size:
  fixes s :: nat
  assumes "32 * s \<le> 33 * i" and "i + q = p" and "c \<le> e - 2 - p" and "p + len < e" and "3 \<le> len"
  shows "32 * (s + (if b then 0 else 1 + q) + c) \<le> 33 * (e - 1)"
proof -
  have "p + 3 < e" using assms(4,5) by simp
  then show ?thesis using assms(1-3) by auto
qed

lemma comp_match_inv:
  assumes inv: "comp_inv level inp n m st ts ls" and l: "level = 1 \<or> level = 2"
    and n: "n \<le> length inp" "level = 2 \<Longrightarrow> n < length inp" "n < 2 ^ 31" and m: "out_bound n \<le> m"
    and ip: "lz_ip st + 13 \<le> n" and h: "\<forall>k. lz_htab st k \<le> lz_ip st"
    and mt: "is_match level inp (lz_ip st) (d, ref, len)"
  shows "\<exists>st' ts'. comp_match level inp (n - 2) (d, ref, len) st = Inr st' \<and> comp_inv level inp n m st' ts' [] \<and>
    (\<forall>k. lz_htab st' k < lz_ip st')"
proof -
  let ?p = "lz_ip st"
  obtain e where e: "(if d - 1 = 0 then bindE (rd inp (?p + len - 1)) (\<lambda>x. run_end inp x ref (?p + len) (n - 2))
      else match_end 8 inp ref (?p + len) (n - 2)) = Inr e" "?p + len < e" "e \<le> n" "level = 1 \<longrightarrow> e < n"
    "\<forall>j. ?p \<le> j \<and> Suc j < e \<longrightarrow> inp ! j = inp ! (j - d)"
    using match_extent [OF mt l ip n(1)] by blast
  have len3: "3 \<le> len" and d: "1 \<le> d" "d \<le> ?p" using mt l by (auto simp: is_match_def split: if_splits)
  have e31: "e < 2 ^ 31" using e(3) n(3) by linarith
  note mts = match_tokens_spec [OF mt l e(2) e31]
  let ?cs = "closed ts ls" and ?ms = "match_tokens level (e - 3 - ?p) (d - 1)" and ?codes = "match_codes level (e - 3 - ?p) (d - 1)"
  let ?ts = "?cs @ ?ms" and ?E = "length (stream_bytes level (closed ts ls))"
  obtain out where out: "close_literals (lz_copy st) (lz_op st) (lz_out st) = Inr (?E, out)" "length out = m"
    "take ?E out = stream_bytes level ?cs" using close_literals_inv [OF inv n(1) m] by blast
  have i: "length ls < 32" "tokens_ok level 0 ts" "expand [] ts @ ls = take ?p inp"
    "32 * length (stream_bytes level ts) \<le> 33 * length (expand [] ts)"
    using inv unfolding comp_inv_def by blast+
  have L: "length (expand [] ts) + length ls = ?p" by (rule comp_inv_length [OF inv n(1)])
  \<comment> \<open>the new tokens\<close>
  have sb: "stream_bytes level ?ts = stream_bytes level ?cs @ ?codes" using mts(1) by simp
  have "copy_back (d - 1) (e - 1 - ?p) (take ?p inp) = take (?p + (e - 1 - ?p)) inp"
  proof (rule copy_back_input)
    show "d - 1 < ?p" "?p + (e - 1 - ?p) \<le> length inp" using d e(2,3) n(1) by simp_all
    have "inp ! j = inp ! (j - Suc (d - 1))" if "?p \<le> j" "j < ?p + (e - 1 - ?p)" for j
    proof -
      have "Suc j < e" "Suc (d - 1) = d" using that d(1) by simp_all
      then show ?thesis using e(5) that(1) by simp
    qed
    then show "\<forall>j. ?p \<le> j \<and> j < ?p + (e - 1 - ?p) \<longrightarrow> inp ! j = inp ! (j - Suc (d - 1))" by blast
  qed
  then have ex: "expand [] ?ts = take (e - 1) inp" using e(2) i(3) mts(4) by (simp add: closed_simps)
  have exl: "length (expand [] ?ts) = e - 1" unfolding ex using e(3) n(1) by simp
  have "sum_list (map token_length ?cs) = ?p"
    using length_expand [of "[]" ?cs] L by (simp add: closed_simps)
  then have ok: "tokens_ok level 0 ?ts" using i(1,2) mts(3) by (simp add: tokens_ok_append [of _ _ "closed ts ls"] closed_simps)
  have size: "32 * length (stream_bytes level ?ts) \<le> 33 * length (expand [] ?ts)"
    using match_size [OF i(4) L mts(2) e(2) len3, of "ls = []"] unfolding sb exl length_append closed_simps .
  have "e - 1 + 0 \<le> n" using e(3) by simp
  from bound_room [OF size [unfolded exl] this] have room: "?E + length ?codes + 1 \<le> m"
    using m unfolding sb by simp
  \<comment> \<open>the run of the code\<close>
  let ?ip = "e - 3" and ?op = "?E + length ?codes"
  have eq2: "?ip + 1 + 1 = e - 1" using e(2) len3 by simp
  have "e < length inp" using e(3,4) n l by (cases "level = 1") auto
  then have "?ip + 2 < length inp" "?ip + 1 + 2 < length inp" using e(2) len3 by auto
  then obtain h1 h2 where hash: "HASH_FUNCTION inp ?ip = Inr h1" "HASH_FUNCTION inp (?ip + 1) = Inr h2"
    using hash_Inr [of ?ip inp] hash_Inr [of "?ip + 1" inp] by blast
  let ?o1 = "splice ?E ?codes out" and ?ht = "(lz_htab st)(h1 := ?ip, h2 := ?ip + 1)"
  let ?o2 = "splice ?op [31] ?o1"
  have l1: "length ?o1 = m" using room out(2) by simp
  have l2: "length ?o2 = m" using room l1 by simp
  have p1: "puts ?E ?codes out = Inr ?o1" "puts ?op [of_nat (MAX_COPY - 1)] ?o1 = Inr ?o2"
    using room out(2) l1 by simp_all
  let ?st = "\<lparr>lz_ip = e - 1, lz_op = ?op + 1, lz_copy = 0, lz_htab = ?ht, lz_out = ?o2\<rparr>"
  have run: "comp_match level inp (n - 2) (d, ref, len) st = Inr ?st"
    unfolding comp_match_def Let_def match_codes_def [symmetric]
    by (simp only: prod.case e(1) bindE_Inr out(1) p1 hash eq2)
  have "?E \<le> length out" using room out(2) by simp
  from take_splice_upto [OF this, of ?codes] have "take ?op ?o1 = stream_bytes level ?ts" unfolding sb out(3) .
  moreover have "take (?op + length [31 :: byte]) ?o2 = take ?op ?o1 @ [31]" using l1 room by (intro take_splice_upto) simp
  ultimately have o: "take (?op + 1) ?o2 = stream_bytes level ?ts @ [31]" by simp
  obtain bs us where first: "?cs = Lit bs # us" using closed_first [OF inv] by blast
  have "?op + 1 = length (stream_bytes level ?ts) + 1" "?ts = Lit bs # us @ ?ms" "e - 1 \<le> n"
    using sb first e(3) by simp_all
  then have "comp_inv level inp n m ?st ?ts []"
    using ok ex l2 o size by (intro comp_inv_empty)
  moreover have old: "lz_htab st k < e - 1" for k using h [rule_format, of k] e(2) len3 by simp
  have "e - 3 < e - 1" "e - 3 + 1 < e - 1" using e(2) len3 by auto
  then have "\<forall>k. lz_htab ?st k < lz_ip ?st" using old by simp
  ultimately show ?thesis using run by blast
qed


section \<open>The loops\<close>

lemma comp_step_inv:
  assumes inv: "comp_inv level inp n m st ts ls" and l: "level = 1 \<or> level = 2"
    and n: "n \<le> length inp" "level = 2 \<Longrightarrow> n < length inp" "n < 2 ^ 31" and m: "out_bound n \<le> m"
    and ip: "1 \<le> lz_ip st" "lz_ip st + 13 \<le> n" and h: "\<forall>k. lz_htab st k < lz_ip st"
  shows "\<exists>st' ts' ls'. comp_step level inp (n - 2) st = Inr st' \<and> comp_inv level inp n m st' ts' ls' \<and>
    (\<forall>k. lz_htab st' k < lz_ip st')"
proof -
  have "lz_ip st + 12 < length inp" using ip(2) n(1) by simp
  from find_match_spec [OF l ip(1) this h] obtain mt htab where mt: "find_match level inp (lz_ip st) (lz_htab st) = Inr (mt, htab)"
    "\<forall>k. htab k \<le> lz_ip st" "\<forall>x. mt = Some x \<longrightarrow> is_match level inp (lz_ip st) x" by blast
  let ?st = "st\<lparr>lz_htab := htab\<rparr>"
  have inv1: "comp_inv level inp n m ?st ts ls" using inv by (simp only: comp_inv_htab)
  show ?thesis
  proof (cases mt)
    case None
    have "lz_ip ?st < n" using ip by simp
    from comp_literal_inv [OF inv1 n(1) m this] obtain st' ts' ls' where s: "comp_literal inp ?st = Inr st'"
      "comp_inv level inp n m st' ts' ls'" "lz_ip st' = Suc (lz_ip st)" "lz_htab st' = htab" by auto
    have "\<forall>k. lz_htab st' k < lz_ip st'" using mt(2) s(3,4) by (simp add: less_Suc_eq_le)
    then show ?thesis using s(1,2) mt(1) None by (auto simp: comp_step_def)
  next
    case (Some x)
    obtain d ref len where x: "x = (d, ref, len)" by (cases x) auto
    have "is_match level inp (lz_ip ?st) (d, ref, len)" using mt(3) Some x by simp
    from comp_match_inv [OF inv1 l n m _ _ this] obtain st' ts' where
      s: "comp_match level inp (n - 2) (d, ref, len) ?st = Inr st'" "comp_inv level inp n m st' ts' []"
      "\<forall>k. lz_htab st' k < lz_ip st'" using ip(2) mt(2) by auto
    then show ?thesis using mt(1) Some x by (auto simp: comp_step_def)
  qed
qed

lemma comp_loop_inv:
  assumes "comp_inv level inp n m st ts ls" and l: "level = 1 \<or> level = 2"
    and n: "n \<le> length inp" "level = 2 \<Longrightarrow> n < length inp" "n < 2 ^ 31" and m: "out_bound n \<le> m"
    and "1 \<le> lz_ip st" and "\<forall>k. lz_htab st k < lz_ip st"
  shows "\<exists>st' ts' ls'. comp_loop level inp (int n - 12) (n - 2) st = Inr st' \<and> comp_inv level inp n m st' ts' ls'"
  using assms(1,7,8)
proof (induction "n - lz_ip st" arbitrary: st ts ls rule: less_induct)
  case less
  show ?case
  proof (cases "lz_ip st + 13 \<le> n")
    case True
    obtain st' ts' ls' where s: "comp_step level inp (n - 2) st = Inr st'" "comp_inv level inp n m st' ts' ls'"
      "\<forall>k. lz_htab st' k < lz_ip st'" using comp_step_inv [OF less.prems(1) l n m less.prems(2) True less.prems(3)] by blast
    have p: "lz_ip st < lz_ip st'" by (rule comp_step_progress [OF s(1)])
    then have "n - lz_ip st' < n - lz_ip st" "1 \<le> lz_ip st'" using True by simp_all
    from less.hyps [OF this(1) s(2) this(2) s(3)] show ?thesis
      using s(1) True by (simp add: comp_loop.simps [of level inp _ _ st])
  next
    case False
    then have "comp_loop level inp (int n - 12) (n - 2) st = Inr st" by (simp add: comp_loop.simps [of level inp _ _ st])
    then show ?thesis using less.prems(1) by blast
  qed
qed

lemma rest_loop_inv:
  assumes "comp_inv level inp n m st ts ls" and n: "n \<le> length inp" and m: "out_bound n \<le> m"
  shows "\<exists>st' ts' ls'. rest_loop inp n st = Inr st' \<and> comp_inv level inp n m st' ts' ls' \<and> lz_ip st' = n"
  using assms(1)
proof (induction "n - lz_ip st" arbitrary: st ts ls)
  case 0
  then have "\<not> lz_ip st < n" "lz_ip st = n" unfolding comp_inv_def by linarith+
  then have "rest_loop inp n st = Inr st" by (simp add: rest_loop.simps [of inp n st])
  then show ?case using 0 \<open>lz_ip st = n\<close> by blast
next
  case (Suc k)
  then have lt: "lz_ip st < n" by simp
  obtain st' ts' ls' where s: "comp_literal inp st = Inr st'" "comp_inv level inp n m st' ts' ls'" "lz_ip st' = Suc (lz_ip st)"
    using comp_literal_inv [OF Suc.prems n m lt] by blast
  have "k = n - lz_ip st'" using Suc.hyps(2) s(3) by simp
  from Suc.hyps(1) [OF this s(2)] show ?case using s(1) lt by (simp add: rest_loop.simps [of inp n st])
qed

section \<open>The whole function\<close>

text \<open>What the compressor returns: a marked stream that stands for the input.\<close>

definition compressed :: "nat \<Rightarrow> byte list \<Rightarrow> nat \<Rightarrow> int \<Rightarrow> byte list \<Rightarrow> bool" where
  "compressed level inp n r out \<longleftrightarrow> (\<exists>lv bs ts. (lv = 1 \<or> lv = level) \<and> tokens_ok lv 0 (Lit bs # ts) \<and>
     expand [] (Lit bs # ts) = take n inp \<and> r = int (length (stream_bytes lv (Lit bs # ts))) \<and>
     take (nat r) out = first_byte lv (length bs - 1) # tl (stream_bytes lv (Lit bs # ts)) \<and> r \<le> int (out_bound n))"

lemma comp_start_inv:
  assumes n: "4 \<le> n" "n \<le> length inp" and m: "out_bound n \<le> length out"
  shows "\<exists>st. comp_start inp out = Inr st \<and> comp_inv level inp n (length out) st [] (take 2 inp) \<and> lz_ip st = 2 \<and>
    lz_htab st = (\<lambda>_. 0)"
proof -
  have len: "3 \<le> length out" "2 \<le> length inp" using n m by simp_all
  obtain o1 o2 o3 os where o: "out = o1 # o2 # o3 # os" using len(1) by (auto simp: numeral_3_eq_3 Suc_le_length_iff)
  obtain a b r where i: "inp = a # b # r" using len(2) by (auto simp: numeral_2_eq_2 Suc_le_length_iff)
  let ?st = "\<lparr>lz_ip = 2, lz_op = 3, lz_copy = 2, lz_htab = \<lambda>_. 0, lz_out = 31 # a # b # os\<rparr>"
  have "comp_start inp out = Inr ?st"
    unfolding o i by (simp add: comp_start_def puts_def splice_def numeral_2_eq_2)
  moreover have "comp_inv level inp n (length out) ?st [] (take 2 inp)"
    using n(1) unfolding o i by (simp add: comp_inv_def)
  ultimately show ?thesis by (intro exI [of _ ?st]) simp
qed


lemma compressor_short:
  assumes n: "1 \<le> n" "n < 4" "n \<le> length inp" and m: "out_bound n \<le> length out"
  shows "\<exists>r out'. FASTLZ_COMPRESSOR level inp (int n) out = Inr (r, out') \<and> compressed level inp n r out'"
proof -
  let ?bs = "take n inp" and ?o = "splice 0 [of_nat (n - 1)] out"
  have len: "length ?bs = n" using n(3) by simp
  have o: "length ?o = length out" using m by simp
  have "inp = ?bs @ drop n inp" by simp
  then have "copy_lit n inp 0 1 ?o = Inr (1 + n, splice 1 ?bs ?o)"
    using copy_lit_puts [of 0 inp ?bs "drop n inp" 1 ?o] len m o by simp
  moreover have "(of_int (int n - 1) :: byte) = of_nat (n - 1)" using n(1) by (simp add: of_nat_diff)
  ultimately have run: "FASTLZ_COMPRESSOR level inp (int n) out = Inr (int n + 1, splice 1 ?bs ?o)"
    using n m by (simp add: FASTLZ_COMPRESSOR_def)
  have "take (1 + length ?bs) (splice 1 ?bs ?o) = take 1 ?o @ ?bs" using o m by (intro take_splice_upto) simp
  moreover have "take 1 ?o = [of_nat (n - 1)]" by (simp add: splice_def)
  ultimately have t: "take (nat (int n + 1)) (splice 1 ?bs ?o) = first_byte 1 (length ?bs - 1) # tl (stream_bytes 1 (Lit ?bs # []))"
    using len by (simp add: first_byte_def nat_add_distrib)
  have "tokens_ok 1 0 (Lit ?bs # [])" "expand [] (Lit ?bs # []) = take n inp" using n len by auto
  moreover have "int n + 1 = int (length (stream_bytes 1 (Lit ?bs # [])))" "int n + 1 \<le> int (out_bound n)" using len by simp_all
  ultimately have "compressed level inp n (int n + 1) (splice 1 ?bs ?o)" unfolding compressed_def using t by blast
  then show ?thesis using run by blast
qed

lemma compressor_long:
  assumes l: "level = 1 \<or> level = 2" and n: "4 \<le> n" "n \<le> length inp" "level = 2 \<Longrightarrow> n < length inp" "n < 2 ^ 31"
    and m: "out_bound n \<le> length out"
  shows "\<exists>r out'. FASTLZ_COMPRESSOR level inp (int n) out = Inr (r, out') \<and> compressed level inp n r out'"
proof -
  obtain st0 where st0: "comp_start inp out = Inr st0" "comp_inv level inp n (length out) st0 [] (take 2 inp)"
    "lz_ip st0 = 2" "lz_htab st0 = (\<lambda>_. 0)" using comp_start_inv [OF n(1,2) m] by blast
  have "1 \<le> lz_ip st0" "\<forall>k. lz_htab st0 k < lz_ip st0" using st0(3,4) by simp_all
  from comp_loop_inv [OF st0(2) l n(2,3,4) m this] obtain st1 ts1 ls1 where
    st1: "comp_loop level inp (int n - 12) (n - 2) st0 = Inr st1" "comp_inv level inp n (length out) st1 ts1 ls1" by blast
  from rest_loop_inv [OF st1(2) n(2) m] obtain st ts ls where
    st: "rest_loop inp n st1 = Inr st" "comp_inv level inp n (length out) st ts ls" "lz_ip st = n" by blast
  let ?cs = "closed ts ls" and ?E = "length (stream_bytes level (closed ts ls))"
  obtain ob where o: "close_literals (lz_copy st) (lz_op st) (lz_out st) = Inr (?E, ob)" "length ob = length out"
    "take ?E ob = stream_bytes level ?cs" using close_literals_inv [OF st(2) n(2) m] by blast
  have i: "tokens_ok level 0 ts" "length ls < 32" "expand [] ts @ ls = take n inp"
    "32 * length (stream_bytes level ts) \<le> 33 * length (expand [] ts)"
    using st(2,3) unfolding comp_inv_def by auto
  have L: "length (expand [] ts) + length ls = n" using comp_inv_length [OF st(2) n(2)] st(3) by simp
  have E: "?E \<le> out_bound n" using bound_room [OF i(4), of "length ls" n] L by (simp add: closed_simps)
  obtain bs us where first: "?cs = Lit bs # us" using closed_first [OF st(2)] by blast
  have ok: "tokens_ok level 0 (Lit bs # us)" "expand [] (Lit bs # us) = take n inp"
    using i(1-3) unfolding first [symmetric] by (simp_all only: closed_simps) auto
  have sb: "stream_bytes level ?cs = of_nat (length bs - 1) # tl (stream_bytes level ?cs)" unfolding first by simp
  then have pos: "0 < ?E" by (metis length_greater_0_conv list.distinct(1))
  then have o0: "0 < length ob" using o(2) E m by linarith
  have hd: "ob ! 0 = of_nat (length bs - 1)"
    using o(3) sb pos by (metis nth_Cons_0 nth_take)
  let ?o = "if level = 2 then ob[0 := ob ! 0 OR 32] else ob"
  have mark: "(if level = 2 then bindE (rd ob 0) (\<lambda>b. puts 0 [b OR 32] ob) else Inr ob) = Inr ?o"
    using o0 by (simp add: splice_1 puts_def Suc_le_eq)
  have "\<not> int n < 4" "nat (int n) = n" using n(1) by simp_all
  then have run: "FASTLZ_COMPRESSOR level inp (int n) out = Inr (int ?E, ?o)"
    unfolding FASTLZ_COMPRESSOR_def comp_finish_def by (simp only: if_False st0(1) bindE_Inr st1(1) st(1) o(1) prod.case mark)
  have "take ?E ?o = first_byte level (length bs - 1) # tl (stream_bytes level ?cs)"
  proof (cases "level = 2")
    case True
    have "take ?E (ob[0 := ob ! 0 OR 32]) = (stream_bytes level ?cs)[0 := ob ! 0 OR 32]"
      unfolding take_update_swap o(3) ..
    also have "\<dots> = (ob ! 0 OR 32) # tl (stream_bytes level ?cs)" by (subst sb) simp
    finally show ?thesis using True unfolding hd by (simp add: first_byte_def)
  next
    case False
    then show ?thesis using o(3) sb by (simp add: first_byte_def)
  qed
  then have "take (nat (int ?E)) ?o = first_byte level (length bs - 1) # tl (stream_bytes level (Lit bs # us))"
    unfolding nat_int first .
  moreover have "int ?E = int (length (stream_bytes level (Lit bs # us)))" unfolding first ..
  moreover have "int ?E \<le> int (out_bound n)" using E by linarith
  ultimately have "compressed level inp n (int ?E) ?o" unfolding compressed_def using ok by blast
  then show ?thesis using run by blast
qed

text \<open>The input memory the compressor needs: level 2 may look at one byte behind the input.\<close>

definition readable :: "nat \<Rightarrow> nat \<Rightarrow> byte list \<Rightarrow> bool" where
  "readable level n inp \<longleftrightarrow> (level = 1 \<and> n \<le> length inp \<or> level = 2 \<and> n < length inp) \<and> 1 \<le> n \<and> n < 2 ^ 31"

lemma compressor_outcome:
  assumes r: "readable level n inp" and m: "out_bound n \<le> length out"
  shows "\<exists>r out'. FASTLZ_COMPRESSOR level inp (int n) out = Inr (r, out') \<and> compressed level inp n r out'"
proof (cases "n < 4")
  case True
  then show ?thesis using compressor_short [OF _ True _ m] r by (auto simp: readable_def)
next
  case False
  have l: "level = 1 \<or> level = 2" "4 \<le> n" "n \<le> length inp" "level = 2 \<Longrightarrow> n < length inp" "n < 2 ^ 31"
    using r False by (auto simp: readable_def)
  show ?thesis by (rule compressor_long [OF l m])
qed

lemma decompress_compressed:
  assumes c: "compressed level inp n r out" and l: "level = 1 \<or> level = 2" and n: "n \<le> length inp" "n \<le> length dst"
    and mx: "int n \<le> maxout" and len: "nat r \<le> length out"
  shows "\<exists>dst'. fastlz_decompress (take (nat r) out) r dst maxout = Inr (int n, dst') \<and> dst' = take n inp @ drop n dst"
proof -
  obtain lv bs ts where c: "lv = 1 \<or> lv = level" "tokens_ok lv 0 (Lit bs # ts)" "expand [] (Lit bs # ts) = take n inp"
    "r = int (length (stream_bytes lv (Lit bs # ts)))"
    "take (nat r) out = first_byte lv (length bs - 1) # tl (stream_bytes lv (Lit bs # ts))"
    using c unfolding compressed_def by blast
  have lv: "lv = 1 \<or> lv = 2" using c(1) l by auto
  have e: "length (expand [] (Lit bs # ts)) = n" unfolding c(3) using n(1) by simp
  have rl: "r = int (length (take (nat r) out))" using len c(4) by simp
  have tl: "length (take n inp) = n" using n(1) by simp
  obtain dst' where d: "fastlz_decompress (take (nat r) out) (int (length (take (nat r) out))) dst maxout = Inr (int n, dst')"
    "take n dst' = take n inp" "drop n dst' = drop n dst"
    using fastlz_decompress_tokens [OF lv c(2,5), of dst maxout] n(2) mx unfolding c(3) tl by blast
  have "dst' = take n dst' @ drop n dst'" by simp
  then show ?thesis using d rl by metis
qed


section \<open>Properties\<close>

lemma compressed_length: "compressed level inp n r out \<Longrightarrow> 0 < r \<and> r \<le> int (out_bound n) \<and> nat r \<le> length out"
proof -
  assume "compressed level inp n r out"
  then obtain lv bs ts where r: "r = int (length (stream_bytes lv (Lit bs # ts)))" "r \<le> int (out_bound n)"
    and t: "take (nat r) out = first_byte lv (length bs - 1) # tl (stream_bytes lv (Lit bs # ts))"
    unfolding compressed_def by blast
  have "length (take (nat r) out) = nat r" unfolding t using r(1) by simp
  moreover have "0 < r" using r(1) by simp
  ultimately show ?thesis using r(2) by simp
qed

text \<open>Both directions together, for one compressor; the entry points only choose the level.\<close>

lemma compressor_roundtrip:
  assumes r: "readable level n inp" and m: "out_bound n \<le> length out"
    and d: "n \<le> length dst" "int n \<le> maxout"
  shows "\<exists>r out'. FASTLZ_COMPRESSOR level inp (int n) out = Inr (r, out') \<and> r \<le> int (out_bound n) \<and>
    fastlz_decompress (take (nat r) out') r dst maxout = Inr (int n, take n inp @ drop n dst)"
proof -
  obtain r out' where c: "FASTLZ_COMPRESSOR level inp (int n) out = Inr (r, out')" "compressed level inp n r out'"
    using compressor_outcome [OF assms(1,2)] by blast
  note cl = compressed_length [OF c(2)]
  have "level = 1 \<or> level = 2" "n \<le> length inp" using r by (auto simp: readable_def)
  then show ?thesis using decompress_compressed [OF c(2) _ _ d] c(1) cl by blast
qed


definition sample_text :: "byte list" where
  "sample_text = [97, 98, 99, 97, 98, 99, 97, 98, 99, 97, 98, 99, 97, 98, 99, 120, 121, 122, 97, 98, 99, 97, 98, 99]"




end
