(* ===== verification/Server.thy ===== *)
theory Server
  imports Client
begin

text \<open>
  The receiving side: \<open>server.c\<close>. A peer sends a frame, the length of a message in eight bytes and
  the message; the server collects it over as many read events as it takes, hands it to
  \<open>do_work\<close> and closes the connection.

  The file is not in the build and is older than \<open>event.h\<close>: its \<open>ev->stream\<close> is read as the
  stream of the connection of the slot, \<open>ev->jc->stream\<close>, which is where \<open>close_stream\<close> of
  \<open>event.c\<close> looks for it, \<open>set_event_in_out\<close> as \<open>set_stream_event_in_out\<close>, and
  \<open>stream_create\<close> is that of \<open>stream.c\<close>, which does not use its second argument. The
  function \<open>do_work\<close> is declared \<open>extern\<close> and is nowhere in the repository: it is a parameter that maps
  the bytes it is called with and the state \<open>world\<close> of its own to the new state; it does not touch
  the state of the server. \<open>accept_conn\<close> calls \<open>evget\<close> and \<open>eventset\<close> with the arguments they had in
  the older \<open>event.h\<close>, which the repository does not have: they are parameters too, \<open>get_slot\<close> and
  \<open>set_slot\<close>. The outcomes of \<open>accept\<close>, and of \<open>fcntl\<close> for the new descriptor, are a script.
\<close>

section \<open>State\<close>

text \<open>What \<open>accept\<close> returns, and \<open>fcntl\<close> for the new descriptor.\<close>

record accept_outcome =
  ac_fd :: int
  ac_setfl :: int

record 'w server_state = comm_state +
  accept_env :: "accept_outcome list"
  g_qps :: "64 word"
  world :: 'w

abbreviation (input) LOG_MAX_LEN :: size_t where "LOG_MAX_LEN \<equiv> 1024 * 32"

section \<open>Operations\<close>

text \<open>Two functions that nothing calls.\<close>

definition event_set_timeout ::
  "nat option \<Rightarrow> int \<Rightarrow> timeout_handler \<Rightarrow> 'z event_state_scheme \<Rightarrow> (int \<times> 'z event_state_scheme) res" where
  "event_set_timeout ev timeout handler s = (case ev of
      None \<Rightarrow> Inl Invalid_access
    | Some i \<Rightarrow> bindE (get_ev i s) (\<lambda>e. Inr (0, set_ev i (e\<lparr>thandler := handler\<rparr>) s)))"

definition timeout_callback :: "int \<Rightarrow> 'a \<Rightarrow> 's \<Rightarrow> 's" where
  "timeout_callback fd data s = s"

text \<open>The eight bytes that a \<open>uint64_t\<close> pointer reads.\<close>

primrec load64 :: "byte list \<Rightarrow> 64 word" where
  "load64 [] = 0"
| "load64 (b # bs) = push_bit 8 (load64 bs) OR ucast b"

text \<open>
  The sums are of a \<open>size_t\<close> and an \<open>int64_t\<close>, so they are unsigned, and the result is
  converted back.
\<close>

definition collect_data :: "loc \<Rightarrow> nat \<Rightarrow> 'z event_state_scheme \<Rightarrow> (int \<times> 'z event_state_scheme) res" where
  "collect_data p ev s =
     (if p = Null then Inr (- 1, s)
      else
        bindE (get_stream p s) (\<lambda>x.
        bindE (buf_data_size (out_buf x) s) (\<lambda>n.
        let x = x\<lparr>data_recved := sint (word_of_int (data_recved x) + n),
                  reply_body_size_left := sint (word_of_int (reply_body_size_left x) - n)\<rparr>;
            s = set_stream p x s in
        bindE (get_buf (out_buf x) s) (\<lambda>B.
        bindE (mem_load (buffer B) 0 (unat n) s) (\<lambda>bs.
        bindE (buf_put (work_buf x) bs n s) (\<lambda>(_, s).
        bindE (clear_space (out_buf x) s) (\<lambda>s.
        if reply_body_size_left x = 0 then
          if data_recved x \<noteq> content_len x then
            bindE (clear_space (out_buf x) s) (\<lambda>s.
            bindE (close_stream (Some ev) s) (\<lambda>s. Inr (- 1, s)))
          else Inr (1, s)
        else Inr (0, s))))))))"

definition alloc_work_buff :: "loc \<Rightarrow> 'z event_state_scheme \<Rightarrow> 'z event_state_scheme res" where
  "alloc_work_buff p s =
     bindE (get_stream p s) (\<lambda>x.
     bindE (buf_new ''work_buf'' ''work_buf_data'' LOG_MAX_LEN s) (\<lambda>(b, s).
     bindE (get_buf b s) (\<lambda>B.
     bindE (mem_store (buffer B) 0 [0] s) (\<lambda>s.
     Inr (set_stream p (x\<lparr>work_buf := b\<rparr>) s)))))"

text \<open>
  The block that follows each of the three calls of \<open>collect_data\<close>; the first result says that
  the handler returns. The parameter \<open>len\<close> of \<open>do_work\<close> is an \<open>int\<close>; the bytes are those it
  may read.
\<close>

definition collect_and_work ::
  "(byte list \<Rightarrow> 'w \<Rightarrow> 'w) \<Rightarrow> loc \<Rightarrow> nat \<Rightarrow> ('w, 'z) server_state_scheme \<Rightarrow> (bool \<times> ('w, 'z) server_state_scheme) res" where
  "collect_and_work do_work p ev s =
     bindE (collect_data p ev s) (\<lambda>(ret, s).
     if ret = 1 then
       bindE (get_stream p s) (\<lambda>x.
       bindE (get_buf (work_buf x) s) (\<lambda>B.
       bindE (mem_load (buffer B) 0 (nat (sint (word_of_int (data_recved x) :: 32 word))) s) (\<lambda>bs.
       bindE (close_stream (Some ev) (s\<lparr>world := do_work bs (world s), g_qps := g_qps s + 1\<rparr>)) (\<lambda>s.
       Inr (True, s)))))
     else Inr (ret = - 1, s))"

text \<open>\<open>if (out_buf->data_len < out_buf->buf_len) out_buf->buffer[out_buf->data_len] = 0;\<close>\<close>

definition end_data :: "loc \<Rightarrow> 'z event_state_scheme \<Rightarrow> 'z event_state_scheme res" where
  "end_data p s =
     bindE (get_stream p s) (\<lambda>x.
     bindE (get_buf (out_buf x) s) (\<lambda>B.
     if data_len B < buf_len B then mem_store (buffer B) (unat (data_len B)) [0] s else Inr s))"

text \<open>The distinction by \<open>reply_body_size_left\<close>; not returning is \<open>goto cont\<close>.\<close>

definition receive_data ::
  "(byte list \<Rightarrow> 'w \<Rightarrow> 'w) \<Rightarrow> loc \<Rightarrow> nat \<Rightarrow> ('w, 'z) server_state_scheme \<Rightarrow> (bool \<times> ('w, 'z) server_state_scheme) res" where
  "receive_data do_work p ev s =
     bindE (get_stream p s) (\<lambda>x.
     if reply_body_size_left x > 0 then collect_and_work do_work p ev s
     else if reply_body_size_left x = 0 then
       bindE (buf_data_size (out_buf x) s) (\<lambda>n.
       if n < 8 then Inr (False, s)
       else
         bindE (get_buf (out_buf x) s) (\<lambda>B.
         bindE (mem_load (buffer B) 0 8 s) (\<lambda>bs.
         let len = load64 bs in
         if len > LOG_MAX_LEN \<or> len = 0 then
           bindE (clear_space (out_buf x) s) (\<lambda>s.
           bindE (close_stream (Some ev) s) (\<lambda>s. Inr (True, s)))
         else
           let s = set_stream p (x\<lparr>reply_body_size_left := sint len, content_len := sint len\<rparr>) s in
           bindE (buf_pick (out_buf x) 8 s) (\<lambda>s.
           bindE (alloc_work_buff p s) (\<lambda>s.
           if sint len > 0 then collect_and_work do_work p ev s else Inr (False, s))))))
     else Inr (False, s))"

text \<open>The part under \<open>if (read_event)\<close>.\<close>

definition server_read ::
  "(byte list \<Rightarrow> 'w \<Rightarrow> 'w) \<Rightarrow> loc \<Rightarrow> nat \<Rightarrow> ('w, 'z) server_state_scheme \<Rightarrow> (bool \<times> ('w, 'z) server_state_scheme) res" where
  "server_read do_work p ev s =
     bindE (get_stream p s) (\<lambda>x.
     bindE (buf_data_size (out_buf x) s) (\<lambda>n.
     bindE (assertE (n = 0)) (\<lambda>_.
     bindE (stream_feed_out p s) (\<lambda>(r, s).
     bindE (if r < 0 then
              bindE (buf_data_size (out_buf x) s) (\<lambda>n.
              if n = 0 then bindE (close_stream (Some ev) s) (\<lambda>s. Inr (True, s))
              else collect_and_work do_work p ev s)
            else Inr (False, s)) (\<lambda>(returned, s).
     if returned then Inr (True, s)
     else bindE (end_data p s) (receive_data do_work p ev))))))"

definition server_data_transfer ::
  "(byte list \<Rightarrow> 'w \<Rightarrow> 'w) \<Rightarrow> int \<Rightarrow> bool \<Rightarrow> bool \<Rightarrow> nat \<Rightarrow> ('w, 'z) server_state_scheme \<Rightarrow>
     ('w, 'z) server_state_scheme res" where
  "server_data_transfer do_work sock read_event write_event ev s =
     bindE (get_ev ev s) (\<lambda>e.
     bindE (get_conn (ev_jc e) s) (\<lambda>c.
     let p = jc_stream c in
     bindE (get_stream p s) (\<lambda>x.
     bindE (assertE (sock = server_sock x)) (\<lambda>_.
     if \<not> read_event \<and> \<not> write_event then close_stream (Some ev) s
     else
       bindE (if write_event then
                bindE (stream_flush_out p (- 1) s) (\<lambda>(r, s).
                if r < 0 then bindE (close_stream (Some ev) s) (\<lambda>s. Inr (True, s)) else Inr (False, s))
              else Inr (False, s)) (\<lambda>(returned, s).
       if returned then Inr s
       else
         bindE (if read_event then server_read do_work p ev s else Inr (False, s)) (\<lambda>(returned, s).
         if returned then Inr s else set_stream_event_in_out ev s))))))"

text \<open>\<open>for (i = 0; i < MAX_EVENTS; i++) if (g_events[i].status == 0) break;\<close>\<close>

function free_slot :: "nat \<Rightarrow> 'z event_state_scheme \<Rightarrow> nat res" where
  "free_slot i s =
     (if i < MAX_EVENTS then
        bindE (get_ev i s) (\<lambda>e. if ev_status e = 0 then Inr i else free_slot (Suc i) s)
      else Inr i)"
  by pat_completeness auto
termination
  by (relation "measure (\<lambda>(i, s). MAX_EVENTS - i)") auto

declare free_slot.simps [simp del]

type_synonym 's old_evget = "'s \<Rightarrow> nat option res"
type_synonym 's old_eventset = "nat option \<Rightarrow> int \<Rightarrow> loc \<Rightarrow> callback \<Rightarrow> nat option \<Rightarrow> 's \<Rightarrow> 's res"

text \<open>
  Both branches of the test of \<open>errno\<close> return. A script that lets \<open>accept\<close> hand out a descriptor
  that is still registered describes no run.
\<close>

definition accept_conn ::
  "('w, 'z) server_state_scheme old_evget \<Rightarrow> ('w, 'z) server_state_scheme old_eventset \<Rightarrow>
     int \<Rightarrow> bool \<Rightarrow> bool \<Rightarrow> nat \<Rightarrow> ('w, 'z) server_state_scheme \<Rightarrow> ('w, 'z) server_state_scheme res" where
  "accept_conn get_slot set_slot lfd read_events write_event arg s = (case accept_env s of
      [] \<Rightarrow> Inl Stuck
    | out # outs \<Rightarrow>
        let s = s\<lparr>accept_env := outs\<rparr>; cfd = ac_fd out in
        if cfd = - 1 then Inr s
        else if cfd < 0 \<or> interest s cfd \<noteq> None then Inl Stuck
        else
          bindE (free_slot 0 s) (\<lambda>i.
          if i = MAX_EVENTS then Inr s
          else if ac_setfl out < 0 then Inr s
          else
            bindE (stream_create cfd s) (\<lambda>(p, s).
            bindE (get_slot s) (\<lambda>ev.
            bindE (set_slot ev cfd p Data_transfer ev s) (\<lambda>s.
            eventadd EPOLLIN ev s)))))"

text \<open>The call \<open>ev->call_back(...)\<close>. The server has no pipe, so nothing else is reported.\<close>

definition server_dispatch ::
  "('w, 'z) server_state_scheme old_evget \<Rightarrow> ('w, 'z) server_state_scheme old_eventset \<Rightarrow>
     (byte list \<Rightarrow> 'w \<Rightarrow> 'w) \<Rightarrow> ready \<Rightarrow> ('w, 'z) server_state_scheme \<Rightarrow> ('w, 'z) server_state_scheme res" where
  "server_dispatch get_slot set_slot do_work r s = (case r of
      Tickled \<Rightarrow> Inl Stuck
    | Ready i read_event write_event \<Rightarrow>
        bindE (get_ev i s) (\<lambda>e. case call_back e of
            Accept_conn \<Rightarrow> accept_conn get_slot set_slot (ev_fd e) read_event write_event (ev_arg e) s
          | Data_transfer \<Rightarrow> server_data_transfer do_work (ev_fd e) read_event write_event (ev_arg e) s
          | _ \<Rightarrow> Inl Invalid_access))"

text \<open>One round of \<open>while(1)\<close>: whether the loop goes on, \<open>checkpos\<close>, \<open>next_time\<close>, the state.\<close>

definition server_round ::
  "('w, 'z) server_state_scheme old_evget \<Rightarrow> ('w, 'z) server_state_scheme old_eventset \<Rightarrow>
     (byte list \<Rightarrow> 'w \<Rightarrow> 'w) \<Rightarrow> poll \<Rightarrow> nat \<times> int \<times> ('w, 'z) server_state_scheme \<Rightarrow>
     (bool \<times> nat \<times> int \<times> ('w, 'z) server_state_scheme) res" where
  "server_round get_slot set_slot do_work w st = (case st of (checkpos, next_time, s) \<Rightarrow>
     let s = s\<lparr>clock := p_clock w\<rparr>; tnow = time_now s;
         (next_time, s) = (if tnow \<ge> next_time then (tnow + 10, s\<lparr>g_qps := 0\<rparr>) else (next_time, s)) in
     bindE (expires_house_keeping checkpos tnow (- 1) s) (\<lambda>(checkpos, s).
     bindE (epoll_wait w s) (\<lambda>nfd. case nfd of
         Error e \<Rightarrow> Inr (e = EINTR, checkpos, next_time, s)
       | Done rs \<Rightarrow>
           bindE (each (server_dispatch get_slot set_slot do_work) rs s) (\<lambda>s. Inr (True, checkpos, next_time, s)))))"

primrec server_rounds ::
  "('w, 'z) server_state_scheme old_evget \<Rightarrow> ('w, 'z) server_state_scheme old_eventset \<Rightarrow>
     (byte list \<Rightarrow> 'w \<Rightarrow> 'w) \<Rightarrow> poll list \<Rightarrow> nat \<times> int \<times> ('w, 'z) server_state_scheme \<Rightarrow>
     (bool \<times> nat \<times> int \<times> ('w, 'z) server_state_scheme) res" where
  "server_rounds get_slot set_slot do_work [] st = Inr (True, st)"
| "server_rounds get_slot set_slot do_work (w # ws) st =
     bindE (server_round get_slot set_slot do_work w st) (\<lambda>(go, st).
     if go then server_rounds get_slot set_slot do_work ws st else Inr (False, st))"

text \<open>
  The first result is whether the loop is still running when the script of \<open>epoll_wait\<close> ends;
  \<open>peeraddr\<close> and \<open>after\<close> are the memory that \<open>init_listensocket\<close> finds on its stack and behind \<open>jaddr\<close>.
\<close>

definition main_rcv_loop ::
  "('w, 'z) server_state_scheme old_evget \<Rightarrow> ('w, 'z) server_state_scheme old_eventset \<Rightarrow>
     (byte list \<Rightarrow> 'w \<Rightarrow> 'w) \<Rightarrow> int \<Rightarrow> jujube_in_addr \<Rightarrow> uint32 \<Rightarrow> byte list \<Rightarrow> byte list \<Rightarrow> poll list \<Rightarrow>
     ('w, 'z) server_state_scheme \<Rightarrow> (bool \<times> ('w, 'z) server_state_scheme) res" where
  "main_rcv_loop get_slot set_slot do_work g_efd ja prt peeraddr after ws s =
     (if g_efd \<le> 0 then Inr (False, s)
      else
        bindE (init_listensocket prt peeraddr ja after Accept_conn s) (\<lambda>s.
        bindE (server_rounds get_slot set_slot do_work ws (0, time_now s + 10, s)) (\<lambda>(go, checkpos, next_time, s).
        Inr (go, if go then s else close_fd g_efd s))))"

end
