(* ===== verification/Receive.thy ===== *)
theory Receive
  imports Server Transaction
begin

text \<open>
  What the server of \<open>server.c\<close> does with what a peer sends: the state of a connection as a small
  machine, and that the handler implements it on every outcome of the read.
\<close>

section \<open>Steps of a stream\<close>

text \<open>
  \<open>evolves s s' p x x'\<close>: the stream \<open>x\<close> at \<open>p\<close> has become \<open>x'\<close>, possibly with more or other
  blocks, and nothing that does not belong to it has changed.
\<close>

definition evolves ::
  "'z stream_state_scheme \<Rightarrow> 'z stream_state_scheme \<Rightarrow> loc \<Rightarrow> tcp_stream \<Rightarrow> tcp_stream \<Rightarrow> bool" where
  "evolves s s' p x x' \<longleftrightarrow> mem_ok s' \<and> stream_ok s' p x' \<and> server_sock x' = server_sock x \<and>
     live s' - stream_blocks s' p x' = live s - stream_blocks s p x \<and>
     (\<forall>q \<in> live s - stream_blocks s p x.
        block_bytes s' q = block_bytes s q \<and> bufs s' q = bufs s q \<and> streams s' q = streams s q) \<and>
     jconns s' = jconns s \<and> clinks s' = clinks s \<and> g_connect_pool s' = g_connect_pool s \<and>
     closed_fds s' = closed_fds s \<and> clock s' = clock s \<and> stream_state.more s' = stream_state.more s"

lemma evolves_refl: "mem_ok s \<Longrightarrow> stream_ok s p x \<Longrightarrow> evolves s s p x x"
  by (simp add: evolves_def)

lemma evolves_trans: "evolves s s1 p x x1 \<Longrightarrow> evolves s1 s2 p x1 x2 \<Longrightarrow> evolves s s2 p x x2"
  unfolding evolves_def by (auto; metis Diff_iff)

lemma evolves_set:
  assumes "mem_ok s" and "stream_ok s p x" and "stream_bufs x' = stream_bufs x" and "server_sock x' = server_sock x"
  shows "evolves s (set_stream p x' s) p x x'"
proof -
  have "p \<in> stream_blocks s p x" by (simp add: stream_blocks_def)
  then show ?thesis using assms stream_ok_set(1) [OF assms(2,3)]
    by (auto simp: evolves_def stream_blocks_def)
qed

lemma evolves_frame:
  assumes ok: "stream_ok s p x" and m: "mem_ok s'" "stream_ok s' p x'" and fr: "stream_frame s s' p x"
    and x': "stream_bufs x' = stream_bufs x" "server_sock x' = server_sock x"
  shows "evolves s s' p x x'"
proof -
  have "stream_blocks s' p x' = stream_blocks s' p x" using x'(1) by (simp add: stream_blocks_def)
  moreover have p: "p \<in> stream_blocks s p x" "set (stream_bufs x) \<subseteq> stream_blocks s p x"
    using stream_bufs_blocks [OF ok] by (simp_all add: stream_blocks_def)
  have "block_bytes s' q = block_bytes s q \<and> bufs s' q = bufs s q \<and> streams s' q = streams s q"
    if "q \<in> live s - stream_blocks s p x" for q
  proof -
    have "q \<noteq> p" "q \<notin> set (stream_bufs x)" using that p by auto
    then show ?thesis using fr that by (simp add: stream_frame_def)
  qed
  ultimately show ?thesis using m x'(2) fr by (simp add: evolves_def stream_frame_def)
qed

text \<open>A step of one of its buffers.\<close>

lemma evolves_buf:
  assumes ok: "mem_ok s" "stream_ok s p x" and b: "b \<in> set (stream_bufs x)" and st: "buf_step s s' b"
  shows "evolves s s' p x x" and "streams s' = streams s"
    and "\<forall>c \<in> set (stream_bufs x). c \<noteq> b \<longrightarrow> buf_bytes s' c = buf_bytes s c \<and> buf_room s' c = buf_room s c"
  using stream_buf_step [OF assms] evolves_frame [OF ok(2), of s' x] by auto

text \<open>Streams that have no block in common with it keep everything.\<close>

lemma evolves_keeps:
  assumes ev: "evolves s s' p x x'" and ok: "stream_ok s q y" "stream_ok s p x"
    and apart: "stream_blocks s q y \<inter> stream_blocks s p x = {}"
  shows "keeps s s' q y"
proof -
  have q: "q \<in> stream_blocks s q y" "set (stream_bufs y) \<subseteq> stream_blocks s q y" "stream_blocks s q y \<subseteq> live s"
    using stream_bufs_blocks [OF ok(1)] stream_blocks_live [OF ok(1)] by (simp_all add: stream_blocks_def)
  then have sub: "r \<in> live s - stream_blocks s p x" if "r \<in> stream_blocks s q y" for r using that apart by blast
  moreover have "r \<in> live s'" if "r \<in> stream_blocks s q y" for r using sub [OF that] ev unfolding evolves_def by blast
  ultimately show ?thesis using ev q(1,2) unfolding keeps_def evolves_def by blast
qed

section \<open>Steps of a slot\<close>

lemma evolves_slot:
  assumes ok: "table_ok s" and i: "i \<in> active s" "slot_rep s i c x" and ev: "evolves s s' (jc_stream c) x x'"
  shows "slot_step s s' i" and "i \<in> active s'" and "slot_rep s' i c x'"
proof -
  have e: "stream_state.more s' = stream_state.more s" "jconns s' = jconns s"
    and m: "mem_ok s'" "stream_ok s' (jc_stream c) x'" "server_sock x' = server_sock x"
    and lv: "live s' - stream_blocks s' (jc_stream c) x' = live s - stream_blocks s (jc_stream c) x"
    using ev by (simp_all add: evolves_def)
  note m' = more_event [OF e(1)]
  have r: "stream_ok s (jc_stream c) x" "jconns s (slot_jc s i) = Some c" "ev_status (g_events s ! i) = 1"
    "interest s = (interest s)(slot_fd s i \<mapsto> (ev_events (g_events s ! i), Ptr i))"
    using i active_less [OF ok i(1)] by (auto simp: slot_rep_def)
  have keep: "keeps s s' q y" if "stream_ok s q y" "stream_blocks s q y \<inter> stream_blocks s (jc_stream c) x = {}" for q y
    using evolves_keeps [OF ev that(1) r(1) that(2)] .
  note live = slot_step_live [OF ok i, of s' c x']
  show "slot_step s s' i" "i \<in> active s'" "slot_rep s' i c x'"
    using m m' e lv r keep by (auto intro!: live)
qed

text \<open>What the handling of an event of the slot \<open>i\<close> leaves as it was.\<close>

definition others_same :: "'z event_state_scheme \<Rightarrow> 'z event_state_scheme \<Rightarrow> nat \<Rightarrow> bool" where
  "others_same s s' i \<longleftrightarrow> table_ok s' \<and> active s' - {i} = active s - {i} \<and> (\<forall>j \<in> active s - {i}. slot_same s s' j) \<and>
     (\<forall>j. j \<noteq> i \<longrightarrow> g_events s' ! j = g_events s ! j)"

lemma step_others:
  assumes "table_ok s" and "slot_step s s' i"
  shows "others_same s s' i"
proof -
  have "\<forall>j. j \<noteq> i \<longrightarrow> g_events s' ! j = g_events s ! j" using assms(2) by (simp add: slot_step_def)
  then show ?thesis using slot_step_table [OF assms] slot_step_other(1) [OF assms] slot_step_same [OF assms]
    unfolding others_same_def by blast
qed

lemma others_trans:
  assumes 1: "others_same s s1 i" and 2: "others_same s1 s2 i"
  shows "others_same s s2 i"
proof -
  have "slot_same s s2 j" if "j \<in> active s - {i}" for j
  proof -
    have "slot_same s s1 j" "slot_same s1 s2 j" using 1 2 that unfolding others_same_def by blast+
    then show ?thesis by (rule slot_same_trans)
  qed
  then show ?thesis using 1 2 by (simp add: others_same_def)
qed

text \<open>Giving the slot up.\<close>

definition hung_up :: "'z event_state_scheme \<Rightarrow> 'z event_state_scheme \<Rightarrow> nat \<Rightarrow> bool" where
  "hung_up s s' i \<longleftrightarrow> others_same s s' i \<and> i \<notin> active s' \<and> closed_fds s' = closed_fds s @ [slot_fd s i] \<and>
     interest s' = (interest s)(slot_fd s i := None)"

lemma close_hung_up:
  assumes ok: "table_ok s" and i: "i \<in> active s" "slot_rep s i c x"
  shows "\<exists>s'. close_stream (Some i) s = Inr s' \<and> hung_up s s' i \<and> event_state.more s' = event_state.more s"
proof -
  obtain s' where s': "close_stream (Some i) s = Inr s'" "gone s s' i (jc_stream c) x" "jconns s' = jconns s"
    using close_stream_gone [OF assms] by blast
  have "\<forall>q. q \<noteq> slot_jc s i \<longrightarrow> jconns s' q = jconns s q" using s'(3) by simp
  from gone_slot_step [OF ok i s'(2) this] step_others [OF ok] s' show ?thesis
    by (auto simp: hung_up_def gone_def)
qed

section \<open>The capacity of a buffer\<close>

definition buf_cap :: "'z buf_state_scheme \<Rightarrow> loc \<Rightarrow> nat" where
  "buf_cap s b = (case bufs s b of None \<Rightarrow> 0 | Some B \<Rightarrow> unat (buf_len B))"

lemma buf_cap_room: "buf_ok s b \<Longrightarrow> buf_room s b + length (buf_bytes s b) = buf_cap s b"
  by (auto simp: buf_ok_def buf_cap_def buf_room_def buf_bytes_def word_le_nat_alt min_absorb2)

lemma buf_cap_cong: "bufs s' b = bufs s b \<Longrightarrow> buf_cap s' b = buf_cap s b"
  by (simp add: buf_cap_def)

lemma mem_store_bufs: "mem_store p off bs s = Inr s' \<Longrightarrow> bufs s' = bufs s"
  by (auto dest!: mem_store_more mem_more_buf)

lemma mem_store_left: "mem_store p off bs s = Inr s' \<Longrightarrow> malloc_left s' = malloc_left s"
  by (cases s) (auto simp: mem_store_def set_entry_def res_simps)

lemma clear_space_cap: "clear_space b s = Inr s' \<Longrightarrow> buf_cap s' b = buf_cap s b"
  by (auto simp: clear_space_def get_buf_def buf_cap_def res_simps dest!: mem_store_bufs split: option.splits if_splits)

lemma buf_pick_cap: "buf_pick b n s = Inr s' \<Longrightarrow> buf_cap s' b = buf_cap s b"
  by (auto simp: buf_pick_def get_buf_def buf_cap_def Let_def res_simps dest!: mem_store_bufs split: option.splits if_splits)

lemma buf_step_cap: "buf_step s s' b \<Longrightarrow> c \<noteq> b \<Longrightarrow> buf_cap s' c = buf_cap s c"
  by (simp add: buf_step_def buf_cap_def)

text \<open>The terminator is written behind the bytes of the buffer.\<close>

lemma end_data_ok:
  assumes ok: "mem_ok s" "stream_ok s p x"
  shows "\<exists>s'. end_data p s = Inr s' \<and> evolves s s' p x x \<and> bufs s' = bufs s \<and>
    malloc_left s' = malloc_left s \<and> (\<forall>b \<in> set (stream_bufs x). buf_bytes s' b = buf_bytes s b)"
proof -
  let ?b = "out_buf x"
  have b: "buf_ok s ?b" by (rule stream_ok_bufs [OF ok(2)])
  obtain B where B: "bufs s ?b = Some B" "get_buf ?b s = Inr B" using buf_ok_get [OF b] by blast
  note gs = get_stream_ok [OF ok(2)]
  show ?thesis
  proof (cases "data_len B < buf_len B")
    case False
    then show ?thesis using evolves_refl [OF ok] gs B(2) by (simp add: end_data_def)
  next
    case True
    then have lt: "unat (data_len B) + length [0 :: byte] \<le> unat (buf_len B)" "data_len B \<le> buf_len B"
      by (simp_all add: word_less_nat_alt word_le_nat_alt)
    obtain s1 where s1: "mem_store (buffer B) (unat (data_len B)) [0] s = Inr s1" "bufs s1 = bufs s"
      "buf_step s (set_buf ?b B s1) ?b"
      "buf_bytes (set_buf ?b B s1) ?b = take (unat (data_len B)) (splice (unat (data_len B)) [0] (block_bytes s (buffer B)))"
      using buf_write [OF ok(1) b B(1) lt(1) refl refl lt(2)] by blast
    have id: "set_buf ?b B s1 = s1" using s1(2) B(1) by (intro set_buf_idem) simp
    have "unat (data_len B) \<le> length (block_bytes s (buffer B))" using b B(1) lt by (auto simp: buf_ok_def)
    then have own: "buf_bytes s1 ?b = buf_bytes s ?b"
      using s1(4) B(1) unfolding id by (simp add: take_splice_before buf_bytes_def)
    have mem: "?b \<in> set (stream_bufs x)" by (simp add: stream_bufs_def)
    note e = evolves_buf [OF ok mem s1(3) [unfolded id]]
    have "malloc_left s1 = malloc_left s" by (rule mem_store_left [OF s1(1)])
    moreover have "end_data p s = Inr s1" using gs B(2) True s1(1) by (simp add: end_data_def)
    ultimately show ?thesis using e own s1(2) by metis
  qed
qed

section \<open>One read\<close>

text \<open>
  What an event finds: \<open>None\<close> when the peer has closed or the read failed, otherwise the bytes,
  none when there was nothing to read after all.
\<close>

fun arrives :: "nat \<Rightarrow> byte list outcome \<Rightarrow> byte list option" where
  "arrives n (Done bs) = (if take n bs = [] then None else Some (take n bs))"
| "arrives n (Error e) = (if e = EAGAIN then Some [] else None)"

lemma feed_arrives:
  assumes ok: "mem_ok s" "stream_ok s p x" and sock: "0 \<le> server_sock x" and room: "0 < buf_room s (out_buf x)"
    and r: "read_env s = r # es" "r \<noteq> Error EINTR"
  shows "\<exists>n s' x'. stream_feed_out p s = Inr (n, s') \<and> evolves s s' p x x' \<and> stream_bufs x' = stream_bufs x \<and>
    in_buf x' = in_buf x \<and> out_buf x' = out_buf x \<and> work_buf x' = work_buf x \<and>
    malloc_left s' = malloc_left s \<and> buf_cap s' = buf_cap s \<and> read_env s' = es \<and>
    (\<forall>b \<in> set (stream_bufs x). b \<noteq> out_buf x \<longrightarrow> buf_bytes s' b = buf_bytes s b) \<and>
    (case arrives (buf_room s (out_buf x)) r of
       None \<Rightarrow> n = - 1 \<and> buf_bytes s' (out_buf x) = buf_bytes s (out_buf x)
     | Some bs \<Rightarrow> n = int (length bs) \<and> x' = x \<and> buf_bytes s' (out_buf x) = buf_bytes s (out_buf x) @ bs)"
proof -
  let ?b = "out_buf x" and ?s = "s\<lparr>read_env := es\<rparr>"
  have b: "buf_ok s ?b" by (rule stream_ok_bufs [OF ok(2)])
  obtain B where B: "bufs s ?b = Some B" "get_buf ?b s = Inr B" using buf_ok_get [OF b] by blast
  obtain n where n: "buf_free_space ?b s = Inr n" "unat n = buf_room s ?b" using buf_free_space_ok [OF b] by blast
  have pos: "n > 0" using n(2) room by (simp add: word_gt_0 unat_gt_0 [symmetric])
  have B1: "get_buf ?b ?s = Inr B" using B by (simp add: get_buf_def is_live_iff split: if_splits)
  note gs = get_stream_ok [OF ok(2)]
  have eq: "stream_feed_out p s = (case r of
      Error e \<Rightarrow> if e = EAGAIN then Inr (0, ?s) else Inr (- 1, ?s)
    | Done bs \<Rightarrow> if take (unat n) bs = [] then Inr (- 1, set_stream p (x\<lparr>server_closed := True\<rparr>) ?s)
        else bindE (mem_store (buffer B) (unat (data_len B)) (take (unat n) bs) ?s) (\<lambda>s.
          bindE (get_buf ?b s) (\<lambda>B. Inr (int (length (take (unat n) bs)),
            set_buf ?b (B\<lparr>data_len := data_len B + of_nat (length (take (unat n) bs))\<rparr>) s))))"
    using sock gs n(1) pos B(2) r
    by (cases r) (auto simp: stream_feed_out_def feed_loop.simps [of p 0 s] buf_end_position_def sys_read_def
        split: errno.splits)
  have e0: "evolves s ?s p x x" using ok by (simp add: evolves_def)
  have c0: "buf_cap ?s = buf_cap s" by (simp add: fun_eq_iff buf_cap_def)
  show ?thesis
  proof (cases r)
    case (Error e)
    then show ?thesis using eq e0 c0 by auto
  next
    case (Done bs)
    let ?bs = "take (unat n) bs"
    show ?thesis
    proof (cases "?bs = []")
      case True
      let ?x = "x\<lparr>server_closed := True\<rparr>"
      have sb: "stream_bufs ?x = stream_bufs x" "server_sock ?x = server_sock x" by (simp_all add: stream_bufs_def)
      have "evolves ?s (set_stream p ?x ?s) p x ?x" using ok sb by (intro evolves_set) simp_all
      then have "evolves s (set_stream p ?x ?s) p x ?x" by (rule evolves_trans [OF e0])
      moreover have "buf_cap (set_stream p ?x ?s) = buf_cap s" by (simp add: fun_eq_iff buf_cap_def)
      ultimately show ?thesis using eq Done True sb n(2)
        by (intro exI [of _ "- 1"] exI [of _ "set_stream p ?x ?s"] exI [of _ ?x]) auto
    next
      case False
      have "length ?bs \<le> buf_room s ?b" using n(2) by simp
      from fed_chunk [OF ok B(1) this, of es] obtain s1 where s1: "mem_store (buffer B) (unat (data_len B)) ?bs ?s = Inr s1"
        "get_buf ?b s1 = Inr B" "fed s (set_buf ?b (B\<lparr>data_len := data_len B + of_nat (length ?bs)\<rparr>) s1) p x x ?bs" by blast
      let ?s1 = "set_buf ?b (B\<lparr>data_len := data_len B + of_nat (length ?bs)\<rparr>) s1"
      have f: "mem_ok ?s1" "stream_ok ?s1 p x" "stream_frame s ?s1 p x" "buf_bytes ?s1 ?b = buf_bytes s ?b @ ?bs"
        "\<forall>c \<in> set (stream_bufs x). c \<noteq> ?b \<longrightarrow> buf_bytes ?s1 c = buf_bytes s c" using s1(3) unfolding fed_def by blast+
      have ev: "evolves s ?s1 p x x" by (rule evolves_frame [OF ok(2) f(1-3) refl refl])
      have "bufs s1 = bufs s" using mem_store_bufs [OF s1(1)] by simp
      then have "buf_cap ?s1 = buf_cap s" using B(1) by (simp add: fun_eq_iff buf_cap_def)
      moreover have "malloc_left ?s1 = malloc_left s" using mem_store_left [OF s1(1)] by (simp add: set_buf_def)
      moreover have "read_env ?s1 = es"
        using more_stream(3) [OF conjunct2 [OF mem_more_buf [OF mem_store_more [OF s1(1)]]]] by (simp add: set_buf_def)
      moreover have "stream_feed_out p s = Inr (int (length ?bs), ?s1)"
        using eq Done False s1(1,2) by simp
      ultimately show ?thesis using Done False ev f(4,5) n(2)
        by (intro exI [of _ "int (length ?bs)"] exI [of _ ?s1] exI [of _ x]) simp
    qed
  qed
qed

section \<open>Collecting\<close>

lemma buf_put_fits_same:
  assumes b: "buf_ok s b" and room: "unat n \<le> buf_room s b" and run: "buf_put b bs n s = Inr (r, s')"
  shows "buf_cap s' b = buf_cap s b" and "malloc_left s' = malloc_left s"
proof -
  obtain B where B: "bufs s b = Some B" "get_buf b s = Inr B" using buf_ok_get [OF b] by blast
  obtain k where k: "buf_free_space b s = Inr k" "unat k = buf_room s b" using buf_free_space_ok [OF b] by blast
  have "\<not> k < n" using k(2) room by (simp add: word_less_nat_alt)
  then obtain s1 where s1: "mem_store (buffer B) (unat (data_len B)) (take (unat n) bs) s = Inr s1"
    "s' = set_buf b (B\<lparr>data_len := data_len B + n\<rparr>) s1"
    using run k(1) B(2) by (auto simp: buf_put_def res_simps)
  show "buf_cap s' b = buf_cap s b" using s1(2) B(1) by (simp add: buf_cap_def)
  show "malloc_left s' = malloc_left s" using mem_store_left [OF s1(1)] s1(2) by (simp add: set_buf_def)
qed

lemma buf_put_total:
  assumes ok: "mem_ok s" "buf_ok s b" and len: "unat n = length bs" "length bs \<le> 65536" "buf_cap s b \<le> 32768"
    and left: "0 < malloc_left s"
  shows "\<exists>s'. buf_put b bs n s = Inr (0, s') \<and> buf_step s s' b \<and> buf_bytes s' b = buf_bytes s b @ bs"
proof (cases "unat n \<le> buf_room s b")
  case True
  then show ?thesis using buf_put_fits [OF ok True] len(1) by fastforce
next
  case False
  obtain B where B: "bufs s b = Some B" using buf_ok_get [OF ok(2)] by blast
  have sum: "unat (buf_len B) + unat n \<le> 98304" using B len by (simp add: buf_cap_def)
  then have "unat (buf_len B + n) = unat (buf_len B) + unat n" by (intro unat_add_small) simp
  then have "buf_len B + n \<le> MAX_EXT_MEM_BLOCK" using sum by (simp add: word_le_nat_alt)
  from mem_alloc_total [OF ok(1) this left] obtain q s1 where al: "mem_alloc (Some ''buf'') (buf_len B + n) s = Inr (q, s1)"
    by blast
  have "buf_room s b < unat n" "unat n \<le> length bs" "unat (buf_len B) + unat n < 2 ^ 64" using False len(1) sum by simp_all
  from buf_put_grows [OF ok B this al] show ?thesis using len(1) by simp
qed

lemma buf_put_left:
  assumes ok: "mem_ok s" and run: "buf_put b bs n s = Inr (r, s')"
  shows "malloc_left s \<le> malloc_left s' + 1"
proof -
  have grow: "malloc_left s \<le> malloc_left s1 + 1" if r: "buf_realloc b n s = Inr (k, s1)" for k s1
  proof -
    obtain B q s2 bs s3 s4 where al: "mem_alloc (Some ''buf'') (buf_len B + n) s = Inr (q, s2)"
      and st: "mem_store q 0 bs s2 = Inr s3" "mem_free (buffer B) s3 = Inr s4"
      and s1: "s1 = set_buf b (B\<lparr>buffer := q, buf_len := buf_len B + n\<rparr>) s4"
      using r by (auto simp: buf_realloc_def res_simps)
    have "malloc_left s1 = malloc_left s2"
      using mem_store_left [OF st(1)] mem_free_left [OF st(2)] s1 by (simp add: set_buf_def)
    then show ?thesis using mem_alloc_left [OF ok al] by linarith
  qed
  obtain space where run: "bindE (if space < n then buf_realloc b n s else Inr (0, s)) (\<lambda>(r, s).
      if r < 0 then Inr (- 1, s)
      else bindE (get_buf b s) (\<lambda>B.
        bindE (accessE (unat n \<le> length bs)) (\<lambda>_.
        bindE (mem_store (buffer B) (unat (data_len B)) (take (unat n) bs) s) (\<lambda>s.
        Inr (0, set_buf b (B\<lparr>data_len := data_len B + n\<rparr>) s))))) = Inr (r, s')"
    using run unfolding buf_put_def bindE_eq_Inr [of "buf_free_space b s"] by blast
  obtain k s1 where s1: "(if space < n then buf_realloc b n s else Inr (0, s)) = Inr (k, s1)"
    using run by (cases "if space < n then buf_realloc b n s else Inr (0, s)") auto
  have "malloc_left s' = malloc_left s1"
    using run unfolding s1 by (auto simp: set_buf_def res_simps dest!: mem_store_left split: if_splits)
  moreover have "malloc_left s \<le> malloc_left s1 + 1" using grow s1 by (cases "space < n") auto
  ultimately show ?thesis by simp
qed

text \<open>The 64-bit counters.\<close>

lemma sint_word: "- (2 ^ 63) \<le> k \<Longrightarrow> k < 2 ^ 63 \<Longrightarrow> sint (word_of_int k :: 64 word) = k"
  by (simp add: sint_word_ariths signed_take_bit_int_eq_self signed_of_int)

lemma sint_word32: "0 \<le> k \<Longrightarrow> k < 2 ^ 31 \<Longrightarrow> sint (word_of_int k :: 32 word) = k"
  by (simp add: sint_word_ariths signed_take_bit_int_eq_self signed_of_int)

lemma sint_add_size:
  fixes n :: size_t
  assumes "unat n = k" and "- (2 ^ 62) \<le> a" and "a \<le> 2 ^ 62" and "k \<le> 2 ^ 20"
  shows "sint (word_of_int a + n) = a + int k" and "sint (word_of_int a - n) = a - int k"
proof -
  have n: "n = word_of_int (int k)" using assms(1) by auto
  have s: "word_of_int a + n = word_of_int (a + int k)" "word_of_int a - n = word_of_int (a - int k)"
    unfolding n by simp_all
  have "int k \<le> 2 ^ 20" using assms(4) by simp
  then show "sint (word_of_int a + n) = a + int k" "sint (word_of_int a - n) = a - int k"
    unfolding s using assms(2,3) by (intro sint_word; simp)+
qed

text \<open>The counters of a message of \<open>n\<close> bytes when \<open>k\<close> have been received.\<close>

definition counted :: "nat \<Rightarrow> nat \<Rightarrow> tcp_stream \<Rightarrow> tcp_stream" where
  "counted n k x = x\<lparr>data_recved := int k, reply_body_size_left := int n - int k\<rparr>"

lemma counted_sel [simp]:
  "data_recved (counted n k x) = int k" "reply_body_size_left (counted n k x) = int n - int k"
  "content_len (counted n k x) = content_len x" "server_sock (counted n k x) = server_sock x"
  "in_buf (counted n k x) = in_buf x" "out_buf (counted n k x) = out_buf x" "work_buf (counted n k x) = work_buf x"
  "stream_bufs (counted n k x) = stream_bufs x"
  by (simp_all add: counted_def stream_bufs_def)

lemma collect_data_ok:
  assumes ok: "mem_ok s" "stream_ok s p x" and w: "work_buf x \<noteq> Null"
    and x: "data_recved x = int (length got)" "reply_body_size_left x = int n - int (length got)" "content_len x = int n"
    and n: "n \<le> 32768" "length got \<le> 32768" and out: "buf_bytes s (out_buf x) = bs" "length bs \<le> 65536"
    and work: "buf_bytes s (work_buf x) = got" "buf_cap s (work_buf x) = 32768" and left: "0 < malloc_left s"
  shows "\<exists>s'. collect_data p ev s = Inr (if length (got @ bs) = n then 1 else 0, s') \<and>
    evolves s s' p x (counted n (length (got @ bs)) x) \<and> buf_bytes s' (out_buf x) = [] \<and>
    buf_cap s' (out_buf x) = buf_cap s (out_buf x) \<and> buf_bytes s' (work_buf x) = got @ bs \<and>
    malloc_left s \<le> malloc_left s' + 1 \<and>
    (length (got @ bs) \<le> 32768 \<longrightarrow> buf_cap s' (work_buf x) = 32768 \<and> malloc_left s' = malloc_left s)"
proof -
  let ?b = "out_buf x" and ?w = "work_buf x" and ?x = "counted n (length (got @ bs)) x"
  let ?s1 = "set_stream p ?x s"
  have mem: "?b \<in> set (stream_bufs x)" "?w \<in> set (stream_bufs x)" "?b \<noteq> ?w"
    using w ok(2) by (auto simp: stream_bufs_def stream_ok_def)
  have bo: "buf_ok s ?b" "buf_ok s ?w" using ok(2) mem by (simp_all add: stream_ok_def)
  have sb: "stream_bufs ?x = stream_bufs x" by simp
  obtain k where k: "buf_data_size ?b s = Inr k" "unat k = length bs" using buf_data_size_ok [OF bo(1)] out(1) by auto
  have xs: "x\<lparr>data_recved := sint (word_of_int (data_recved x) + k),
      reply_body_size_left := sint (word_of_int (reply_body_size_left x) - k)\<rparr> = ?x"
  proof -
    have "- (2 ^ 62) \<le> int (length got)" "int (length got) \<le> 2 ^ 62" "- (2 ^ 62) \<le> int n - int (length got)"
      "int n - int (length got) \<le> 2 ^ 62" "length bs \<le> 2 ^ 20" using n out(2) by simp_all
    then show ?thesis unfolding x counted_def
      using sint_add_size(1) [OF k(2), of "int (length got)"] sint_add_size(2) [OF k(2), of "int n - int (length got)"]
      by simp
  qed
  have ok1: "mem_ok ?s1" "stream_ok ?s1 p ?x" using ok(1) stream_ok_set(1) [OF ok(2) sb] by simp_all
  have e1: "evolves s ?s1 p x ?x" by (rule evolves_set [OF ok sb]) simp
  obtain B where B: "bufs s ?b = Some B" "get_buf ?b ?s1 = Inr B"
    using buf_ok_get [of ?s1 ?b] bo(1) by auto
  have ld: "mem_load (buffer B) 0 (unat k) ?s1 = Inr bs"
    using buf_load [OF ok1(1), of ?b B "unat k"] bo(1) B(1) out(1) k(2) by simp
  have "buf_cap ?s1 ?w \<le> 32768" using work(2) by (simp add: buf_cap_def)
  then obtain s2 where s2: "buf_put ?w bs k ?s1 = Inr (0, s2)" "buf_step ?s1 s2 ?w" "buf_bytes s2 ?w = got @ bs"
    using buf_put_total [OF ok1(1) _ k(2) out(2), of ?w] bo(2) left work(1) by auto
  have mem1: "?w \<in> set (stream_bufs ?x)" "?b \<in> set (stream_bufs ?x)" using mem by simp_all
  note e2 = evolves_buf [OF ok1 mem1(1) s2(2)]
  have ok2: "mem_ok s2" "stream_ok s2 p ?x" using e2(1) by (simp_all add: evolves_def)
  have bo2: "buf_ok s2 ?b" using ok2(2) mem1(2) by (simp add: stream_ok_def)
  obtain s3 where s3: "clear_space ?b s2 = Inr s3" "buf_step s2 s3 ?b" "buf_bytes s3 ?b = []"
    using clear_space_ok [OF ok2(1) bo2] by blast
  note e3 = evolves_buf [OF ok2 mem1(2) s3(2)]
  have ev: "evolves s s3 p x ?x" using evolves_trans [OF e1 evolves_trans [OF e2(1) e3(1)]] .
  have w3: "buf_bytes s3 ?w = got @ bs" using e3(3) mem1(1) mem(3) s2(3) by metis
  have cap_b: "buf_cap s3 ?b = buf_cap s ?b"
    using clear_space_cap [OF s3(1)] buf_step_cap [OF s2(2) mem(3)] by (simp add: buf_cap_def)
  have cap_w: "buf_cap s3 ?w = buf_cap s2 ?w" using buf_step_cap [OF s3(2)] mem(3) by metis
  have left3: "malloc_left s3 = malloc_left s2"
    using s3(1) by (auto simp: clear_space_def res_simps set_buf_def dest!: mem_store_left)
  have less: "malloc_left s \<le> malloc_left s3 + 1" using buf_put_left [OF ok1(1) s2(1)] left3 by (simp add: set_stream_def)
  have small: "buf_cap s2 ?w = 32768 \<and> malloc_left s2 = malloc_left s" if "length (got @ bs) \<le> 32768"
  proof -
    have "buf_room s ?w = 32768 - length got" using buf_cap_room [OF bo(2)] work by simp
    then have "unat k \<le> buf_room ?s1 ?w" using that k(2) by simp
    from buf_put_fits_same [OF _ this s2(1)] show ?thesis using bo(2) work(2) by (simp add: buf_cap_def)
  qed
  have p: "p \<noteq> Null" using ok live_not_null by (auto simp: stream_ok_def)
  have len: "int n - int (length (got @ bs)) = 0 \<longleftrightarrow> length (got @ bs) = n" by auto
  have "collect_data p ev s = Inr (if length (got @ bs) = n then 1 else 0, s3)"
    unfolding collect_data_def get_stream_ok [OF ok(2)] bindE_Inr k(1) Let_def xs
    using p B(2) ld s2(1) s3(1) x(3) len by (simp del: length_append)
  then show ?thesis using ev s3(3) cap_b cap_w left3 w3 small less by (intro exI [of _ s3]) simp
qed

text \<open>The buffer for the message is made once its length is known.\<close>

lemma alloc_work_ok:
  assumes ok: "mem_ok s" "stream_ok s p x" and w: "work_buf x = Null" and left: "2 \<le> malloc_left s"
  shows "\<exists>s' w. alloc_work_buff p s = Inr s' \<and> evolves s s' p x (x\<lparr>work_buf := w\<rparr>) \<and> w \<noteq> Null \<and>
    buf_bytes s' w = [] \<and> buf_cap s' w = 32768 \<and> malloc_left s - 2 \<le> malloc_left s' \<and>
    (\<forall>b \<in> set (stream_bufs x). buf_bytes s' b = buf_bytes s b \<and> buf_cap s' b = buf_cap s b)"
proof -
  have cap: "(0 :: size_t) < LOG_MAX_LEN" "LOG_MAX_LEN \<le> MAX_EXT_MEM_BLOCK" by simp_all
  obtain b s1 where new: "buf_new ''work_buf'' ''work_buf_data'' LOG_MAX_LEN s = Inr (b, s1)"
    using buf_new_total [OF ok(1) cap(2) left] by blast
  note n1 = buf_new_returns [OF ok(1) cap(1) new]
  have b1: "mem_ok s1" "buf_ok s1 b" using n1 by simp_all
  obtain d where B: "bufs s1 b = Some \<lparr>buffer = d, buf_len = LOG_MAX_LEN, data_len = 0\<rparr>" (is "_ = Some ?B") using n1 by blast
  have gB: "get_buf b s1 = Inr ?B" using buf_ok_get [OF b1(2)] B by auto
  obtain s2 where s2: "mem_store d 0 [0] s1 = Inr s2" "mem_ok s2" "buf_ok s2 b" "live s2 = live s1" "bufs s2 = bufs s1"
    "buf_state.more s2 = buf_state.more s1" "malloc_left s2 = malloc_left s1"
    "\<forall>q. q \<noteq> d \<longrightarrow> block_bytes s2 q = block_bytes s1 q"
    using buf_zero [OF b1 B] by auto
  let ?x = "x\<lparr>work_buf := b\<rparr>" and ?s' = "set_stream p (x\<lparr>work_buf := b\<rparr>) s2"
  have bb: "buf_blocks s1 b = {b, d}" "buf_blocks s2 b = {b, d}" using B s2(5) by (simp_all add: buf_blocks_def)
  have fresh: "b \<notin> live s" "d \<notin> live s" "live s2 = live s \<union> {b, d}" using n1 s2(4) unfolding bb by auto
  have p: "p \<in> live s" "streams s p = Some x" using ok(2) by (simp_all add: stream_ok_def)
  have old: "bufs s2 c = bufs s c" "buf_ok s2 c" "buf_bytes s2 c = buf_bytes s c" "buf_blocks s2 c = buf_blocks s c"
    "buf_blocks s c \<subseteq> live s" "c \<noteq> b" "buf_cap s2 c = buf_cap s c" if c: "c \<in> set (stream_bufs x)" for c
  proof -
    have bo: "buf_ok s c" using ok(2) c by (simp add: stream_ok_def)
    note o = buf_new_other [OF ok(1) cap(1) new bo]
    obtain C where C: "bufs s c = Some C" "c \<in> live s" "buffer C \<in> live s" using bo by (auto simp: buf_ok_def)
    have "buffer C \<noteq> d" "c \<noteq> b" using C(2,3) fresh by auto
    then have blk: "block_bytes s2 (buffer C) = block_bytes s1 (buffer C)" using s2(8) by simp
    show "c \<noteq> b" by fact
    show "bufs s2 c = bufs s c" using o s2(5) by simp
    then show "buf_cap s2 c = buf_cap s c" "buf_blocks s2 c = buf_blocks s c" by (simp_all add: buf_cap_def buf_blocks_def)
    show "buf_blocks s c \<subseteq> live s" using C by (simp add: buf_blocks_def)
    have C1: "bufs s1 c = Some C" "bufs s2 c = Some C" "buf_ok s1 c" "buf_bytes s1 c = buf_bytes s c"
      using o C(1) s2(5) by simp_all
    show "buf_ok s2 c" using C1(1-3) s2(4) blk by (simp add: buf_ok_def)
    show "buf_bytes s2 c = buf_bytes s c" unfolding C1(4) [symmetric] using C1(1,2) blk by (simp add: buf_bytes_def)
  qed
  have sb: "set (stream_bufs ?x) = insert b (set (stream_bufs x))"
    using w live_not_null [OF s2(2)] fresh(3) by (auto simp: stream_bufs_def)
  have nn: "b \<noteq> Null" using live_not_null [OF s2(2)] fresh(3) by simp
  have new_ap: "buf_apart s2 b c" "buf_apart s2 c b" if "c \<in> set (stream_bufs x)" for c
    using old [OF that] bb(2) fresh(1,2) by (auto simp: buf_apart_def)
  have old_ap: "buf_apart s2 c e" if "c \<in> set (stream_bufs x)" "e \<in> set (stream_bufs x)" "c \<noteq> e" for c e
    using old(4) that ok(2) by (simp add: buf_apart_def stream_ok_def)
  have dist: "distinct (stream_bufs ?x)"
    using ok(2) w old(6) by (auto simp: stream_bufs_def stream_ok_def)
  have own: "p \<notin> buf_blocks s2 c" if "c \<in> set (stream_bufs ?x)" for c
  proof (cases "c = b")
    case True
    then show ?thesis using bb(2) fresh(1,2) p(1) by auto
  next
    case False
    then have "c \<in> set (stream_bufs x)" using that sb by simp
    then show ?thesis using old(4) ok(2) by (simp add: stream_ok_def)
  qed
  have "\<forall>c \<in> set (stream_bufs ?x). \<forall>e \<in> set (stream_bufs ?x). c \<noteq> e \<longrightarrow> buf_apart s2 c e"
    using new_ap old_ap unfolding sb by auto
  moreover have "\<forall>c \<in> set (stream_bufs ?x). buf_ok s2 c" using old(2) s2(3) unfolding sb by simp
  ultimately have sok: "stream_ok ?s' p ?x" using p fresh(3) dist own by (simp add: stream_ok_def)
  have blocks: "stream_blocks ?s' p ?x = stream_blocks s p x \<union> {b, d}"
    using old(4) bb(2) unfolding stream_blocks_def sb by auto
  have keep: "block_bytes s2 q = block_bytes s q \<and> bufs s2 q = bufs s q" if "q \<in> live s" for q
  proof -
    have "q \<noteq> d" "q \<noteq> b" using that fresh by auto
    then show ?thesis using that n1 s2(5,8) by simp
  qed
  have "p \<in> stream_blocks s p x" by (simp add: stream_blocks_def)
  moreover have "buf_state.more s2 = buf_state.more s" using s2(6) n1 by simp
  note more = more_stream [OF this]
  ultimately have "evolves s ?s' p x ?x"
    unfolding evolves_def blocks using sok s2(2) fresh keep more by auto
  moreover have "alloc_work_buff p s = Inr ?s'"
    using get_stream_ok [OF ok(2)] new gB s2(1) by (simp add: alloc_work_buff_def)
  moreover have "buf_bytes ?s' b = []" "buf_cap ?s' b = 32768" using B s2(5) by (simp_all add: buf_bytes_def buf_cap_def)
  moreover have "malloc_left s - 2 \<le> malloc_left ?s'" using n1 s2(7) by simp
  moreover have "\<forall>c \<in> set (stream_bufs x). buf_bytes ?s' c = buf_bytes s c \<and> buf_cap ?s' c = buf_cap s c"
    using old(1,3) by (simp add: buf_cap_def)
  ultimately show ?thesis using nn by blast
qed

section \<open>The state of a connection\<close>

text \<open>
  Between two events a connection waits for a frame, or has received a part of the message, or has
  been sent more than the message; it is jammed when bytes are left in the receive buffer.
\<close>

datatype session = Waiting | Receiving nat "byte list" | Overrun | Jammed

datatype reaction = More session | Crash | Reject | Job "byte list"

definition message_part :: "nat \<Rightarrow> byte list \<Rightarrow> reaction" where
  "message_part n got =
     (if length got = n then Job got else More (if length got < n then Receiving n got else Overrun))"

fun server_spec :: "session \<Rightarrow> byte list option \<Rightarrow> reaction" where
  "server_spec Jammed a = Crash"
| "server_spec u None = Reject"
| "server_spec Waiting (Some bs) =
     (if bs = [] then More Waiting
      else if length bs < 8 then More Jammed
      else let n = unat (load64 (take 8 bs)) in
        if n = 0 \<or> 32768 < n then Reject else message_part n (drop 8 bs))"
| "server_spec (Receiving n got) (Some bs) = message_part n (got @ bs)"
| "server_spec Overrun (Some bs) = More (if bs = [] then Overrun else Jammed)"

text \<open>The counters and the buffer for the message.\<close>

definition progress :: "'z stream_state_scheme \<Rightarrow> tcp_stream \<Rightarrow> session \<Rightarrow> bool" where
  "progress s x u \<longleftrightarrow> (case u of
      Waiting \<Rightarrow> reply_body_size_left x = 0 \<and> data_recved x = 0 \<and> work_buf x = Null
    | Receiving n got \<Rightarrow> data_recved x = int (length got) \<and> reply_body_size_left x = int n - int (length got) \<and>
        content_len x = int n \<and> length got < n \<and> n \<le> 32768 \<and> work_buf x \<noteq> Null \<and>
        buf_bytes s (work_buf x) = got \<and> buf_cap s (work_buf x) = 32768
    | Overrun \<Rightarrow> reply_body_size_left x < 0
    | Jammed \<Rightarrow> True)"

definition session_at :: "'z event_state_scheme \<Rightarrow> nat \<Rightarrow> session \<Rightarrow> bool" where
  "session_at s i u \<longleftrightarrow> i \<in> active s \<and> (\<exists>c x. slot_rep s i c x \<and> buf_cap s (out_buf x) = 65536 \<and> progress s x u \<and>
     (buf_bytes s (out_buf x) \<noteq> [] \<longleftrightarrow> u = Jammed))"

lemma session_at_rep:
  assumes "session_at s i u" and "slot_rep s i c x"
  shows "i \<in> active s" and "buf_cap s (out_buf x) = 65536" and "progress s x u"
    and "buf_bytes s (out_buf x) \<noteq> [] \<longleftrightarrow> u = Jammed"
  using assms slot_rep_unique unfolding session_at_def by blast+

lemma session_at_intro:
  assumes "i \<in> active s" and "slot_rep s i c x" and "buf_cap s (out_buf x) = 65536" and "progress s x u"
    and "buf_bytes s (out_buf x) \<noteq> [] \<longleftrightarrow> u = Jammed"
  shows "session_at s i u"
  using assms unfolding session_at_def by blast

text \<open>The blocks \<open>malloc\<close> may still be asked for.\<close>

fun memory_for :: "session \<Rightarrow> nat" where
  "memory_for Waiting = 3"
| "memory_for (Receiving n got) = 1"
| "memory_for u = 0"

text \<open>The event of the slot \<open>i\<close> has been handled and the slot is still in use.\<close>

definition stays :: "'z event_state_scheme \<Rightarrow> 'z event_state_scheme \<Rightarrow> nat \<Rightarrow> bool" where
  "stays s s' i \<longleftrightarrow> others_same s s' i \<and> i \<in> active s' \<and> slot_fd s' i = slot_fd s i \<and>
     call_back (g_events s' ! i) = call_back (g_events s ! i) \<and> ev_arg (g_events s' ! i) = ev_arg (g_events s ! i) \<and>
     (\<forall>d. d \<noteq> slot_fd s i \<longrightarrow> interest s' d = interest s d) \<and>
     closed_fds s' = closed_fds s \<and> event_state.more s' = event_state.more s"

lemma stays_trans: "stays s s1 i \<Longrightarrow> stays s1 s2 i \<Longrightarrow> stays s s2 i"
  unfolding stays_def using others_trans by auto

lemma stays_hung_up: "stays s s1 i \<Longrightarrow> hung_up s1 s2 i \<Longrightarrow> hung_up s s2 i"
  unfolding stays_def hung_up_def using others_trans by (auto simp: fun_eq_iff)

lemma evolves_stays:
  assumes ok: "table_ok s" and i: "i \<in> active s" "slot_rep s i c x" and ev: "evolves s s' (jc_stream c) x x'"
  shows "stays s s' i" and "table_ok s'" and "i \<in> active s'" and "slot_rep s' i c x'"
proof -
  note st = evolves_slot [OF assms]
  show "i \<in> active s'" "slot_rep s' i c x'" by (rule st(2,3))+
  have o: "others_same s s' i" by (rule step_others [OF ok st(1)])
  then show "table_ok s'" by (simp add: others_same_def)
  have "slot_fd s' i = slot_fd s i" using st(3) i(2) ev by (simp add: slot_rep_def evolves_def)
  moreover have "stream_state.more s' = stream_state.more s" "closed_fds s' = closed_fds s" using ev by (simp_all add: evolves_def)
  moreover note more_event [OF this(1)]
  ultimately show "stays s s' i" using o st(2) by (simp add: stays_def)
qed

lemma more_server:
  fixes s s' :: "('w, 'z) server_state_scheme"
  assumes "event_state.more s' = event_state.more s"
  shows "world s' = world s" and "g_qps s' = g_qps s" and "accept_env s' = accept_env s"
  using assms by (cases s; cases s'; simp)+

text \<open>
  How the outcome of a handler, or of a part of it that says whether the handler returns, follows
  the machine.
\<close>

definition ended :: "(byte list \<Rightarrow> 'w \<Rightarrow> 'w) \<Rightarrow> ('w, 'z) server_state_scheme \<Rightarrow> ('w, 'z) server_state_scheme \<Rightarrow> nat \<Rightarrow>
    byte list option \<Rightarrow> bool" where
  "ended do_work s s' i job \<longleftrightarrow> hung_up s s' i \<and> accept_env s' = accept_env s \<and> (case job of
      None \<Rightarrow> world s' = world s \<and> g_qps s' = g_qps s
    | Some m \<Rightarrow> world s' = do_work m (world s) \<and> g_qps s' = g_qps s + 1)"

definition follows :: "(byte list \<Rightarrow> 'w \<Rightarrow> 'w) \<Rightarrow> ('w, 'z) server_state_scheme \<Rightarrow> nat \<Rightarrow> nat \<Rightarrow> reaction \<Rightarrow>
    ('w, 'z) server_state_scheme res \<Rightarrow> bool" where
  "follows do_work s i n r out \<longleftrightarrow> (case r of
      Crash \<Rightarrow> out = Inl Assertion
    | More u \<Rightarrow> \<exists>s'. out = Inr s' \<and> stays s s' i \<and> session_at s' i u \<and> malloc_left s + memory_for u \<le> malloc_left s' + n
    | Reject \<Rightarrow> \<exists>s'. out = Inr s' \<and> ended do_work s s' i None \<and> malloc_left s \<le> malloc_left s' + n
    | Job m \<Rightarrow> \<exists>s'. out = Inr s' \<and> ended do_work s s' i (Some m) \<and> malloc_left s \<le> malloc_left s' + n)"

lemma stays_ended: "stays s s1 i \<Longrightarrow> ended do_work s1 s2 i job \<Longrightarrow> ended do_work s s2 i job"
  for s :: "('w, 'z) server_state_scheme"
proof -
  assume st: "stays s s1 i" and e: "ended do_work s1 s2 i job"
  have "event_state.more s1 = event_state.more s" using st by (simp add: stays_def)
  from more_server [OF this] show ?thesis using e stays_hung_up [OF st] by (simp add: ended_def split: option.splits)
qed

lemma stays_follows:
  fixes s :: "('w, 'z) server_state_scheme"
  assumes "stays s s1 i" and "follows do_work s1 i k r out" and "malloc_left s + k \<le> malloc_left s1 + n"
  shows "follows do_work s i n r out"
  using assms stays_ended [OF assms(1)] stays_trans [OF assms(1)] unfolding follows_def by (cases r) force+

definition part_follows :: "(byte list \<Rightarrow> 'w \<Rightarrow> 'w) \<Rightarrow> ('w, 'z) server_state_scheme \<Rightarrow> nat \<Rightarrow> nat \<Rightarrow> reaction \<Rightarrow>
    (bool \<times> ('w, 'z) server_state_scheme) res \<Rightarrow> bool" where
  "part_follows do_work s i n r out \<longleftrightarrow> (case r of
      Crash \<Rightarrow> False
    | More u \<Rightarrow> \<exists>s'. out = Inr (False, s') \<and> stays s s' i \<and> session_at s' i u \<and>
        malloc_left s + memory_for u \<le> malloc_left s' + n
    | Reject \<Rightarrow> \<exists>s'. out = Inr (True, s') \<and> ended do_work s s' i None \<and> malloc_left s \<le> malloc_left s' + n
    | Job m \<Rightarrow> \<exists>s'. out = Inr (True, s') \<and> ended do_work s s' i (Some m) \<and> malloc_left s \<le> malloc_left s' + n)"

lemma stays_part:
  fixes s :: "('w, 'z) server_state_scheme"
  assumes "stays s s1 i" and "part_follows do_work s1 i k r out" and "malloc_left s + k \<le> malloc_left s1 + n"
  shows "part_follows do_work s i n r out"
  using assms stays_ended [OF assms(1)] stays_trans [OF assms(1)] unfolding part_follows_def by (cases r) force+

text \<open>The state of \<open>do_work\<close> and the counter of the requests are no part of the table.\<close>

lemma world_table:
  fixes s :: "('w, 'z) server_state_scheme"
  defines "t \<equiv> \<lambda>v q. s\<lparr>world := v, g_qps := q\<rparr>"
  shows "table_ok (t v q) = table_ok s" and "slot_rep (t v q) = slot_rep s" and "active (t v q) = active s"
    and "slot_same s (t v q) j" and "closed_fds (t v q) = closed_fds s" and "g_events (t v q) = g_events s"
    and "interest (t v q) = interest s"
proof -
  have m: "mem_ok (t v q) = mem_ok s" "live (t v q) = live s" "block_bytes (t v q) = block_bytes s"
    unfolding t_def by (rule mem_fields_cong; simp)+
  have f: "bufs (t v q) = bufs s" "streams (t v q) = streams s" "jconns (t v q) = jconns s"
    "g_events (t v q) = g_events s" "interest (t v q) = interest s" "closed_fds (t v q) = closed_fds s"
    by (simp_all add: t_def)
  show "g_events (t v q) = g_events s" "closed_fds (t v q) = closed_fds s" "interest (t v q) = interest s" by (rule f)+
  note c = table_cong [OF m f(1-5)]
  show "table_ok (t v q) = table_ok s" "slot_rep (t v q) = slot_rep s" "active (t v q) = active s" "slot_same s (t v q) j"
    by (rule c)+
qed

lemma close_after_work:
  fixes s :: "('w, 'z) server_state_scheme"
  assumes ok: "table_ok s" and i: "i \<in> active s" "slot_rep s i c x"
  shows "\<exists>s'. close_stream (Some i) (s\<lparr>world := do_work m (world s), g_qps := g_qps s + 1\<rparr>) = Inr s' \<and>
    ended do_work s s' i (Some m) \<and> malloc_left s' = malloc_left s"
proof -
  let ?s = "s\<lparr>world := do_work m (world s), g_qps := g_qps s + 1\<rparr>"
  note w = world_table [where s = s and v = "do_work m (world s)" and q = "g_qps s + 1"]
  have "table_ok ?s" "i \<in> active ?s" "slot_rep ?s i c x" using assms w(1-3) by simp_all
  then obtain s' where s': "close_stream (Some i) ?s = Inr s'" "hung_up ?s s' i" "event_state.more s' = event_state.more ?s"
    using close_hung_up [of ?s i c x] by blast
  have "others_same s ?s i" using ok w by (simp add: others_same_def)
  then have "hung_up s s' i" using s'(2) others_trans w(5-7) unfolding hung_up_def by fastforce
  moreover have "world s' = do_work m (world s)" "g_qps s' = g_qps s + 1" "accept_env s' = accept_env s"
    using more_server [OF s'(3)] by simp_all
  moreover have "malloc_left s' = malloc_left s" using close_stream_left [OF s'(1)] by simp
  ultimately show ?thesis using s'(1) by (auto simp: ended_def)
qed

lemma close_ended:
  fixes s :: "('w, 'z) server_state_scheme"
  assumes ok: "table_ok s" and i: "i \<in> active s" "slot_rep s i c x"
  shows "\<exists>s'. close_stream (Some i) s = Inr s' \<and> ended do_work s s' i None \<and> malloc_left s' = malloc_left s"
proof -
  obtain s' where s': "close_stream (Some i) s = Inr s'" "hung_up s s' i" "event_state.more s' = event_state.more s"
    using close_hung_up [OF assms] by blast
  with more_server [OF s'(3)] close_stream_left [OF s'(1)] show ?thesis by (auto simp: ended_def)
qed

lemma collect_and_work_ok:
  fixes s :: "('w, 'z) server_state_scheme"
  assumes ok: "table_ok s" and i: "i \<in> active s" "slot_rep s i c x" and w: "work_buf x \<noteq> Null"
    and x: "data_recved x = int (length got)" "reply_body_size_left x = int n - int (length got)" "content_len x = int n"
    and n: "n \<le> 32768" "length got < n" and out: "buf_bytes s (out_buf x) = bs" "length bs \<le> 65536" "buf_cap s (out_buf x) = 65536"
    and work: "buf_bytes s (work_buf x) = got" "buf_cap s (work_buf x) = 32768" and left: "0 < malloc_left s"
  shows "part_follows do_work s i 1 (message_part n (got @ bs)) (collect_and_work do_work (jc_stream c) i s)"
proof -
  let ?p = "jc_stream c" and ?x = "counted n (length (got @ bs)) x"
  have m: "mem_ok s" "stream_ok s ?p x" using ok i(2) by (simp_all add: table_ok_def slot_rep_def)
  have "length got \<le> 32768" using n by simp
  from collect_data_ok [OF m w x n(1) this out(1,2) work left, of i]
  obtain s1 where s1: "collect_data ?p i s = Inr (if length (got @ bs) = n then 1 else 0, s1)" "evolves s s1 ?p x ?x"
    "buf_bytes s1 (out_buf x) = []" "buf_cap s1 (out_buf x) = buf_cap s (out_buf x)" "buf_bytes s1 (work_buf x) = got @ bs"
    "malloc_left s \<le> malloc_left s1 + 1"
    "length (got @ bs) \<le> 32768 \<longrightarrow> buf_cap s1 (work_buf x) = 32768 \<and> malloc_left s1 = malloc_left s" by blast
  note e = evolves_stays [OF ok i s1(2)]
  have m1: "mem_ok s1" "stream_ok s1 ?p ?x" using s1(2) by (simp_all add: evolves_def)
  show ?thesis
  proof (cases "length (got @ bs) = n")
    case True
    have bo: "buf_ok s1 (work_buf x)" using m1(2) w by (auto simp: stream_ok_def stream_bufs_def)
    obtain B where B: "bufs s1 (work_buf x) = Some B" "get_buf (work_buf x) s1 = Inr B" using buf_ok_get [OF bo] by blast
    have "sint (word_of_int (int n) :: 32 word) = int n" using n(1) by (intro sint_word32) simp_all
    then have len: "nat (sint (word_of_int (data_recved ?x) :: 32 word)) = n" using True by (simp del: length_append)
    have "mem_load (buffer B) 0 n s1 = Inr (got @ bs)"
      using buf_load [OF m1(1) bo B(1), of n] s1(5) True by simp
    moreover obtain s2 where s2: "close_stream (Some i)
        (s1\<lparr>world := do_work (got @ bs) (world s1), g_qps := g_qps s1 + 1\<rparr>) = Inr s2"
      "ended do_work s1 s2 i (Some (got @ bs))" "malloc_left s2 = malloc_left s1" using close_after_work [OF e(2-4)] by blast
    moreover have "collect_data ?p i s = Inr (1, s1)" using s1(1) True by (simp del: length_append)
    ultimately have "collect_and_work do_work ?p i s = Inr (True, s2)"
      using get_stream_ok [OF m1(2)] B(2) len by (simp add: collect_and_work_def del: length_append)
    moreover have "message_part n (got @ bs) = Job (got @ bs)" using True by (simp add: message_part_def del: length_append)
    ultimately show ?thesis using stays_ended [OF e(1) s2(2)] s2(3) s1(6) by (simp add: part_follows_def)
  next
    case False
    let ?u = "if length (got @ bs) < n then Receiving n (got @ bs) else Overrun"
    have "collect_and_work do_work ?p i s = Inr (False, s1)"
      using s1(1) False by (simp add: collect_and_work_def del: length_append)
    moreover have "message_part n (got @ bs) = More ?u" using False by (simp add: message_part_def del: length_append)
    moreover have "progress s1 ?x ?u"
      using x(3) w s1(5,7) n False by (simp add: progress_def del: length_append)
    then have "session_at s1 i ?u"
      using e(3,4) s1(3,4) out(3) unfolding session_at_def by (intro conjI exI [of _ c] exI [of _ ?x]) simp_all
    moreover have "malloc_left s + memory_for ?u \<le> malloc_left s1 + 1" using s1(6,7) n by (simp del: length_append)
    ultimately show ?thesis using e(1) by (auto simp: part_follows_def)
  qed
qed

section \<open>The machine is what the handler does\<close>

lemma buf_pick_left: "buf_pick b n s = Inr s' \<Longrightarrow> malloc_left s' = malloc_left s"
  by (auto simp: buf_pick_def Let_def res_simps set_buf_def dest!: mem_store_left split: if_splits)

lemma still_there:
  fixes s :: "('w, 'z) server_state_scheme"
  assumes "table_ok s" and "i \<in> active s" and "slot_rep s i c x" and "buf_cap s (out_buf x) = 65536" and "progress s x u"
    and "buf_bytes s (out_buf x) \<noteq> [] \<longleftrightarrow> u = Jammed" and "memory_for u \<le> n"
  shows "part_follows do_work s i n (More u) (Inr (False, s))"
proof -
  have "stays s s i" using assms(1,2) by (simp add: stays_def others_same_def slot_same_refl)
  moreover have "session_at s i u" using assms(2-6) unfolding session_at_def by blast
  ultimately show ?thesis using assms(7) by (simp add: part_follows_def)
qed

lemma first_bytes:
  fixes s :: "('w, 'z) server_state_scheme"
  assumes ok: "table_ok s" and i: "i \<in> active s" "slot_rep s i c x" and x: "progress s x Waiting"
    and out: "buf_bytes s (out_buf x) = bs" "length bs \<le> 65536" "buf_cap s (out_buf x) = 65536" "8 \<le> length bs"
    and left: "3 \<le> malloc_left s"
  shows "part_follows do_work s i 3 (server_spec Waiting (Some bs)) (receive_data do_work (jc_stream c) i s)"
proof -
  let ?p = "jc_stream c" and ?b = "out_buf x" and ?len = "load64 (take 8 bs)"
  have m: "mem_ok s" "stream_ok s ?p x" using ok i(2) by (simp_all add: table_ok_def slot_rep_def)
  have xs: "reply_body_size_left x = 0" "data_recved x = 0" "work_buf x = Null" using x by (simp_all add: progress_def)
  have mem: "?b \<in> set (stream_bufs x)" by (simp add: stream_bufs_def)
  have b: "buf_ok s ?b" by (rule stream_ok_bufs [OF m(2)])
  obtain B where B: "bufs s ?b = Some B" "get_buf ?b s = Inr B" using buf_ok_get [OF b] by blast
  obtain k where k: "buf_data_size ?b s = Inr k" "unat k = length bs" using buf_data_size_ok [OF b] out(1) by auto
  have ge: "\<not> k < 8" using k(2) out(4) by (simp add: word_less_nat_alt)
  have ld: "mem_load (buffer B) 0 8 s = Inr (take 8 bs)" using buf_load [OF m(1) b B(1)] out(1,4) by simp
  have ne: "bs \<noteq> []" "\<not> length bs < 8" using out(4) by auto
  have bad: "?len > LOG_MAX_LEN \<or> ?len = 0 \<longleftrightarrow> unat ?len = 0 \<or> 32768 < unat ?len"
    by (auto simp: word_less_nat_alt unat_eq_0)
  have spec: "server_spec Waiting (Some bs) = (if unat ?len = 0 \<or> 32768 < unat ?len then Reject
      else message_part (unat ?len) (drop 8 bs))" using ne by (simp add: Let_def)
  have run: "receive_data do_work ?p i s =
      (if ?len > LOG_MAX_LEN \<or> ?len = 0
       then bindE (clear_space ?b s) (\<lambda>s. bindE (close_stream (Some i) s) (\<lambda>s. Inr (True, s)))
       else bindE (buf_pick ?b 8 (set_stream ?p (x\<lparr>reply_body_size_left := sint ?len, content_len := sint ?len\<rparr>) s)) (\<lambda>s.
            bindE (alloc_work_buff ?p s) (\<lambda>s.
            if sint ?len > 0 then collect_and_work do_work ?p i s else Inr (False, s))))"
    unfolding receive_data_def get_stream_ok [OF m(2)] bindE_Inr k(1) xs(1) using ge B(2) ld by (simp add: Let_def)
  show ?thesis
  proof (cases "unat ?len = 0 \<or> 32768 < unat ?len")
    case True
    obtain s1 where s1: "clear_space ?b s = Inr s1" "buf_step s s1 ?b" using clear_space_ok [OF m(1) b] by blast
    note e = evolves_stays [OF ok i evolves_buf(1) [OF m mem s1(2)]]
    obtain s2 where "close_stream (Some i) s1 = Inr s2" "ended do_work s1 s2 i None" "malloc_left s2 = malloc_left s1"
      using close_ended [OF e(2-4)] by blast
    moreover have "malloc_left s1 = malloc_left s"
      using s1(1) by (auto simp: clear_space_def res_simps set_buf_def dest!: mem_store_left)
    ultimately show ?thesis
      using True stays_ended [OF e(1)] s1(1) unfolding spec run bad by (simp add: part_follows_def)
  next
    case False
    define n where "n = unat ?len"
    have n: "0 < n" "n \<le> 32768" using False by (simp_all add: n_def)
    have sl: "sint ?len = int n"
    proof -
      have "?len = word_of_int (int n)" unfolding n_def by simp
      then show ?thesis using sint_word [of "int n"] n(2) by simp
    qed
    let ?x1 = "x\<lparr>reply_body_size_left := int n, content_len := int n\<rparr>"
    let ?s1 = "set_stream ?p ?x1 s"
    have sb: "stream_bufs ?x1 = stream_bufs x" by (simp add: stream_bufs_def)
    have ok1: "mem_ok ?s1" "stream_ok ?s1 ?p ?x1" using m(1) stream_ok_set(1) [OF m(2) sb] by simp_all
    have e1: "evolves s ?s1 ?p x ?x1" by (rule evolves_set [OF m sb]) simp
    have "buf_ok ?s1 ?b" "unat (8 :: size_t) \<le> length (buf_bytes ?s1 ?b)" using b out(1,4) by simp_all
    from buf_pick_ok [OF ok1(1) this] obtain s2 where s2: "buf_pick ?b 8 ?s1 = Inr s2" "buf_step ?s1 s2 ?b"
      "buf_bytes s2 ?b = drop 8 bs" using out(1) by auto
    have mem1: "?b \<in> set (stream_bufs ?x1)" using mem sb by simp
    note e2 = evolves_buf(1) [OF ok1 mem1 s2(2)]
    have ok2: "mem_ok s2" "stream_ok s2 ?p ?x1" using e2 by (simp_all add: evolves_def)
    have l2: "malloc_left s2 = malloc_left s" using buf_pick_left [OF s2(1)] by simp
    have c2: "buf_cap s2 ?b = 65536" using buf_pick_cap [OF s2(1)] out(3) by (simp add: buf_cap_def)
    have "work_buf ?x1 = Null" "2 \<le> malloc_left s2" using xs(3) l2 left by simp_all
    from alloc_work_ok [OF ok2 this] obtain s3 w where s3: "alloc_work_buff ?p s2 = Inr s3"
      "evolves s2 s3 ?p ?x1 (?x1\<lparr>work_buf := w\<rparr>)" "w \<noteq> Null" "buf_bytes s3 w = []" "buf_cap s3 w = 32768"
      "malloc_left s2 - 2 \<le> malloc_left s3"
      "\<forall>b \<in> set (stream_bufs ?x1). buf_bytes s3 b = buf_bytes s2 b \<and> buf_cap s3 b = buf_cap s2 b" by blast
    let ?x3 = "?x1\<lparr>work_buf := w\<rparr>"
    have "evolves s s3 ?p x ?x3" by (rule evolves_trans [OF e1 evolves_trans [OF e2 s3(2)]])
    note e = evolves_stays [OF ok i this]
    have out3: "buf_bytes s3 ?b = drop 8 bs" "buf_cap s3 ?b = 65536" using s3(7) mem1 s2(3) c2 by simp_all
    have pos: "0 < malloc_left s3" using s3(6) l2 left by linarith
    have "part_follows do_work s3 i 1 (message_part n ([] @ drop 8 bs)) (collect_and_work do_work ?p i s3)"
      using s3(3-5) n xs out3 out(2) pos by (intro collect_and_work_ok [OF e(2-4)]) simp_all
    moreover have "malloc_left s + 1 \<le> malloc_left s3 + 3" using s3(6) l2 by linarith
    ultimately have "part_follows do_work s i 3 (message_part n (drop 8 bs)) (collect_and_work do_work ?p i s3)"
      using stays_part [OF e(1)] by simp
    moreover have "receive_data do_work ?p i s = collect_and_work do_work ?p i s3"
      unfolding run bad using False s2(1) s3(1) n(1) by (simp add: sl)
    ultimately show ?thesis unfolding spec using False by (simp add: n_def)
  qed
qed

lemma receive_data_ok:
  fixes s :: "('w, 'z) server_state_scheme"
  assumes ok: "table_ok s" and i: "i \<in> active s" "slot_rep s i c x" and x: "progress s x u" and u: "u \<noteq> Jammed"
    and out: "buf_bytes s (out_buf x) = bs" "length bs \<le> 65536" "buf_cap s (out_buf x) = 65536"
    and left: "memory_for u \<le> malloc_left s"
  shows "part_follows do_work s i (memory_for u) (server_spec u (Some bs)) (receive_data do_work (jc_stream c) i s)"
proof -
  let ?p = "jc_stream c" and ?b = "out_buf x"
  have m: "mem_ok s" "stream_ok s ?p x" using ok i(2) by (simp_all add: table_ok_def slot_rep_def)
  note gs = get_stream_ok [OF m(2)]
  note there = still_there [OF ok i out(3)]
  show ?thesis
  proof (cases u)
    case Waiting
    have left0: "reply_body_size_left x = 0" using x Waiting by (simp add: progress_def)
    have b: "buf_ok s ?b" by (rule stream_ok_bufs [OF m(2)])
    obtain k where k: "buf_data_size ?b s = Inr k" "unat k = length bs" using buf_data_size_ok [OF b] out(1) by auto
    show ?thesis
    proof (cases "length bs < 8")
      case True
      then have "k < 8" using k(2) by (simp add: word_less_nat_alt)
      then have run: "receive_data do_work ?p i s = Inr (False, s)" using gs left0 k(1) by (simp add: receive_data_def)
      have "progress s x Jammed" by (simp add: progress_def)
      then show ?thesis
        using there [of Waiting "memory_for u"] there [of Jammed "memory_for u"] x Waiting out(1) left True unfolding run by (cases "bs = []") simp_all
    next
      case False
      then show ?thesis using first_bytes [OF ok i _ out] x left Waiting by simp
    qed
  next
    case (Receiving n got)
    have xs: "data_recved x = int (length got)" "reply_body_size_left x = int n - int (length got)" "content_len x = int n"
      "length got < n" "n \<le> 32768" "work_buf x \<noteq> Null" "buf_bytes s (work_buf x) = got" "buf_cap s (work_buf x) = 32768"
      using x Receiving by (simp_all add: progress_def)
    have "receive_data do_work ?p i s = collect_and_work do_work ?p i s"
      using gs xs(2,4) by (simp add: receive_data_def)
    moreover have "0 < malloc_left s" using left Receiving by simp
    ultimately show ?thesis using collect_and_work_ok [OF ok i xs(6,1-3,5,4) out xs(7,8)] Receiving by simp
  next
    case Overrun
    have neg: "reply_body_size_left x < 0" using x Overrun by (simp add: progress_def)
    then have run: "receive_data do_work ?p i s = Inr (False, s)" using gs by (simp add: receive_data_def)
    have "progress s x Jammed" by (simp add: progress_def)
    then show ?thesis
      using there [of Overrun "memory_for u"] there [of Jammed "memory_for u"] x Overrun out(1) unfolding run by (cases "bs = []") simp_all
  next
    case Jammed
    then show ?thesis using u by simp
  qed
qed

lemma in_out_session:
  assumes ok: "table_ok s" and at: "session_at s i u"
  shows "\<exists>s'. set_stream_event_in_out i s = Inr s' \<and> stays s s' i \<and> session_at s' i u \<and> malloc_left s' = malloc_left s"
proof -
  obtain c x where i: "i \<in> active s" "slot_rep s i c x" and x: "buf_cap s (out_buf x) = 65536" "progress s x u"
    "buf_bytes s (out_buf x) \<noteq> [] \<longleftrightarrow> u = Jammed" using at unfolding session_at_def by blast
  have m: "mem_ok s" "stream_ok s (jc_stream c) x" using ok i(2) by (simp_all add: table_ok_def slot_rep_def)
  note len = active_less [OF ok i(1)] and g = slot_rep_stream [OF i(2) m(1)]
  have r: "0 \<le> server_sock x" "interest s (slot_fd s i) \<noteq> None" using i(2) by (auto simp: slot_rep_def)
  obtain B1 B2 where b: "get_buf (in_buf x) s = Inr B1" "get_buf (out_buf x) s = Inr B2"
    using stream_ok_bufs [OF m(2)] buf_ok_get by blast
  obtain w where w: "set_stream_event_in_out i s = eventadd w (Some i) s"
    using get_ev_ok len g b r(1) by (fastforce simp: set_stream_event_in_out_def buf_free_space_def buf_data_size_def Let_def)
  let ?s = "rereg i (call_back (g_events s ! i)) w s"
  have run: "set_stream_event_in_out i s = Inr ?s" unfolding w using eventadd_active(1) len r(2) by blast
  note st = rereg_step [OF ok i, of "call_back (g_events s ! i)" w]
  have "stays s ?s i" using step_others [OF ok st(1)] st(2) len by (simp add: stays_def)
  moreover have "buf_bytes ?s = buf_bytes s" by (rule bufs_cong; simp)
  then have "session_at ?s i u"
    using st(2,3) x unfolding session_at_def
    by (intro conjI exI [of _ c] exI [of _ x]) (simp_all add: progress_def buf_cap_def split: session.splits)
  ultimately show ?thesis using run by auto
qed

lemma server_read_ok:
  fixes s :: "('w, 'z) server_state_scheme"
  assumes ok: "table_ok s" and i: "i \<in> active s" "slot_rep s i c x" and x: "buf_cap s (out_buf x) = 65536" "progress s x u"
    and out: "buf_bytes s (out_buf x) = []" and u: "u \<noteq> Jammed" and left: "memory_for u \<le> malloc_left s"
    and r: "read_env s = r # es" "r \<noteq> Error EINTR"
  shows "part_follows do_work s i (memory_for u) (server_spec u (arrives 65536 r)) (server_read do_work (jc_stream c) i s)"
proof -
  let ?p = "jc_stream c" and ?b = "out_buf x"
  have m: "mem_ok s" "stream_ok s ?p x" using ok i(2) by (simp_all add: table_ok_def slot_rep_def)
  have sock: "0 \<le> server_sock x" using i(2) by (simp add: slot_rep_def)
  have b: "buf_ok s ?b" by (rule stream_ok_bufs [OF m(2)])
  have room: "buf_room s ?b = 65536" using buf_cap_room [OF b] x(1) out by simp
  obtain k where k: "buf_data_size ?b s = Inr k" "unat k = 0" using buf_data_size_ok [OF b] out by auto
  have pos: "0 < buf_room s ?b" using room by simp
  obtain n s1 x1 where f: "stream_feed_out ?p s = Inr (n, s1)" "evolves s s1 ?p x x1" "stream_bufs x1 = stream_bufs x"
    "out_buf x1 = ?b" "work_buf x1 = work_buf x" "malloc_left s1 = malloc_left s" "buf_cap s1 = buf_cap s"
    "\<forall>b \<in> set (stream_bufs x). b \<noteq> ?b \<longrightarrow> buf_bytes s1 b = buf_bytes s b"
    "case arrives (buf_room s ?b) r of None \<Rightarrow> n = - 1 \<and> buf_bytes s1 ?b = buf_bytes s ?b
     | Some bs \<Rightarrow> n = int (length bs) \<and> x1 = x \<and> buf_bytes s1 ?b = buf_bytes s ?b @ bs"
    using feed_arrives [OF m sock pos r] by (elim exE conjE) (rule that; assumption)
  note e = evolves_stays [OF ok i f(2)]
  have m1: "mem_ok s1" "stream_ok s1 ?p x1" using f(2) by (simp_all add: evolves_def)
  have run: "server_read do_work ?p i s = (if n < 0
      then bindE (bindE (buf_data_size ?b s1) (\<lambda>k. if k = 0 then bindE (close_stream (Some i) s1) (\<lambda>s. Inr (True, s))
             else collect_and_work do_work ?p i s1)) (\<lambda>(returned, s).
           if returned then Inr (True, s) else bindE (end_data ?p s) (receive_data do_work ?p i))
      else bindE (end_data ?p s1) (receive_data do_work ?p i))"
    unfolding server_read_def get_stream_ok [OF m(2)] bindE_Inr k(1) using k(2) f(1) by (simp add: unat_eq_0)
  show ?thesis
  proof (cases "arrives 65536 r")
    case None
    have n: "n = - 1" "buf_bytes s1 ?b = []" using f(9) None out room by simp_all
    have "buf_ok s1 ?b" using stream_ok_bufs(2) [OF m1(2)] f(4) by simp
    then obtain k1 where k1: "buf_data_size ?b s1 = Inr k1" "k1 = 0"
      using buf_data_size_ok [of s1 ?b] n(2) by (auto simp: unat_eq_0)
    obtain s2 where s2: "close_stream (Some i) s1 = Inr s2" "ended do_work s1 s2 i None" "malloc_left s2 = malloc_left s1"
      using close_ended [OF e(2-4)] by blast
    have "server_read do_work ?p i s = Inr (True, s2)" unfolding run using n(1) k1 s2(1) by simp
    moreover have "server_spec u None = Reject" using u by (cases u) simp_all
    ultimately show ?thesis using None stays_ended [OF e(1) s2(2)] s2(3) f(6) by (simp add: part_follows_def)
  next
    case (Some bs)
    have n: "n = int (length bs)" "x1 = x" "buf_bytes s1 ?b = bs" using f(9) Some out room by simp_all
    have len: "length bs \<le> 65536" using Some by (cases r) (auto split: if_splits)
    obtain s2 where s2: "end_data ?p s1 = Inr s2" "evolves s1 s2 ?p x x" "bufs s2 = bufs s1" "malloc_left s2 = malloc_left s1"
      "\<forall>b \<in> set (stream_bufs x). buf_bytes s2 b = buf_bytes s1 b" using end_data_ok [OF m1(1)] m1(2) n(2) by metis
    note e2 = evolves_stays [OF ok i evolves_trans [OF f(2) s2(2) [folded n(2)]]]
    have cap: "buf_cap s2 = buf_cap s" using f(7) s2(3) by (simp add: fun_eq_iff buf_cap_def)
    have out2: "buf_bytes s2 ?b = bs" using s2(5) n(3) by (simp add: stream_bufs_def)
    have work: "buf_bytes s2 (work_buf x) = buf_bytes s (work_buf x)" if "work_buf x \<noteq> Null"
    proof -
      have "work_buf x \<in> set (stream_bufs x)" "work_buf x \<noteq> ?b"
        using that m(2) by (auto simp: stream_bufs_def stream_ok_def)
      then show ?thesis using f(8) s2(5) by simp
    qed
    then have "progress s2 x u" using x(2) cap by (auto simp: progress_def split: session.splits)
    then have "part_follows do_work s2 i (memory_for u) (server_spec u (Some bs)) (receive_data do_work ?p i s2)"
      using receive_data_ok [OF e2(2,3) _ _ u out2 len] e2(4) cap x(1) f(6) s2(4) left n(2) by simp
    moreover have "server_read do_work ?p i s = receive_data do_work ?p i s2" unfolding run using n(1) s2(1) by simp
    ultimately show ?thesis using stays_part [OF e2(1)] Some s2(4) f(6) by simp
  qed
qed

text \<open>The read and what follows it in the handler.\<close>

lemma read_follows:
  fixes s :: "('w, 'z) server_state_scheme"
  assumes ok: "table_ok s" and at: "session_at s i u" and left: "memory_for u \<le> malloc_left s"
    and i: "slot_rep s i c x" and r: "read_env s = r # es" "r \<noteq> Error EINTR"
  shows "follows do_work s i (memory_for u) (server_spec u (arrives 65536 r))
    (bindE (server_read do_work (jc_stream c) i s) (\<lambda>(returned, s).
       if returned then Inr s else set_stream_event_in_out i s))"
proof -
  note a = session_at_rep(1) [OF at i] and x = session_at_rep(2-4) [OF at i]
  have m: "mem_ok s" "stream_ok s (jc_stream c) x" using ok i by (simp_all add: table_ok_def slot_rep_def)
  note g = slot_rep_stream [OF i m(1)]
  show ?thesis
  proof (cases "u = Jammed")
    case True
    have b: "buf_ok s (out_buf x)" by (rule stream_ok_bufs [OF m(2)])
    obtain k where k: "buf_data_size (out_buf x) s = Inr k" "unat k \<noteq> 0" using buf_data_size_ok [OF b] x(3) True by auto
    have "k \<noteq> 0" using k(2) by auto
    then have "server_read do_work (jc_stream c) i s = Inl Assertion" using k(1) g(2) by (simp add: server_read_def)
    then show ?thesis using True by (simp add: follows_def)
  next
    case False
    have out: "buf_bytes s (out_buf x) = []" using x(3) False by blast
    have p: "part_follows do_work s i (memory_for u) (server_spec u (arrives 65536 r)) (server_read do_work (jc_stream c) i s)"
      by (rule server_read_ok [OF ok a i x(1,2) out False left r])
    show ?thesis
    proof (cases "server_spec u (arrives 65536 r)")
      case (More u')
      obtain s1 where s1: "server_read do_work (jc_stream c) i s = Inr (False, s1)" "stays s s1 i" "session_at s1 i u'"
        "malloc_left s + memory_for u' \<le> malloc_left s1 + memory_for u" using p More by (auto simp: part_follows_def)
      have "table_ok s1" using s1(2) by (simp add: stays_def others_same_def)
      from in_out_session [OF this s1(3)] obtain s2 where "set_stream_event_in_out i s1 = Inr s2" "stays s1 s2 i"
        "session_at s2 i u'" "malloc_left s2 = malloc_left s1" by blast
      then show ?thesis using s1 More stays_trans by (auto simp: follows_def)
    next
      case Crash
      then show ?thesis using p by (simp add: part_follows_def)
    next
      case Reject
      then show ?thesis using p by (auto simp: part_follows_def follows_def)
    next
      case (Job msg)
      then show ?thesis using p by (auto simp: part_follows_def follows_def)
    qed
  qed
qed

lemma server_follows:
  fixes s :: "('w, 'z) server_state_scheme"
  assumes ok: "table_ok s" and at: "session_at s i u" and left: "memory_for u \<le> malloc_left s"
    and r: "read_env s = r # es" "r \<noteq> Error EINTR"
  shows "follows do_work s i (memory_for u) (server_spec u (arrives 65536 r))
    (server_data_transfer do_work (slot_fd s i) True False i s)"
proof -
  obtain c x where i: "i \<in> active s" "slot_rep s i c x" using at unfolding session_at_def by blast
  have m: "mem_ok s" using ok by (simp add: table_ok_def)
  note len = active_less [OF ok i(1)] and g = slot_rep_stream [OF i(2) m]
  have "server_sock x = slot_fd s i" using i(2) by (simp add: slot_rep_def)
  then have "server_data_transfer do_work (slot_fd s i) True False i s =
      bindE (server_read do_work (jc_stream c) i s) (\<lambda>(returned, s).
      if returned then Inr s else set_stream_event_in_out i s)"
    using len g by (simp add: server_data_transfer_def get_ev_ok Let_def)
  then show ?thesis using read_follows [OF ok at left i(2) r] by simp
qed

section \<open>Several events\<close>

text \<open>An event of the slot \<open>i\<close> that finds something to read, given what the \<open>read\<close> finds.\<close>

definition next_read ::
  "(byte list \<Rightarrow> 'w \<Rightarrow> 'w) \<Rightarrow> int \<Rightarrow> nat \<Rightarrow> byte list outcome \<Rightarrow> ('w, 'z) server_state_scheme \<Rightarrow>
     ('w, 'z) server_state_scheme res" where
  "next_read do_work fd i r s = server_data_transfer do_work fd True False i (s\<lparr>read_env := [r]\<rparr>)"

definition receive_events ::
  "(byte list \<Rightarrow> 'w \<Rightarrow> 'w) \<Rightarrow> int \<Rightarrow> nat \<Rightarrow> byte list outcome list \<Rightarrow> ('w, 'z) server_state_scheme \<Rightarrow>
     ('w, 'z) server_state_scheme res" where
  "receive_events do_work fd i = each (next_read do_work fd i)"

text \<open>Where the connection of a slot is, with the memory that its next events need.\<close>

definition waits_at :: "int \<Rightarrow> nat \<Rightarrow> 'z event_state_scheme \<Rightarrow> session \<Rightarrow> bool" where
  "waits_at fd i s u \<longleftrightarrow> table_ok s \<and> session_at s i u \<and> memory_for u \<le> malloc_left s \<and> slot_fd s i = fd"

lemma load64_le64: "load64 (le64 w) = w"
proof -
  have step: "push_bit 8 (drop_bit (8 * Suc k) w) OR ucast (ucast (drop_bit (8 * k) w) :: byte) = drop_bit (8 * k) w" for k
  proof (rule bit_word_eqI)
    fix n assume "n < LENGTH(64)"
    have "bit (drop_bit (8 * k) w) n = bit w (8 * k + n)" by (simp add: bit_simps)
    moreover have "8 * Suc k + (n - 8) = 8 * k + n" if "8 \<le> n" using that by simp
    ultimately show "bit (push_bit 8 (drop_bit (8 * Suc k) w) OR ucast (ucast (drop_bit (8 * k) w) :: byte)) n =
        bit (drop_bit (8 * k) w) n"
      using \<open>n < LENGTH(64)\<close> bit_imp_le_length [of w "8 * k + n"] by (cases "8 \<le> n") (auto simp: bit_simps)
  qed
  have "load64 (map (\<lambda>i. ucast (drop_bit (8 * i) w)) [k..<8]) = drop_bit (8 * k) w" if "k \<le> 8" for k
    using that
  proof (induction "8 - k" arbitrary: k)
    case 0
    have "drop_bit 64 w = 0" by (intro bit_word_eqI) (auto simp: bit_simps dest: bit_imp_le_length)
    then show ?case using 0 by simp
  next
    case (Suc d)
    have "k < 8" "d = 8 - Suc k" "Suc k \<le> 8" using Suc.hyps(2) by simp_all
    then show ?case using Suc.hyps(1) [of "Suc k"] step [of k] by (simp add: upt_conv_Cons)
  qed
  from this [of 0] show ?thesis by (simp add: le64_def)
qed

text \<open>
  What can be said of any handler that follows the machine: \<open>at s u\<close> says that the connection is
  in the state \<open>u\<close>, \<open>event\<close> handles an event with what its read finds, \<open>goes\<close> and \<open>ends\<close> relate the
  states before and after.
\<close>

locale frame_server =
  fixes at :: "'s \<Rightarrow> session \<Rightarrow> bool"
    and event :: "byte list outcome \<Rightarrow> 's \<Rightarrow> 's res"
    and goes :: "'s \<Rightarrow> 's \<Rightarrow> bool"
    and ends :: "'s \<Rightarrow> 's \<Rightarrow> byte list option \<Rightarrow> bool"
  assumes crash: "at s u \<Longrightarrow> r \<noteq> Error EINTR \<Longrightarrow> server_spec u (arrives 65536 r) = Crash \<Longrightarrow> event r s = Inl Assertion"
    and more: "at s u \<Longrightarrow> r \<noteq> Error EINTR \<Longrightarrow> server_spec u (arrives 65536 r) = More u' \<Longrightarrow>
      \<exists>s'. event r s = Inr s' \<and> goes s s' \<and> at s' u'"
    and reject: "at s u \<Longrightarrow> r \<noteq> Error EINTR \<Longrightarrow> server_spec u (arrives 65536 r) = Reject \<Longrightarrow>
      \<exists>s'. event r s = Inr s' \<and> ends s s' None"
    and job: "at s u \<Longrightarrow> r \<noteq> Error EINTR \<Longrightarrow> server_spec u (arrives 65536 r) = Job m \<Longrightarrow>
      \<exists>s'. event r s = Inr s' \<and> ends s s' (Some m)"
    and goes_ends: "goes s s1 \<Longrightarrow> ends s1 s2 j \<Longrightarrow> ends s s2 j"
begin

lemma Done_read: "Done c \<noteq> (Error EINTR :: byte list outcome)"
  by simp

text \<open>A part of the message arrives.\<close>

lemma part:
  assumes at: "at s u" and spec: "server_spec u (arrives 65536 (Done c)) = message_part (length m) got"
    and m: "got @ concat cs = m" "[] \<notin> set cs"
  shows "(\<exists>s'. event (Done c) s = Inr s' \<and> ends s s' (Some m) \<and> cs = []) \<or>
    (\<exists>s'. event (Done c) s = Inr s' \<and> goes s s' \<and> at s' (Receiving (length m) got) \<and> length got < length m)"
proof (cases "length got = length m")
  case True
  then have e: "got = m" "concat cs = []" using m(1) by auto
  then have "cs = []" using m(2) by (cases cs) auto
  then show ?thesis using job [OF at Done_read, of c m] spec e(1) by (auto simp: message_part_def)
next
  case False
  then have "length got < length m" using m(1) by auto
  then show ?thesis using more [OF at Done_read, of c "Receiving (length m) got"] spec by (auto simp: message_part_def)
qed

lemma rest:
  assumes "at s (Receiving (length m) got)" and "length got < length m"
    and "got @ concat cs = m" and "\<forall>c \<in> set cs. c \<noteq> [] \<and> length c \<le> 65536"
  shows "\<exists>s'. each event (map Done cs) s = Inr s' \<and> ends s s' (Some m)"
  using assms
proof (induction cs arbitrary: s got)
  case (Cons c cs)
  have "server_spec (Receiving (length m) got) (arrives 65536 (Done c)) = message_part (length m) (got @ c)"
    using Cons.prems(4) by simp
  from part [OF Cons.prems(1) this, of cs] Cons.prems(3,4)
  consider s' where "event (Done c) s = Inr s'" "ends s s' (Some m)" "cs = []"
    | s' where "event (Done c) s = Inr s'" "goes s s'" "at s' (Receiving (length m) (got @ c))" "length (got @ c) < length m"
    by fastforce
  then show ?case
  proof cases
    case (2 s')
    then obtain s2 where "each event (map Done cs) s' = Inr s2" "ends s' s2 (Some m)"
      using Cons.IH [of s' "got @ c"] Cons.prems(3,4) by auto
    then show ?thesis using 2(1) goes_ends [OF 2(2)] by auto
  qed auto
qed simp

text \<open>A whole frame, in any pieces of which the first has the length.\<close>

lemma message:
  assumes at: "at s Waiting" and m: "0 < length m" "length m \<le> 32768"
    and cs: "concat cs = le64 (of_nat (length m)) @ m"
    and parts: "8 \<le> length (hd cs)" "\<forall>c \<in> set cs. c \<noteq> [] \<and> length c \<le> 65536"
  shows "\<exists>s'. each event (map Done cs) s = Inr s' \<and> ends s s' (Some m)"
proof -
  have "cs \<noteq> []" using cs by (cases cs) (auto dest: arg_cong [of _ _ length])
  then obtain c ds where c: "cs = c # ds" by (cases cs) auto
  have c8: "8 \<le> length c" "c \<noteq> []" "length c \<le> 65536" using parts c by auto
  have e: "c @ concat ds = le64 (of_nat (length m)) @ m" using cs c by simp
  have head: "take 8 c = le64 (of_nat (length m))" "drop 8 c @ concat ds = m"
    using arg_cong [OF e, of "take 8"] arg_cong [OF e, of "drop 8"] c8(1) by simp_all
  have un: "unat (of_nat (length m) :: 64 word) = length m" using m(2) by (simp add: unsigned_of_nat take_bit_nat_eq_self)
  have "server_spec Waiting (arrives 65536 (Done c)) = message_part (length m) (drop 8 c)"
    using c8 m head(1) load64_le64 un by (simp add: Let_def)
  from part [OF at this head(2)] parts(2) c
  consider s' where "event (Done c) s = Inr s'" "ends s s' (Some m)" "ds = []"
    | s' where "event (Done c) s = Inr s'" "goes s s'" "at s' (Receiving (length m) (drop 8 c))" "length (drop 8 c) < length m"
    by fastforce
  then show ?thesis
  proof cases
    case (2 s')
    obtain s2 where "each event (map Done ds) s' = Inr s2" "ends s' s2 (Some m)"
      using rest [OF 2(3,4) head(2)] parts(2) c by auto
    then show ?thesis using 2(1) goes_ends [OF 2(2)] c by auto
  qed (use c in auto)
qed

text \<open>A length that is cut, and more bytes than announced.\<close>

lemma split_header:
  assumes at: "at s Waiting" and c: "0 < length c" "length c < 8" and r: "r \<noteq> Error EINTR"
  shows "each event [Done c, r] s = Inl Assertion"
proof -
  have "server_spec Waiting (arrives 65536 (Done c)) = More Jammed" using c by (cases c) auto
  from more [OF at Done_read this] obtain s1 where s1: "event (Done c) s = Inr s1" "at s1 Jammed" by blast
  have "server_spec Jammed (arrives 65536 r) = Crash" by simp
  from crash [OF s1(2) r this] show ?thesis using s1(1) by simp
qed

lemma overrun:
  assumes at: "at s Waiting" and c: "length c \<le> 65536" "0 < load64 (take 8 c)" "unat (load64 (take 8 c)) \<le> 32768"
      "unat (load64 (take 8 c)) + 8 < length c"
    and d: "d \<noteq> []" and r: "r \<noteq> Error EINTR"
  shows "each event [Done c, Done d, r] s = Inl Assertion"
proof -
  have c0: "unat (load64 (take 8 c)) \<noteq> 0" using c(2) by (simp add: unat_gt_0 word_gt_0)
  have cn: "c \<noteq> []" "8 \<le> length c" using c(4) by auto
  have lt: "unat (load64 (take 8 c)) < length (drop 8 c)" using c(4) by simp
  have "server_spec Waiting (arrives 65536 (Done c)) = More Overrun"
    using cn c(1,3) c0 lt by (simp add: Let_def message_part_def del: length_drop)
  from more [OF at Done_read this] obtain s1 where s1: "event (Done c) s = Inr s1" "at s1 Overrun" by blast
  have "server_spec Overrun (arrives 65536 (Done d)) = More Jammed" using d by simp
  from more [OF s1(2) Done_read this] obtain s2 where s2: "event (Done d) s1 = Inr s2" "at s2 Jammed" by blast
  have "server_spec Jammed (arrives 65536 r) = Crash" by simp
  from crash [OF s2(2) r this] show ?thesis using s1(1) s2(1) by simp
qed

end

lemma next_read_follows:
  fixes s :: "('w, 'z) server_state_scheme"
  assumes at: "waits_at fd i s u" and r: "r \<noteq> Error EINTR"
  shows "follows do_work s i (memory_for u) (server_spec u (arrives 65536 r)) (next_read do_work fd i r s)"
proof -
  let ?s = "s\<lparr>read_env := [r]\<rparr>"
  have w: "table_ok s" "session_at s i u" "memory_for u \<le> malloc_left s" "slot_fd s i = fd"
    using at by (simp_all add: waits_at_def)
  have f: "bufs ?s = bufs s" "streams ?s = streams s" "jconns ?s = jconns s" "g_events ?s = g_events s"
    "interest ?s = interest s" by simp_all
  note c = table_cong [OF env_upd_mem(7-9) f]
  have ok': "table_ok ?s" using w(1) c(4) by simp
  have "progress ?s x u = progress s x u" "buf_cap ?s b = buf_cap s b" for x b
    by (simp_all add: progress_def buf_cap_def split: session.splits)
  then have at': "session_at ?s i u" using w(2) c(1,3) by (simp add: session_at_def)
  have "stays s ?s i" using ok' c(1,2) w(2) by (simp add: stays_def others_same_def session_at_def)
  moreover have "follows do_work ?s i (memory_for u) (server_spec u (arrives 65536 r))
      (server_data_transfer do_work (slot_fd ?s i) True False i ?s)"
    using w(3) r by (intro server_follows [OF ok' at']) simp_all
  ultimately show ?thesis using stays_follows w(4) unfolding next_read_def by fastforce
qed

lemma stays_waits: "waits_at fd i s v \<Longrightarrow> stays s s' i \<Longrightarrow> session_at s' i u \<Longrightarrow> memory_for u \<le> malloc_left s' \<Longrightarrow> waits_at fd i s' u"
  by (simp add: waits_at_def stays_def others_same_def)

interpretation srv: frame_server "waits_at fd i" "next_read do_work fd i" "\<lambda>s s'. stays s s' i"
  "\<lambda>s s'. ended do_work s s' i"
  for do_work :: "byte list \<Rightarrow> 'w \<Rightarrow> 'w" and fd i
proof (unfold_locales, goal_cases)
  case (1 s u r)
  then show ?case using next_read_follows [OF 1(1,2), of do_work] by (simp add: follows_def)
next
  case (2 s u r u')
  have "memory_for u \<le> malloc_left s" using 2(1) by (simp add: waits_at_def)
  then show ?case using next_read_follows [OF 2(1,2), of do_work] stays_waits [OF 2(1)] 2(3) by (fastforce simp: follows_def)
next
  case (3 s u r)
  then show ?case using next_read_follows [OF 3(1,2), of do_work] by (auto simp: follows_def)
next
  case (4 s u r m)
  then show ?case using next_read_follows [OF 4(1,2), of do_work] by (auto simp: follows_def)
next
  case (5 s s1 s2 j)
  then show ?case by (rule stays_ended)
qed

end
