(* ===== verification/Delivery.thy ===== *)
theory Delivery
  imports Receive
begin

text \<open>
  Properties of the server of \<open>server.c\<close> and of the client and the server together: the handler
  implements the machine of \<open>Receive\<close>, a message arrives however it is cut into pieces, and
  what makes the server abort.
\<close>

section \<open>A server with one connection\<close>

lemma stream_create_waits:
  assumes run: "stream_create sock s = Inr (p, s')"
  shows "\<exists>x. streams s' p = Some x \<and> progress s' x Waiting \<and> buf_cap s' (out_buf x) = 65536"
proof -
  have cap: "buf_cap t b = unat cap" if "buf_new m1 m2 cap s0 = Inr (b, t)" for m1 m2 cap b and s0 t :: "'a stream_state_scheme"
    using that by (auto simp: buf_new_def Let_def buf_cap_def res_simps)
  obtain s1 b s2 B s3 c s4 where "buf_new ''http_stream_out_buf'' ''http_stream_out_buf_data_4'' mid_http_buf_size s3 = Inr (c, s4)"
    and s': "s' = set_stream p \<lparr>data_start = clock s4 div 1000, data_in = 0, data_out = 0, data_begin = clock s4,
        client_sock = 0, server_sock = sock, in_buf = b, out_buf = c, reply_body_size_left = 0, work_buf = Null,
        data_recved = 0, content_len = 0, server_closed = False\<rparr> s4"
    using run by (auto simp: stream_create_def res_simps)
  note cap [OF this(1)]
  then show ?thesis using s' by (simp add: progress_def buf_cap_def)
qed

text \<open>A process that has set up its table and has nothing open.\<close>

definition server_fields :: "byte list list server_state" where
  "server_fields = server_state.make boot_node (\<lambda>_. None) [] 0 0 (\<lambda>_. None)
     ((\<lambda>_. None)(g_jconnect \<mapsto> \<lparr>nxt = g_jconnect, prev = g_jconnect\<rparr>)) (\<lambda>_. None)
     \<lparr>max_connects = 10, max_alive_times = 60, max_txn = 100, current_total = 0\<rparr> [] (\<lambda>_. None) [] [] [] 0
     (replicate (MAX_EVENTS + 1) blank_event) (\<lambda>_. None) [] [] [] [] 0 []"

lemma more_fields:
  fixes s s' :: "'w server_state"
  assumes "mem_state.more s' = mem_state.more s"
  shows "clinks s' = clinks s" "jconns s' = jconns s" "interest s' = interest s" "g_events s' = g_events s"
    "closed_fds s' = closed_fds s" "world s' = world s" "g_qps s' = g_qps s"
  using assms by (cases s; cases s'; simp)+

lemma boot_server:
  "\<exists>s :: byte list list server_state. client_ok s \<and> malloc_left s = n \<and> active s = {} \<and> interest s = (\<lambda>_. None) \<and>
    jconns s = (\<lambda>_. None) \<and> clinks s (Heap 0) = None \<and> closed_fds s = [] \<and> world s = [] \<and> g_qps s = 0 \<and>
    (\<forall>i < MAX_EVENTS. ev_status (g_events s ! i) = 0)"
proof -
  obtain s :: "byte list list server_state" where s: "mem_rep s (\<lambda>_. [])" "malloc_left s = n"
    "mem_state.more s = mem_state.more server_fields"
    using boot_mem_init [of n "mem_state.more server_fields"] by auto
  note f = more_fields [OF s(3)]
  have sel: "clinks s = (\<lambda>_. None)(g_jconnect \<mapsto> \<lparr>nxt = g_jconnect, prev = g_jconnect\<rparr>)" "jconns s = (\<lambda>_. None)"
    "interest s = (\<lambda>_. None)" "g_events s = replicate (MAX_EVENTS + 1) blank_event" "closed_fds s = []" "world s = []" "g_qps s = 0"
    by (simp_all add: f server_fields_def server_state.defs)
  have m: "mem_ok s" "live s = {}" using mem_rep_init_ok [OF s(1)] by simp_all
  have "i < 1024 \<Longrightarrow> replicate 1025 blank_event ! i = blank_event" for i by (rule nth_replicate) simp
  then have free: "ev_status (g_events s ! i) = 0" if "i < MAX_EVENTS" for i
    using that unfolding sel by (simp add: blank_event_def)
  then have act: "active s = {}" by (auto simp: active_def)
  have "table_ok s" using m act sel by (simp add: table_ok_def slot_blocks_def)
  moreover have "conn_ok s []" using sel by (simp add: conn_ok_def dlist_def link_iff)
  ultimately have "client_ok s" using act sel by (simp add: client_ok_def)
  then show ?thesis using s(2) act sel free by (intro exI [of _ s]) simp
qed

text \<open>What \<open>do_work\<close> does in the examples: it notes the message.\<close>

abbreviation (input) note_work :: "byte list \<Rightarrow> byte list list \<Rightarrow> byte list list" where
  "note_work m w \<equiv> w @ [m]"

lemma waiting_server:
  "\<exists>s :: byte list list server_state. table_ok s \<and> session_at s 0 Waiting \<and> 3 \<le> malloc_left s \<and> active s = {0} \<and>
    slot_fd s 0 = 7 \<and> world s = [] \<and> g_qps s = 0 \<and> closed_fds s = []"
proof -
  obtain s :: "byte list list server_state" where s: "client_ok s" "malloc_left s = 9" "active s = {}"
    "interest s = (\<lambda>_. None)" "jconns s = (\<lambda>_. None)" "clinks s (Heap 0) = None" "closed_fds s = []" "world s = []" "g_qps s = 0"
    "ev_status (g_events s ! 0) = 0" using boot_server [of 9] by auto
  let ?c = "junk_conn\<lparr>jc_fd := 7\<rparr>" and ?n = "\<lparr>nxt = Null, prev = Null\<rparr>"
  define s1 where "s1 = set_conn (Heap 0) ?c (s\<lparr>clinks := (clinks s)(Heap 0 \<mapsto> ?n)\<rparr>)"
  have "client_ok s1" "active s1 = active s"
    using client_new_conn [OF s(1), of "Heap 0" s1 ?c ?n] s(5,6) by (simp_all add: s1_def)
  moreover have sel: "jconns s1 (Heap 0) = Some ?c" "interest s1 = (\<lambda>_. None)" "malloc_left s1 = 9"
    "g_events s1 = g_events s" "event_state.more s1 = event_state.more s" "closed_fds s1 = []"
    using s(2,4,5,7) by (simp_all add: s1_def set_conn_def)
  ultimately have ok1: "client_ok s1" "active s1 = {}" using s(3) by simp_all
  have m: "mem_ok s1" using ok1(1) by (simp add: client_ok_def table_ok_def)
  obtain q s2 where run: "stream_create 7 s1 = Inr (q, s2)" using stream_create_total [OF m, of 7] sel(3) by auto
  obtain x where x: "created s1 s2 q x" "server_sock x = 7" "buf_bytes s2 (out_buf x) = []" "4 \<le> malloc_left s2"
    using stream_create_returns [OF m run] sel(3) by auto
  obtain y where y: "streams s2 q = Some y" "progress s2 y Waiting" "buf_cap s2 (out_buf y) = 65536"
    using stream_create_waits [OF run] by blast
  have "streams s2 q = Some x" using x(1) by (simp add: created_def stream_ok_def)
  then have y: "progress s2 x Waiting" "buf_cap s2 (out_buf x) = 65536" using y by simp_all
  let ?s = "fill 0 (Heap 0) ?c q s2"
  have "ev_status (g_events s1 ! 0) = 0" using s(10) sel(4) by simp
  note f = fill_step [OF ok1(1) sel(1), of s2 q x 0, OF _ _ _ _ x(1) _ _ this]
  have f1: "client_ok ?s" "active ?s = {0}" "slot_rep ?s 0 (?c\<lparr>jc_stream := q\<rparr>) x"
    using f(1-3) ok1(2) sel(2) x(2) by simp_all
  have t: "table_ok ?s" using f1(1) by (simp add: client_ok_def)
  have "buf_bytes ?s = buf_bytes s2" by (rule bufs_cong; simp)
  then have "session_at ?s 0 Waiting"
    using f1(2,3) x(3) y unfolding session_at_def
    by (intro conjI exI [of _ "?c\<lparr>jc_stream := q\<rparr>"] exI [of _ x]) (simp_all add: progress_def buf_cap_def)
  moreover have "event_state.more s2 = event_state.more s1"
    using x(1) more_event(3) [of s2 s1] by (simp add: created_def)
  then have "event_state.more ?s = event_state.more s" using sel(5) by simp
  note w = more_server [OF this]
  have "slot_fd ?s 0 = 7" using f1(3) by (simp add: slot_rep_def)
  moreover have "closed_fds ?s = []" "malloc_left ?s = malloc_left s2"
    using x(1) sel(6) by (simp_all add: created_def fill_def)
  ultimately show ?thesis using t f1(2) w s(8,9) x(4) by (intro exI [of _ ?s]) simp
qed

section \<open>Properties\<close>

text \<open>
  C6. The server implements a small machine. A connection waits for a frame, has received a part
  of a message, has been sent too much, or is jammed. Whatever a read finds - bytes, nothing, the
  end or an error - the handler does what the machine says: it goes to the next state with every
  other slot as it was, hangs up (the stream is released and the descriptor closed once), hangs up after
  calling \<open>do_work\<close> once with the whole message, or fails its assertion. It needs memory for the buffer of
  the message.
\<close>
theorem server_implements_machine:
  fixes s :: "('w, 'z) server_state_scheme"
  assumes "table_ok s" and "session_at s i u" and "memory_for u \<le> malloc_left s"
    and "read_env s = r # es" and "r \<noteq> Error EINTR"
  shows "case server_spec u (arrives 65536 r) of
      Crash \<Rightarrow> server_data_transfer do_work (slot_fd s i) True False i s = Inl Assertion
    | More u' \<Rightarrow> \<exists>s'. server_data_transfer do_work (slot_fd s i) True False i s = Inr s' \<and> stays s s' i \<and>
        session_at s' i u' \<and> memory_for u' \<le> malloc_left s'
    | Reject \<Rightarrow> \<exists>s'. server_data_transfer do_work (slot_fd s i) True False i s = Inr s' \<and> hung_up s s' i \<and>
        world s' = world s \<and> g_qps s' = g_qps s
    | Job m \<Rightarrow> \<exists>s'. server_data_transfer do_work (slot_fd s i) True False i s = Inr s' \<and> hung_up s s' i \<and>
        world s' = do_work m (world s) \<and> g_qps s' = g_qps s + 1"
  using server_follows [OF assms, of do_work] assms(3) by (auto simp: follows_def ended_def split: reaction.splits)

theorem server_implements_machine_witness:
  "\<exists>(s :: byte list list server_state) s'. session_at s 0 Waiting \<and> read_env s = [Done ([3, 0, 0, 0, 0, 0, 0, 0] @ [104, 105, 33])] \<and>
    server_data_transfer note_work 7 True False 0 s = Inr s' \<and> world s' = [[104, 105, 33]] \<and> g_qps s' = 1 \<and> closed_fds s' = [7]"
proof -
  obtain s :: "byte list list server_state" where s: "table_ok s" "session_at s 0 Waiting" "3 \<le> malloc_left s"
    "slot_fd s 0 = 7" "world s = []" "g_qps s = 0" "closed_fds s = []" using waiting_server by blast
  let ?m = "[3, 0, 0, 0, 0, 0, 0, 0] @ [104, 105, 33] :: byte list"
  let ?s = "s\<lparr>read_env := [Done ?m]\<rparr>"
  have f: "bufs ?s = bufs s" "streams ?s = streams s" "jconns ?s = jconns s" "g_events ?s = g_events s"
    "interest ?s = interest s" by simp_all
  note c = table_cong [OF env_upd_mem(7-9) f]
  have "progress ?s x u = progress s x u" "buf_cap ?s b = buf_cap s b" for x b u
    by (simp_all add: progress_def buf_cap_def split: session.splits)
  then have at: "table_ok ?s" "session_at ?s 0 Waiting" using s(1,2) c(1,3,4) by (simp_all add: session_at_def)
  have spec: "server_spec Waiting (arrives 65536 (Done ?m)) = Job [104, 105, 33]"
    by (simp add: message_part_def)
  have "memory_for Waiting \<le> malloc_left ?s" "Done ?m \<noteq> (Error EINTR :: byte list outcome)" using s(3) by simp_all
  from server_implements_machine [OF at this(1) _ this(2), of "[]" note_work, unfolded spec] obtain s' where
    "server_data_transfer note_work (slot_fd ?s 0) True False 0 ?s = Inr s'" "hung_up ?s s' 0" "world s' = world ?s @ [[104, 105, 33]]"
    "g_qps s' = g_qps ?s + 1" by auto
  then show ?thesis using at(2) s(4-7) by (intro exI [of _ ?s] exI [of _ s']) (simp add: hung_up_def)
qed

text \<open>
  C10. A message arrives. When the peer of a waiting connection sends the length of a message of 1 to
  32768 bytes in eight bytes and then the message, in any pieces of which the first has the whole
  length, \<open>do_work\<close> is called once, with exactly the message, the counter of the requests goes up
  by one, the descriptor is closed once, and every other slot is as it was.
\<close>
theorem server_receives_message:
  fixes s :: "('w, 'z) server_state_scheme"
  assumes "table_ok s" and "session_at s i Waiting" and "3 \<le> malloc_left s"
    and "0 < length m" and "length m \<le> 32768" and "concat cs = le64 (of_nat (length m)) @ m"
    and "8 \<le> length (hd cs)" and "\<forall>c \<in> set cs. c \<noteq> [] \<and> length c \<le> 65536"
  shows "\<exists>s'. receive_events do_work (slot_fd s i) i (map Done cs) s = Inr s' \<and> world s' = do_work m (world s) \<and>
    g_qps s' = g_qps s + 1 \<and> closed_fds s' = closed_fds s @ [slot_fd s i] \<and> active s' = active s - {i} \<and>
    table_ok s' \<and> (\<forall>j \<in> active s - {i}. slot_same s s' j)"
proof -
  have "waits_at (slot_fd s i) i s Waiting" using assms(1-3) by (simp add: waits_at_def)
  from srv.message [OF this assms(4-8), of do_work] show ?thesis
    by (fastforce simp: receive_events_def ended_def hung_up_def others_same_def)
qed

theorem server_receives_message_witness:
  "\<exists>(s :: byte list list server_state) s'. session_at s 0 Waiting \<and>
    receive_events note_work 7 0 (map Done [[5, 0, 0, 0, 0, 0, 0, 0, 104], [97], [108, 108, 111]]) s = Inr s' \<and>
    world s' = [[104, 97, 108, 108, 111]] \<and> closed_fds s' = [7] \<and> active s' = {}"
proof -
  obtain s :: "byte list list server_state" where s: "table_ok s" "session_at s 0 Waiting" "3 \<le> malloc_left s"
    "slot_fd s 0 = 7" "world s = []" "closed_fds s = []" "active s = {0}" using waiting_server by blast
  let ?m = "[104, 97, 108, 108, 111] :: byte list"
  have "le64 5 = [5, 0, 0, 0, 0, 0, 0, 0]" by code_simp
  then have "concat [[5, 0, 0, 0, 0, 0, 0, 0, 104], [97], [108, 108, 111]] = le64 (of_nat (length ?m)) @ ?m" by simp
  from server_receives_message [OF s(1-3) _ _ this, of note_work] obtain s' where
    "receive_events note_work 7 0 (map Done [[5, 0, 0, 0, 0, 0, 0, 0, 104], [97], [108, 108, 111]]) s = Inr s'"
    "world s' = [?m]" "closed_fds s' = [7]" "active s' = {}" using s(4-7) by (auto simp del: list.map)
  then show ?thesis using s(2) by blast
qed



text \<open>
  C9. From the client to the server. Under the conditions for a transaction of the client (memory, a
  connection, a peer that takes what it is sent) and for a waiting connection of the server, the
  bytes that leave the client, handed to the server in any pieces of which the first has at least
  eight bytes, make the server call \<open>do_work\<close> once with the first 512 bytes of the log entry and close the
  connection.
\<close>
theorem client_reaches_server:
  fixes s :: "'z client_state_scheme" and t :: "('w, 'y) server_state_scheme"
  assumes "client_ok s" and "room s" and "can_connect s p d"
    and "512 \<le> length (gather_logmsg e)" and "length (gather_logmsg e) < 2 ^ 63"
    and "length (inx_addr (ip e)) = 16" and "flag (ip e) = USE_IPV4"
    and "list_all willing (write_env s)" and "520 \<le> sum_list (map takes (write_env s))"
    and server: "table_ok t" "session_at t i Waiting" "3 \<le> malloc_left t"
  shows "\<exists>s1 k s2 chunks. create_transaction e s = Some (Inr s1) \<and>
    each dispatch [Ready k False True, Ready k False True] s1 = Inr s2 \<and> sent s2 = sent s @ map (Pair d) chunks \<and>
    (\<forall>cs. concat cs = concat chunks \<and> [] \<notin> set cs \<and> 8 \<le> length (hd cs) \<longrightarrow>
      (\<exists>t'. receive_events do_work (slot_fd t i) i (map Done cs) t = Inr t' \<and>
        world t' = do_work (take 512 (gather_logmsg e)) (world t) \<and> closed_fds t' = closed_fds t @ [slot_fd t i]))"
proof -
  let ?m = "take 512 (gather_logmsg e)"
  have len: "length ?m = 512" using assms(4) by simp
  have wait: "waits_at (slot_fd t i) i t Waiting" using server by (simp add: waits_at_def)
  obtain s1 k s2 chunks where s1: "create_transaction e s = Some (Inr s1)"
    "each dispatch [Ready k False True, Ready k False True] s1 = Inr s2" "sent s2 = sent s @ map (Pair d) chunks"
    "concat chunks = le64 512 @ ?m" using transaction_sends [OF assms(1-9)] by blast
  have "\<exists>t'. receive_events do_work (slot_fd t i) i (map Done cs) t = Inr t' \<and> world t' = do_work ?m (world t) \<and>
      closed_fds t' = closed_fds t @ [slot_fd t i]"
    if cs: "concat cs = concat chunks" "[] \<notin> set cs" "8 \<le> length (hd cs)" for cs
  proof -
    have c: "concat cs = le64 (of_nat (length ?m)) @ ?m" unfolding len cs(1) s1(4) by simp
    then have "length (concat cs) = 520" unfolding c length_append length_le64 len by simp
    then have "length c \<le> 520" if "c \<in> set cs" for c
      using member_le_sum_list [of "length c" "map length cs"] that by (simp add: length_concat)
    then have "\<forall>c \<in> set cs. c \<noteq> [] \<and> length c \<le> 65536" using cs(2) by fastforce
    moreover have "0 < length ?m" "length ?m \<le> 32768" unfolding len by simp_all
    ultimately obtain t' where "receive_events do_work (slot_fd t i) i (map Done cs) t = Inr t'"
      "ended do_work t t' i (Some ?m)" using srv.message [OF wait _ _ c cs(3), of do_work] unfolding receive_events_def by blast
    then show ?thesis by (auto simp: ended_def hung_up_def)
  qed
  then show ?thesis using s1(1-3) by blast
qed

theorem client_reaches_server_witness:
  "\<exists>(s :: client_state) (t :: byte list list server_state) s1 k s2 chunks. session_at t 0 Waiting \<and> world t = [] \<and>
    create_transaction test_entry s = Some (Inr s1) \<and>
    each dispatch [Ready k False True, Ready k False True] s1 = Inr s2 \<and> sent s2 = map (Pair 5) chunks \<and>
    (\<forall>cs. concat cs = concat chunks \<and> [] \<notin> set cs \<and> 8 \<le> length (hd cs) \<longrightarrow>
      (\<exists>t'. receive_events note_work 7 0 (map Done cs) t = Inr t' \<and> world t' = [replicate 512 0xAA] \<and> closed_fds t' = [7]))"
proof -
  let ?w = "[Done 600] :: nat outcome list"
  obtain s :: client_state where s: "client_ok s" "room s" "can_connect s (Heap 0) 5" "write_env s = ?w" "sent s = []"
    using boot_ready [of ?w] by blast
  obtain t :: "byte list list server_state" where t: "table_ok t" "session_at t 0 Waiting" "3 \<le> malloc_left t"
    "slot_fd t 0 = 7" "world t = []" "closed_fds t = []" using waiting_server by blast
  have w: "list_all willing (write_env s)" "520 \<le> sum_list (map takes (write_env s))"
    using s(4) by (simp_all add: willing_def takes_def)
  have e: "512 \<le> length (gather_logmsg test_entry)" "length (gather_logmsg test_entry) < 2 ^ 63"
    "length (inx_addr (ip test_entry)) = 16" "flag (ip test_entry) = USE_IPV4" by simp_all
  have m: "take 512 (gather_logmsg test_entry) = replicate 512 0xAA" by simp
  from client_reaches_server [OF s(1-3) e w t(1-3), of note_work, unfolded m t(4-6) s(5) append_Nil] t(2,5)
  show ?thesis by blast
qed

end
