(* ===== verification/Serving.thy ===== *)
theory Serving
  imports Delivery
begin

text \<open>
  The event loop of \<open>server.c\<close>: any number of connections at a time, whatever \<open>epoll_wait\<close>,
  \<open>accept\<close>, \<open>read\<close> and \<open>write\<close> answer. Each connection is a machine of \<open>Receive\<close>; the relation
  \<open>net_step\<close> says how a family of such machines evolves, and the loop is shown to implement it.
\<close>

section \<open>Any event of one connection\<close>

text \<open>Sending changes only what is to be sent.\<close>

lemma buf_pick_caps: "buf_pick b n s = Inr s' \<Longrightarrow> buf_cap s' = buf_cap s"
  by (auto simp: fun_eq_iff buf_pick_def get_buf_def buf_cap_def Let_def res_simps
      dest!: mem_store_bufs split: option.splits if_splits)

lemma flush_loop_caps:
  "flush_loop p cur t s = Inr (r, s') \<Longrightarrow> malloc_left s' = malloc_left s \<and> buf_cap s' = buf_cap s"
proof (induction "length (write_env s)" arbitrary: s cur t rule: less_induct)
  case less
  show ?case
  proof (cases "cur > 0")
    case False
    then show ?thesis using less.prems by (subst (asm) flush_loop.simps) simp
  next
    case True
    obtain x B bs o1 s1 where x: "get_stream p s = Inr x" "get_buf (in_buf x) s = Inr B"
      "mem_load (buffer B) 0 (nat cur) s = Inr bs" "sys_write (server_sock x) bs s = Inr (o1, s1)"
      and run: "(case o1 of
          Error e \<Rightarrow> (case e of EINTR \<Rightarrow> flush_loop p cur t s1 | EAGAIN \<Rightarrow> Inr (t, s1) | Other_error \<Rightarrow> Inr (- 1, s1))
        | Done n \<Rightarrow> if n = 0 then Inr (t, s1)
            else bindE (buf_pick (in_buf x) (of_nat n) s1) (\<lambda>s. flush_loop p (cur - int n) (t + int n) s)) = Inr (r, s')"
      using less.prems True by (subst (asm) flush_loop.simps) (auto simp: res_simps)
    have s1: "malloc_left s1 = malloc_left s" "buf_cap s1 = buf_cap s" "length (write_env s1) < length (write_env s)"
      using x(4) by (auto simp: sys_write_def Let_def fun_eq_iff buf_cap_def split: list.splits outcome.splits)
    show ?thesis
    proof (cases o1)
      case (Error e)
      then show ?thesis using run s1 less.hyps [OF s1(3)] by (cases e) auto
    next
      case (Done n)
      show ?thesis
      proof (cases "n = 0")
        case False
        obtain s2 where s2: "buf_pick (in_buf x) (of_nat n) s1 = Inr s2"
          "flush_loop p (cur - int n) (t + int n) s2 = Inr (r, s')"
          using run Done False by (auto simp: res_simps)
        have "write_env s2 = write_env s1" using more_stream(2) [OF buf_pick_more [OF s2(1)]] .
        then show ?thesis
          using less.hyps [OF _ s2(2)] s1 buf_pick_caps [OF s2(1)] buf_pick_left [OF s2(1)] by simp
      qed (use run Done s1 in auto)
    qed
  qed
qed

lemma flush_out_caps:
  "stream_flush_out p sz s = Inr (r, s') \<Longrightarrow> malloc_left s' = malloc_left s \<and> buf_cap s' = buf_cap s"
  using flush_loop_caps by (fastforce simp: stream_flush_out_def Let_def res_simps split: if_splits)

lemma flush_session:
  assumes ok: "table_ok s" and at: "session_at s i u" and i: "slot_rep s i c x"
  shows "stream_flush_out (jc_stream c) sz s = Inl Stuck \<or>
    (\<exists>r s'. stream_flush_out (jc_stream c) sz s = Inr (r, s') \<and> stays s s' i \<and> session_at s' i u \<and>
      slot_rep s' i c x \<and> malloc_left s' = malloc_left s)"
proof -
  note a = session_at_rep(1) [OF at i] and x = session_at_rep(2-4) [OF at i]
  have m: "mem_ok s" "stream_ok s (jc_stream c) x" using ok i by (simp_all add: table_ok_def slot_rep_def)
  note f = stream_flush_out_returns [OF m, of sz]
  show ?thesis
  proof (cases "stream_flush_out (jc_stream c) sz s")
    case (Inl e)
    then show ?thesis using f by simp
  next
    case (Inr q)
    obtain r s' where q: "q = (r, s')" by fastforce
    obtain k where fl: "flushed s s' (jc_stream c) x k" using f Inr q by auto
    then have fr: "mem_ok s'" "stream_ok s' (jc_stream c) x" "stream_frame s s' (jc_stream c) x"
      "\<forall>b \<in> set (stream_bufs x). b \<noteq> in_buf x \<longrightarrow> buf_bytes s' b = buf_bytes s b" by (simp_all add: flushed_def)
    note e = evolves_stays [OF ok a i evolves_frame [OF m(2) fr(1,2,3) refl refl]]
    have c: "malloc_left s' = malloc_left s" "buf_cap s' = buf_cap s" using flush_out_caps Inr q by blast+
    have "out_buf x \<noteq> in_buf x" by (rule stream_ok_neq [OF m(2)])
    then have out: "buf_bytes s' (out_buf x) = buf_bytes s (out_buf x)" using fr(4) by (simp add: stream_bufs_def)
    have work: "buf_bytes s' (work_buf x) = buf_bytes s (work_buf x)" if "work_buf x \<noteq> Null"
    proof -
      have "work_buf x \<in> set (stream_bufs x)" "work_buf x \<noteq> in_buf x"
        using that m(2) by (auto simp: stream_bufs_def stream_ok_def)
      then show ?thesis using fr(4) by simp
    qed
    have "progress s' x u" using x(2) c(2) work by (auto simp: progress_def split: session.splits)
    moreover have "buf_bytes s' (out_buf x) \<noteq> [] \<longleftrightarrow> u = Jammed" unfolding out by (rule x(3))
    ultimately have "session_at s' i u" using e(3,4) x(1) c(2) by (intro session_at_intro) simp_all
    then show ?thesis using Inr q e(1,4) c(1) by auto
  qed
qed

text \<open>An interrupted read is repeated.\<close>

lemma env_session:
  fixes s :: "('w, 'z) server_state_scheme"
  assumes "table_ok s" and "session_at s i u"
  shows "table_ok (s\<lparr>read_env := es\<rparr>)" and "session_at (s\<lparr>read_env := es\<rparr>) i u"
    and "stays s (s\<lparr>read_env := es\<rparr>) i" and "slot_rep (s\<lparr>read_env := es\<rparr>) = slot_rep s"
proof -
  let ?s = "s\<lparr>read_env := es\<rparr>"
  have f: "bufs ?s = bufs s" "streams ?s = streams s" "jconns ?s = jconns s" "g_events ?s = g_events s"
    "interest ?s = interest s" by simp_all
  note c = table_cong [OF env_upd_mem(7-9) f]
  show t: "table_ok ?s" using assms(1) c(4) by simp
  show "slot_rep ?s = slot_rep s" by (rule c)
  have "progress ?s x u = progress s x u" "buf_cap ?s b = buf_cap s b" for x b
    by (simp_all add: progress_def buf_cap_def split: session.splits)
  then show "session_at ?s i u" using assms(2) c(1,3) by (simp add: session_at_def)
  show "stays s ?s i" using t c(1,2) assms(2) by (simp add: stays_def others_same_def session_at_def)
qed

lemma feed_interrupted:
  assumes ok: "mem_ok s" "stream_ok s p x" and sock: "0 \<le> server_sock x" and room: "0 < buf_room s (out_buf x)"
    and r: "read_env s = Error EINTR # es"
  shows "stream_feed_out p s = stream_feed_out p (s\<lparr>read_env := es\<rparr>)"
proof -
  let ?s = "s\<lparr>read_env := es\<rparr>"
  have b: "buf_ok s (out_buf x)" by (rule stream_ok_bufs [OF ok(2)])
  obtain B where B: "get_buf (out_buf x) s = Inr B" using buf_ok_get [OF b] by blast
  obtain n where n: "buf_free_space (out_buf x) s = Inr n" "unat n = buf_room s (out_buf x)"
    using buf_free_space_ok [OF b] by blast
  have pos: "n > 0" using n(2) room by (simp add: word_gt_0 unat_gt_0 [symmetric])
  have "stream_ok ?s p x" using ok(2) by simp
  note gs = get_stream_ok [OF ok(2)] get_stream_ok [OF this]
  have "feed_loop p 0 s = feed_loop p 0 ?s"
    using gs n(1) pos B r by (subst feed_loop.simps) (simp add: buf_end_position_def sys_read_def)
  then show ?thesis using sock gs by (simp add: stream_feed_out_def)
qed

lemma read_interrupted:
  fixes s :: "('w, 'z) server_state_scheme"
  assumes ok: "table_ok s" and at: "session_at s i u" and i: "slot_rep s i c x" and u: "u \<noteq> Jammed"
    and r: "read_env s = Error EINTR # es"
  shows "server_read do_work (jc_stream c) i s = server_read do_work (jc_stream c) i (s\<lparr>read_env := es\<rparr>)"
proof -
  let ?p = "jc_stream c" and ?s = "s\<lparr>read_env := es\<rparr>"
  note x = session_at_rep [OF at i]
  have m: "mem_ok s" "stream_ok s ?p x" using ok i by (simp_all add: table_ok_def slot_rep_def)
  have m': "stream_ok ?s ?p x" using m(2) by simp
  have sock: "0 \<le> server_sock x" using i by (simp add: slot_rep_def)
  have b: "buf_ok s (out_buf x)" "buf_ok ?s (out_buf x)" by (rule stream_ok_bufs [OF m(2)], rule stream_ok_bufs [OF m'])
  have e: "buf_bytes s (out_buf x) = []" "buf_bytes ?s (out_buf x) = []" using x(4) u by simp_all
  have room: "0 < buf_room s (out_buf x)" using buf_cap_room [OF b(1)] x(2) e(1) by simp
  obtain k k' where k: "buf_data_size (out_buf x) s = Inr k" "buf_data_size (out_buf x) ?s = Inr k'" "k = k'"
    using buf_data_size_ok [OF b(1)] buf_data_size_ok [OF b(2)] e by (auto simp: unat_eq_0)
  show ?thesis
    using k feed_interrupted [OF m sock room r] get_stream_ok [OF m(2)] get_stream_ok [OF m']
    by (simp add: server_read_def)
qed

text \<open>What one event can make of a connection: what the machine says of a read, or no read at all.\<close>

inductive possible :: "session \<Rightarrow> reaction \<Rightarrow> bool" for u where
  reads: "possible u (server_spec u a)"
| leaves: "possible u (More u)"
| closes: "possible u Reject"

lemma jammed_aborts:
  assumes "session_at s i Jammed" and i: "slot_rep s i c x"
  shows "server_read do_work (jc_stream c) i s = Inl Assertion"
proof -
  have m: "stream_ok s (jc_stream c) x" using i by (simp add: slot_rep_def)
  have b: "buf_ok s (out_buf x)" by (rule stream_ok_bufs [OF m])
  obtain k where k: "buf_data_size (out_buf x) s = Inr k" "unat k = length (buf_bytes s (out_buf x))"
    using buf_data_size_ok [OF b] by blast
  have "k \<noteq> 0" using k(2) session_at_rep(4) [OF assms] by auto
  then show ?thesis using k get_stream_ok [OF m] by (simp add: server_read_def)
qed

lemma nothing_to_read:
  fixes s :: "('w, 'z) server_state_scheme"
  assumes at: "session_at s i u" and i: "slot_rep s i c x" and u: "u \<noteq> Jammed" and r: "read_env s = []"
  shows "server_read do_work (jc_stream c) i s = Inl Stuck"
proof -
  note x = session_at_rep [OF at i]
  have m: "stream_ok s (jc_stream c) x" using i by (simp add: slot_rep_def)
  have b: "buf_ok s (out_buf x)" by (rule stream_ok_bufs [OF m])
  have sock: "0 \<le> server_sock x" using i by (simp add: slot_rep_def)
  have e: "buf_bytes s (out_buf x) = []" using x(4) u by simp
  obtain k where k: "buf_data_size (out_buf x) s = Inr k" "unat k = 0" using buf_data_size_ok [OF b] e by auto
  obtain n where n: "buf_free_space (out_buf x) s = Inr n" "unat n = 65536"
    using buf_free_space_ok [OF b] buf_cap_room [OF b] x(2) e by auto
  have "n > 0" using n(2) by (simp add: word_gt_0 unat_gt_0 [symmetric])
  then have "stream_feed_out (jc_stream c) s = Inl Stuck"
    using get_stream_ok [OF m] sock n(1) r buf_ok_get [OF b]
    by (auto simp: stream_feed_out_def feed_loop.simps [of "jc_stream c" 0 s] buf_end_position_def sys_read_def)
  then show ?thesis using k get_stream_ok [OF m] by (simp add: server_read_def unat_eq_0)
qed

lemma read_outcome:
  fixes s :: "('w, 'z) server_state_scheme" and do_work :: "byte list \<Rightarrow> 'w \<Rightarrow> 'w"
  assumes "table_ok s" and "session_at s i u" and "memory_for u \<le> malloc_left s" and "slot_rep s i c x"
  defines "out \<equiv> \<lambda>s :: ('w, 'z) server_state_scheme. bindE (server_read do_work (jc_stream c) i s) (\<lambda>(returned, s).
       if returned then Inr s else set_stream_event_in_out i s)"
  shows "out s = Inl Stuck \<or> (\<exists>a. possible u a \<and> follows do_work s i (memory_for u) a (out s))"
proof (cases "u = Jammed")
  case True
  then have "out s = Inl Assertion" using jammed_aborts [OF _ assms(4), of do_work] assms(2) by (simp add: out_def)
  then have "follows do_work s i (memory_for u) (server_spec u None) (out s)" using True by (simp add: follows_def)
  then show ?thesis using possible.reads by blast
next
  case False
  show ?thesis using assms(1-4)
  proof (induction "read_env s" arbitrary: s)
    case Nil
    then show ?case using nothing_to_read [OF Nil.prems(2,4) False] by (simp add: out_def)
  next
    case (Cons r es)
    show ?case
    proof (cases "r = Error EINTR")
      case True
      let ?s = "s\<lparr>read_env := es\<rparr>"
      note env = env_session [OF Cons.prems(1,2), of es]
      have run: "out s = out ?s"
        using read_interrupted [OF Cons.prems(1,2,4) False, of es] True Cons.hyps(2) by (simp add: out_def)
      have "out ?s = Inl Stuck \<or> (\<exists>a. possible u a \<and> follows do_work ?s i (memory_for u) a (out ?s))"
        using Cons.prems(3,4) env by (intro Cons.hyps(1)) simp_all
      then show ?thesis using stays_follows [OF env(3)] run by fastforce
    next
      case ne: False
      have "follows do_work s i (memory_for u) (server_spec u (arrives 65536 r)) (out s)"
        using read_follows [OF Cons.prems(1-4) Cons.hyps(2) [symmetric] ne] unfolding out_def .
      then show ?thesis using possible.reads by blast
    qed
  qed
qed

lemma transfer_outcome:
  fixes s :: "('w, 'z) server_state_scheme"
  assumes ok: "table_ok s" and at: "session_at s i u" and left: "memory_for u \<le> malloc_left s"
  shows "server_data_transfer do_work (slot_fd s i) re we i s = Inl Stuck \<or>
    (\<exists>a. possible u a \<and> follows do_work s i (memory_for u) a (server_data_transfer do_work (slot_fd s i) re we i s))"
proof -
  let ?out = "server_data_transfer do_work (slot_fd s i) re we i s"
  obtain c x where i: "i \<in> active s" "slot_rep s i c x" using at unfolding session_at_def by blast
  let ?p = "jc_stream c"
  let ?rest = "\<lambda>s. bindE (if re then server_read do_work ?p i s else Inr (False, s)) (\<lambda>(returned, s).
      if returned then Inr s else set_stream_event_in_out i s)"
  have m: "mem_ok s" using ok by (simp add: table_ok_def)
  note len = active_less [OF ok i(1)] and g = slot_rep_stream [OF i(2) m]
  have sock: "server_sock x = slot_fd s i" using i(2) by (simp add: slot_rep_def)
  have run: "?out = (if \<not> re \<and> \<not> we then close_stream (Some i) s
      else if we then bindE (stream_flush_out ?p (- 1) s) (\<lambda>(r, s).
        if r < 0 then close_stream (Some i) s else ?rest s)
      else ?rest s)"
    using len g sock
    by (auto simp: server_data_transfer_def get_ev_ok Let_def bindE_assoc intro!: arg_cong [of _ _ "bindE _"])
  have close: "\<exists>a. possible u a \<and> follows do_work t i (memory_for u) a (close_stream (Some i) t)"
    if "table_ok t" "i \<in> active t" "slot_rep t i c x" for t :: "('w, 'z) server_state_scheme"
  proof -
    have "follows do_work t i (memory_for u) Reject (close_stream (Some i) t)"
      using close_ended [OF that, of do_work] by (auto simp: follows_def)
    then show ?thesis using possible.closes by blast
  qed
  have rest: "?rest t = Inl Stuck \<or> (\<exists>a. possible u a \<and> follows do_work t i (memory_for u) a (?rest t))"
    if t: "table_ok t" "session_at t i u" "memory_for u \<le> malloc_left t" "slot_rep t i c x"
    for t :: "('w, 'z) server_state_scheme"
  proof (cases re)
    case True
    then show ?thesis using read_outcome [OF t, of do_work] by simp
  next
    case False
    have "follows do_work t i (memory_for u) (More u) (?rest t)"
      using in_out_session [OF t(1,2)] False by (auto simp: follows_def)
    then show ?thesis using possible.leaves by blast
  qed
  show ?thesis
  proof (cases "we \<and> stream_flush_out ?p (- 1) s \<noteq> Inl Stuck")
    case False
    then show ?thesis using close [OF ok i] rest [OF ok at left i(2)] by (auto simp: run)
  next
    case True
    then obtain r s1 where s1: "stream_flush_out ?p (- 1) s = Inr (r, s1)" "stays s s1 i" "session_at s1 i u"
      "slot_rep s1 i c x" "malloc_left s1 = malloc_left s" using flush_session [OF ok at i(2), of "- 1"] by blast
    have t1: "table_ok s1" "i \<in> active s1" using s1(2) by (simp_all add: stays_def others_same_def)
    have "?out = (if r < 0 then close_stream (Some i) s1 else ?rest s1)" unfolding run using True s1(1) by simp
    moreover have "memory_for u \<le> malloc_left s1" using left s1(5) by simp
    ultimately have "?out = Inl Stuck \<or> (\<exists>a. possible u a \<and> follows do_work s1 i (memory_for u) a ?out)"
      using close [OF t1 s1(4)] rest [OF t1(1) s1(3) _ s1(4)] by (cases "r < 0") simp_all
    then show ?thesis using stays_follows [OF s1(2)] s1(5) by fastforce
  qed
qed

section \<open>Many connections\<close>

text \<open>
  The abstract server: the machines of the slots in use, and the messages that have been worked on,
  in order. A connection may be closed at any time, by the peer, an error, the timeout or a
  length that is out of range.
\<close>

type_synonym net = "(nat \<Rightarrow> session option) \<times> byte list list"

inductive net_step :: "net \<Rightarrow> net \<Rightarrow> bool" where
  opens: "k < MAX_EVENTS \<Longrightarrow> \<sigma> k = None \<Longrightarrow> net_step (\<sigma>, js) (\<sigma>(k \<mapsto> Waiting), js)"
| reads: "\<sigma> k = Some u \<Longrightarrow> server_spec u a = More v \<Longrightarrow> net_step (\<sigma>, js) (\<sigma>(k \<mapsto> v), js)"
| works: "\<sigma> k = Some u \<Longrightarrow> server_spec u a = Job m \<Longrightarrow> net_step (\<sigma>, js) (\<sigma>(k := None), js @ [m])"
| closes: "\<sigma> k = Some u \<Longrightarrow> net_step (\<sigma>, js) (\<sigma>(k := None), js)"

inductive_cases net_stepE: "net_step (\<sigma>, js) n"

text \<open>
  In every state that can be reached, a message that is being received is shorter than announced,
  and all work is on messages of 1 to 32768 bytes.
\<close>

definition net_ok :: "net \<Rightarrow> bool" where
  "net_ok n \<longleftrightarrow> (\<forall>k len got. fst n k = Some (Receiving len got) \<longrightarrow> length got < len \<and> len \<le> 32768) \<and>
     (\<forall>m \<in> set (snd n). 0 < length m \<and> length m \<le> 32768)"

lemma message_part_ok:
  assumes "0 < len" and "len \<le> 32768"
  shows "message_part len got = More (Receiving len' got') \<Longrightarrow> length got' < len' \<and> len' \<le> 32768"
    and "message_part len got = Job m \<Longrightarrow> 0 < length m \<and> length m \<le> 32768"
  using assms by (auto simp: message_part_def split: if_splits)

lemma spec_ok:
  assumes "\<forall>len got. u = Receiving len got \<longrightarrow> length got < len \<and> len \<le> 32768"
  shows "server_spec u a = More (Receiving len got) \<Longrightarrow> length got < len \<and> len \<le> 32768"
    and "server_spec u a = Job m \<Longrightarrow> 0 < length m \<and> length m \<le> 32768"
proof -
  have part: "\<exists>len got. 0 < len \<and> len \<le> 32768 \<and> server_spec u a = message_part len got"
    if "\<exists>len got. server_spec u a = More (Receiving len got) \<or> server_spec u a = Job got"
  proof (cases a)
    case None
    then show ?thesis using that by (cases u) auto
  next
    case (Some bs)
    show ?thesis
    proof (cases u)
      case Waiting
      let ?n = "unat (load64 (take 8 bs))"
      have "server_spec u a = message_part ?n (drop 8 bs)" "0 < ?n" "?n \<le> 32768"
        using that Waiting Some by (auto simp: Let_def simp del: neq0_conv split: if_splits)
      then show ?thesis by blast
    next
      case (Receiving len got)
      then have "0 < len" "len \<le> 32768" using assms by auto
      then show ?thesis using Receiving Some by auto
    qed (use that Some in \<open>auto split: if_splits\<close>)
  qed
  show "server_spec u a = More (Receiving len got) \<Longrightarrow> length got < len \<and> len \<le> 32768"
    "server_spec u a = Job m \<Longrightarrow> 0 < length m \<and> length m \<le> 32768"
    using part message_part_ok by metis+
qed

lemma net_step_ok: "net_step n n' \<Longrightarrow> net_ok n \<Longrightarrow> net_ok n'"
proof (induction rule: net_step.induct)
  case (reads \<sigma> k u a v js)
  have "\<forall>len got. u = Receiving len got \<longrightarrow> length got < len \<and> len \<le> 32768"
    using reads(1,3) by (auto simp: net_ok_def)
  from spec_ok(1) [OF this] reads show ?case by (auto simp: net_ok_def)
next
  case (works \<sigma> k u a m js)
  have "\<forall>len got. u = Receiving len got \<longrightarrow> length got < len \<and> len \<le> 32768"
    using works(1,3) by (auto simp: net_ok_def)
  from spec_ok(2) [OF this works(2)] works(3) show ?case by (auto simp: net_ok_def)
qed (auto simp: net_ok_def)

lemma net_steps_ok: "net_step\<^sup>*\<^sup>* n n' \<Longrightarrow> net_ok n \<Longrightarrow> net_ok n'"
  by (induction rule: rtranclp_induct) (auto intro: net_step_ok)

section \<open>The table implements the abstract server\<close>

text \<open>Who is listening is called back by \<open>accept_conn\<close>.\<close>

definition serving :: "'z event_state_scheme \<Rightarrow> (nat \<Rightarrow> session option) \<Rightarrow> bool" where
  "serving s \<sigma> \<longleftrightarrow> table_ok s \<and> dom \<sigma> = active s \<and>
     (\<forall>i u. \<sigma> i = Some u \<longrightarrow>
        session_at s i u \<and> call_back (g_events s ! i) = Data_transfer \<and> ev_arg (g_events s ! i) = i) \<and>
     (\<forall>d w. interest s d = Some (w, Ptr MAX_EVENTS) \<longrightarrow> call_back (g_events s ! MAX_EVENTS) = Accept_conn)"

text \<open>The blocks that the connections, those to come included, may still ask \<open>malloc\<close> for.\<close>

definition memory_due :: "(nat \<Rightarrow> session option) \<Rightarrow> nat" where
  "memory_due \<sigma> = (\<Sum>i \<in> dom \<sigma>. memory_for (the (\<sigma> i)))"

definition implements :: "(byte list \<Rightarrow> 'w \<Rightarrow> 'w) \<Rightarrow> 'w \<Rightarrow> net \<Rightarrow> ('w, 'z) server_state_scheme \<Rightarrow> bool" where
  "implements do_work w n s \<longleftrightarrow> serving s (fst n) \<and> world s = fold do_work (snd n) w \<and>
     memory_due (fst n) + 8 * length (accept_env s) \<le> malloc_left s"

text \<open>
  A part of the loop has run from where the abstract server was in \<open>n\<close>. It waits for the outside
  world, or an assertion has failed because of a jammed connection, or it has done steps of the
  abstract server.
\<close>

definition runs :: "(byte list \<Rightarrow> 'w \<Rightarrow> 'w) \<Rightarrow> 'w \<Rightarrow> net \<Rightarrow> ('w, 'z) server_state_scheme res \<Rightarrow> bool" where
  "runs do_work w n out \<longleftrightarrow> (case out of
      Inl f \<Rightarrow> f = Stuck \<or> f = Assertion \<and> (\<exists>n' i. net_step\<^sup>*\<^sup>* n n' \<and> fst n' i = Some Jammed)
    | Inr s \<Rightarrow> \<exists>n'. net_step\<^sup>*\<^sup>* n n' \<and> implements do_work w n' s)"

lemma runs_refl: "implements do_work w n s \<Longrightarrow> runs do_work w n (Inr s)"
  unfolding runs_def by (simp only: sum.case) blast

lemma runs_trans: "net_step\<^sup>*\<^sup>* n n' \<Longrightarrow> runs do_work w n' out \<Longrightarrow> runs do_work w n out"
  unfolding runs_def by (fastforce split: sum.splits intro: rtranclp_trans)

lemma runs_step: "net_step n n' \<Longrightarrow> implements do_work w n' s \<Longrightarrow> runs do_work w n (Inr s)"
  by (rule runs_trans [OF r_into_rtranclp runs_refl])

lemma memory_due_upd:
  assumes "finite (dom \<sigma>)"
  shows "\<sigma> i = Some u \<Longrightarrow> memory_due (\<sigma>(i \<mapsto> v)) + memory_for u = memory_due \<sigma> + memory_for v"
    and "\<sigma> i = Some u \<Longrightarrow> memory_due (\<sigma>(i := None)) + memory_for u = memory_due \<sigma>"
    and "\<sigma> i = None \<Longrightarrow> memory_due (\<sigma>(i \<mapsto> v)) = memory_due \<sigma> + memory_for v"
proof -
  let ?rest = "\<Sum>j \<in> dom \<sigma> - {i}. memory_for (the (\<sigma> j))"
  have fin: "finite (dom \<sigma> - {i})" using assms by simp
  have same: "(\<Sum>j \<in> dom \<sigma> - {i}. memory_for (the ((\<sigma>(i := x)) j))) = ?rest" for x by (intro sum.cong) auto
  have d: "dom (\<sigma>(i \<mapsto> v)) = insert i (dom \<sigma> - {i})" by auto
  have "memory_due (\<sigma>(i \<mapsto> v)) = memory_for (the ((\<sigma>(i \<mapsto> v)) i)) +
      (\<Sum>j \<in> dom \<sigma> - {i}. memory_for (the ((\<sigma>(i \<mapsto> v)) j)))"
    unfolding memory_due_def d using fin by (intro sum.insert) auto
  then have new: "memory_due (\<sigma>(i \<mapsto> v)) = memory_for v + ?rest" unfolding same by simp
  have none: "memory_due (\<sigma>(i := None)) = ?rest" using same [of None] by (simp add: memory_due_def)
  have old: "memory_due \<sigma> = memory_for u + ?rest" if "\<sigma> i = Some u" for u
  proof -
    have "i \<in> dom \<sigma>" using that by auto
    then show ?thesis using sum.remove [OF assms, of i "\<lambda>j. memory_for (the (\<sigma> j))"] that by (simp add: memory_due_def)
  qed
  show "\<sigma> i = Some u \<Longrightarrow> memory_due (\<sigma>(i \<mapsto> v)) + memory_for u = memory_due \<sigma> + memory_for v"
    "\<sigma> i = Some u \<Longrightarrow> memory_due (\<sigma>(i := None)) + memory_for u = memory_due \<sigma>" using new none old by simp_all
  assume "\<sigma> i = None"
  then have "dom \<sigma> - {i} = dom \<sigma>" by auto
  then show "memory_due (\<sigma>(i \<mapsto> v)) = memory_due \<sigma> + memory_for v" using new by (simp add: memory_due_def)
qed

text \<open>A connection that a step leaves alone stays in its state.\<close>

lemma session_other:
  assumes same: "slot_same s s' j" and at: "session_at s j u" and a: "j \<in> active s'"
  shows "session_at s' j u" and "g_events s' ! j = g_events s ! j"
proof -
  obtain c x where i: "slot_rep s j c x" using at unfolding session_at_def by blast
  note x = session_at_rep [OF at i]
  have r: "slot_rep s' j c x" "\<forall>b \<in> set (stream_bufs x). bufs s' b = bufs s b \<and> buf_bytes s' b = buf_bytes s b"
    using same i unfolding slot_same_def by blast+
  have out: "out_buf x \<in> set (stream_bufs x)" by (simp add: stream_bufs_def)
  have work: "work_buf x \<noteq> Null \<Longrightarrow> work_buf x \<in> set (stream_bufs x)" by (simp add: stream_bufs_def)
  have cap: "buf_cap s' b = buf_cap s b" if "b \<in> set (stream_bufs x)" for b using r(2) that by (simp add: buf_cap_def)
  have "progress s' x u" using x(3) r(2) work cap by (auto simp: progress_def split: session.splits)
  moreover have "buf_bytes s' (out_buf x) \<noteq> [] \<longleftrightarrow> u = Jammed" using r(2) out x(4) by metis
  ultimately show "session_at s' j u" using r(1) out cap x(2) a by (intro session_at_intro) simp_all
  show "g_events s' ! j = g_events s ! j" using same by (simp add: slot_same_def)
qed

lemma serving_finite: "serving s \<sigma> \<Longrightarrow> finite (dom \<sigma>)"
  by (auto simp: serving_def active_def intro: finite_subset [of _ "{..<MAX_EVENTS}"])

text \<open>An event of a connection is a step of the abstract server, and no other connection takes part.\<close>

lemma serving_step:
  assumes sv: "serving s \<sigma>" and i: "i < MAX_EVENTS" and o: "others_same s s' i"
    and own: "case v of None \<Rightarrow> i \<notin> active s'
      | Some u \<Rightarrow> i \<in> active s' \<and> session_at s' i u \<and> call_back (g_events s' ! i) = Data_transfer \<and> ev_arg (g_events s' ! i) = i"
    and int: "\<And>d w. interest s' d = Some (w, Ptr MAX_EVENTS) \<Longrightarrow> interest s d = Some (w, Ptr MAX_EVENTS)"
  shows "serving s' (\<sigma>(i := v))"
proof -
  have o': "table_ok s'" "active s' - {i} = active s - {i}" "\<forall>j \<in> active s - {i}. slot_same s s' j"
    "\<forall>j. j \<noteq> i \<longrightarrow> g_events s' ! j = g_events s ! j" using o by (simp_all add: others_same_def)
  have dom: "dom \<sigma> = active s" using sv by (simp add: serving_def)
  have "i \<in> active s' \<longleftrightarrow> v \<noteq> None" using own by (auto split: option.splits)
  then have "dom (\<sigma>(i := v)) = active s'" using dom o'(2) by (auto split: if_splits)
  moreover have "session_at s' j u \<and> call_back (g_events s' ! j) = Data_transfer \<and> ev_arg (g_events s' ! j) = j"
    if j: "(\<sigma>(i := v)) j = Some u" for j u
  proof (cases "j = i")
    case True
    then show ?thesis using own j by simp
  next
    case False
    then have sj: "\<sigma> j = Some u" using j by simp
    then have "session_at s j u" "call_back (g_events s ! j) = Data_transfer" "ev_arg (g_events s ! j) = j"
      using sv unfolding serving_def by blast+
    moreover have "j \<in> active s" "j \<in> active s'" using sj dom o'(2) False by auto
    ultimately show ?thesis using session_other [of s s' j u] o'(3) False by auto
  qed
  moreover have "call_back (g_events s' ! MAX_EVENTS) = Accept_conn"
    if "interest s' d = Some (w, Ptr MAX_EVENTS)" for d w
    using int [OF that] sv o'(4) i unfolding serving_def by fastforce
  ultimately show ?thesis using o'(1) unfolding serving_def by blast
qed

lemma crash_jammed: "server_spec u a = Crash \<Longrightarrow> u = Jammed"
  by (cases u; cases a) (auto simp: message_part_def Let_def split: if_splits)

text \<open>What the machine says of an event, for the whole server.\<close>

lemma follows_net:
  fixes s :: "('w, 'z) server_state_scheme"
  assumes im: "implements do_work w (\<sigma>, js) s" and i: "\<sigma> i = Some u"
    and f: "follows do_work s i (memory_for u) a out"
  shows "case a of Crash \<Rightarrow> out = Inl Assertion
    | More v \<Rightarrow> \<exists>s'. out = Inr s' \<and> implements do_work w (\<sigma>(i \<mapsto> v), js) s' \<and> others_same s s' i
    | Reject \<Rightarrow> \<exists>s'. out = Inr s' \<and> implements do_work w (\<sigma>(i := None), js) s' \<and> others_same s s' i
    | Job m \<Rightarrow> \<exists>s'. out = Inr s' \<and> implements do_work w (\<sigma>(i := None), js @ [m]) s' \<and> others_same s s' i"
proof -
  have sv: "serving s \<sigma>" "world s = fold do_work js w"
    "memory_due \<sigma> + 8 * length (accept_env s) \<le> malloc_left s" using im by (simp_all add: implements_def)
  have dom: "i \<in> active s" "call_back (g_events s ! i) = Data_transfer" "ev_arg (g_events s ! i) = i"
    "table_ok s" using sv(1) i unfolding serving_def by auto
  have lt: "i < MAX_EVENTS" using dom(1) by (simp add: active_def)
  obtain c x where rep: "slot_rep s i c x" using table_rep [OF dom(4,1)] by blast
  then have fd: "interest s (slot_fd s i) = Some (ev_events (g_events s ! i), Ptr i)" by (simp add: slot_rep_def)
  note due = memory_due_upd [OF serving_finite [OF sv(1)]]
  have gone: "implements do_work w (\<sigma>(i := None), js @ (case job of None \<Rightarrow> [] | Some m \<Rightarrow> [m])) s1 \<and> others_same s s1 i"
    if e: "ended do_work s s1 i job" "malloc_left s \<le> malloc_left s1 + memory_for u" for s1 job
  proof -
    have h: "others_same s s1 i" "i \<notin> active s1" "interest s1 = (interest s)(slot_fd s i := None)"
      using e(1) by (simp_all add: ended_def hung_up_def)
    have "serving s1 (\<sigma>(i := None))"
      by (rule serving_step [OF sv(1) lt h(1)]) (use h(2,3) in \<open>auto split: if_splits\<close>)
    moreover have "world s1 = fold do_work (js @ (case job of None \<Rightarrow> [] | Some m \<Rightarrow> [m])) w"
      using e(1) sv(2) by (simp add: ended_def split: option.splits)
    moreover have "memory_due (\<sigma>(i := None)) + 8 * length (accept_env s1) \<le> malloc_left s1"
      using due(2) [OF i] sv(3) e by (simp add: ended_def)
    ultimately show ?thesis using h(1) by (simp add: implements_def)
  qed
  show ?thesis
  proof (cases a)
    case Crash
    then show ?thesis using f by (simp add: follows_def)
  next
    case Reject
    then show ?thesis using gone [of _ None] f by (fastforce simp: follows_def)
  next
    case (Job m)
    then show ?thesis using gone [of _ "Some m"] f by (fastforce simp: follows_def)
  next
    case (More v)
    then obtain s1 where s1: "out = Inr s1" "stays s s1 i" "session_at s1 i v"
      "malloc_left s + memory_for v \<le> malloc_left s1 + memory_for u" using f by (auto simp: follows_def)
    have h: "others_same s s1 i" "i \<in> active s1" "\<forall>d. d \<noteq> slot_fd s i \<longrightarrow> interest s1 d = interest s d"
      "slot_fd s1 i = slot_fd s i" "event_state.more s1 = event_state.more s"
      "call_back (g_events s1 ! i) = Data_transfer" "ev_arg (g_events s1 ! i) = i"
      using s1(2) dom(2,3) by (simp_all add: stays_def)
    have "interest s1 (slot_fd s i) \<noteq> Some (z, Ptr MAX_EVENTS)" for z
    proof -
      have "table_ok s1" using h(1) by (simp add: others_same_def)
      from table_rep [OF this h(2)] show ?thesis using h(4) lt by (auto simp: slot_rep_def)
    qed
    then have "serving s1 (\<sigma>(i \<mapsto> v))"
      using h s1(3) by (intro serving_step [OF sv(1) lt h(1)]) (simp, metis)
    moreover have "memory_due (\<sigma>(i \<mapsto> v)) + 8 * length (accept_env s1) \<le> malloc_left s1"
      using due(1) [OF i, of v] sv(3) s1(4) more_server(3) [OF h(5)] by simp
    ultimately have "implements do_work w (\<sigma>(i \<mapsto> v), js) s1"
      using sv(2) more_server(1) [OF h(5)] by (simp add: implements_def)
    then show ?thesis using More s1(1) h(1) by simp
  qed
qed

lemma follows_runs:
  fixes s :: "('w, 'z) server_state_scheme"
  assumes im: "implements do_work w (\<sigma>, js) s" and i: "\<sigma> i = Some u" and p: "possible u a"
    and f: "follows do_work s i (memory_for u) a out"
  shows "runs do_work w (\<sigma>, js) out"
    and "out = Inr s' \<Longrightarrow> others_same s s' i"
proof -
  note net = follows_net [OF im i f]
  show "out = Inr s' \<Longrightarrow> others_same s s' i" using net by (auto split: reaction.splits)
  show "runs do_work w (\<sigma>, js) out"
  proof (cases a)
    case Crash
    from p [unfolded Crash] have "u = Jammed" by (cases rule: possible.cases) (metis crash_jammed)
    then show ?thesis using net Crash i by (auto simp: runs_def)
  next
    case Reject
    then obtain s1 where "out = Inr s1" "implements do_work w (\<sigma>(i := None), js) s1" using net by auto
    then show ?thesis using runs_step [OF net_step.closes [of \<sigma> i u js, OF i]] by simp
  next
    case (Job m)
    then obtain b where b: "server_spec u b = Job m" using p by (auto elim: possible.cases)
    obtain s1 where "out = Inr s1" "implements do_work w (\<sigma>(i := None), js @ [m]) s1" using net Job by auto
    then show ?thesis using runs_step [OF net_step.works [of \<sigma> i u b m js, OF i b]] by simp
  next
    case (More v)
    have st: "net_step\<^sup>*\<^sup>* (\<sigma>, js) (\<sigma>(i \<mapsto> v), js)"
    proof (cases "v = u")
      case True
      then show ?thesis using i by (simp add: fun_upd_idem)
    next
      case False
      then obtain b where "server_spec u b = More v" using p More by (auto elim: possible.cases)
      from net_step.reads [of \<sigma> i u b v js, OF i this] show ?thesis by blast
    qed
    obtain s1 where s1: "out = Inr s1" "implements do_work w (\<sigma>(i \<mapsto> v), js) s1" using net More by auto
    show ?thesis unfolding s1(1) by (rule runs_trans [OF st runs_refl [OF s1(2)]])
  qed
qed

section \<open>A new connection\<close>

text \<open>The search for a free slot.\<close>

lemma free_slot_first:
  assumes len: "length (g_events s) = MAX_EVENTS + 1" and i: "i \<le> MAX_EVENTS"
  shows "\<exists>k. free_slot i s = Inr k \<and> i \<le> k \<and> k \<le> MAX_EVENTS \<and> (\<forall>j. i \<le> j \<and> j < k \<longrightarrow> ev_status (g_events s ! j) \<noteq> 0) \<and>
    (k < MAX_EVENTS \<longrightarrow> ev_status (g_events s ! k) = 0)"
  using i
proof (induction "MAX_EVENTS - i" arbitrary: i)
  case 0
  then show ?case by (subst free_slot.simps) auto
next
  case (Suc n)
  then have i: "i < MAX_EVENTS" by simp
  have run: "free_slot i s = (if ev_status (g_events s ! i) = 0 then Inr i else free_slot (Suc i) s)"
    using i len by (subst free_slot.simps) (simp add: get_ev_ok)
  show ?case
  proof (cases "ev_status (g_events s ! i) = 0")
    case True
    then show ?thesis using run i by auto
  next
    case False
    obtain k where k: "free_slot (Suc i) s = Inr k" "Suc i \<le> k" "k \<le> MAX_EVENTS"
      "\<forall>j. Suc i \<le> j \<and> j < k \<longrightarrow> ev_status (g_events s ! j) \<noteq> 0" "k < MAX_EVENTS \<longrightarrow> ev_status (g_events s ! k) = 0"
    proof -
      have "n = MAX_EVENTS - Suc i" "Suc i \<le> MAX_EVENTS" using Suc.hyps(2) i by simp_all
      from Suc.hyps(1) [OF this] show ?thesis using that by blast
    qed
    have "ev_status (g_events s ! j) \<noteq> 0" if "i \<le> j" "j < k" for j
      using k(4) that False by (cases "j = i") auto
    then show ?thesis using run False k by auto
  qed
qed

text \<open>
  What \<open>accept_conn\<close> relies on: \<open>get_slot\<close> finds the first slot with status 0, and \<open>set_slot\<close>
  enters descriptor, call back and argument in a slot, with status 0, and gives it a connection that
  no slot in use has, with the stream.
\<close>

definition fills_slots :: "('w, 'z) server_state_scheme old_evget \<Rightarrow> ('w, 'z) server_state_scheme old_eventset \<Rightarrow> bool" where
  "fills_slots get_slot set_slot \<longleftrightarrow>
     (\<forall>s i. i < MAX_EVENTS \<and> length (g_events s) = MAX_EVENTS + 1 \<and> ev_status (g_events s ! i) = 0 \<and>
        (\<forall>j < i. ev_status (g_events s ! j) \<noteq> 0) \<longrightarrow> get_slot s = Inr (Some i)) \<and>
     (\<forall>s i fd p. i < MAX_EVENTS \<and> length (g_events s) = MAX_EVENTS + 1 \<and> (\<forall>j \<in> active s. jconns s (slot_jc s j) \<noteq> None) \<longrightarrow>
        set_slot (Some i) fd p Data_transfer (Some i) s = Inl Stuck \<or>
        (\<exists>e q c cl cm. set_slot (Some i) fd p Data_transfer (Some i) s =
             Inr (s\<lparr>g_events := (g_events s)[i := e], jconns := (jconns s)(q \<mapsto> c), clinks := cl, conn_mem := cm\<rparr>) \<and>
           ev_fd e = fd \<and> call_back e = Data_transfer \<and> ev_arg e = i \<and> ev_status e = 0 \<and> ev_jc e = q \<and>
           jc_fd c = fd \<and> jc_stream c = p \<and> q \<noteq> Null \<and> (\<forall>j \<in> active s. slot_jc s j \<noteq> q)))"

lemma fills_slotsD:
  assumes "fills_slots get_slot set_slot" and "i < MAX_EVENTS" and "length (g_events s) = MAX_EVENTS + 1"
  shows "ev_status (g_events s ! i) = 0 \<Longrightarrow> \<forall>j < i. ev_status (g_events s ! j) \<noteq> 0 \<Longrightarrow> get_slot s = Inr (Some i)"
    and "\<forall>j \<in> active s. jconns s (slot_jc s j) \<noteq> None \<Longrightarrow>
      set_slot (Some i) fd p Data_transfer (Some i) s \<noteq> Inl Stuck \<Longrightarrow>
      \<exists>e q c cl cm. set_slot (Some i) fd p Data_transfer (Some i) s =
          Inr (s\<lparr>g_events := (g_events s)[i := e], jconns := (jconns s)(q \<mapsto> c), clinks := cl, conn_mem := cm\<rparr>) \<and>
        ev_fd e = fd \<and> call_back e = Data_transfer \<and> ev_arg e = i \<and> ev_status e = 0 \<and> ev_jc e = q \<and>
        jc_fd c = fd \<and> jc_stream c = p \<and> q \<noteq> Null \<and> (\<forall>j \<in> active s. slot_jc s j \<noteq> q)"
  using assms unfolding fills_slots_def by blast+

lemma accept_table:
  fixes s :: "('w, 'z) server_state_scheme" and outs :: "accept_outcome list"
  defines "t \<equiv> s\<lparr>accept_env := outs\<rparr>"
  shows "table_ok t = table_ok s" and "slot_rep t = slot_rep s" and "active t = active s"
    and "slot_same s t j" and "mem_ok t = mem_ok s" and "malloc_left t = malloc_left s"
proof -
  have m: "mem_ok t = mem_ok s" "live t = live s" "block_bytes t = block_bytes s"
    unfolding t_def by (rule mem_fields_cong; simp)+
  have f: "bufs t = bufs s" "streams t = streams s" "jconns t = jconns s"
    "g_events t = g_events s" "interest t = interest s" by (simp_all add: t_def)
  note c = table_cong [OF m f]
  show "table_ok t = table_ok s" "slot_rep t = slot_rep s" "active t = active s" "slot_same s t j" by (rule c)+
  show "mem_ok t = mem_ok s" "malloc_left t = malloc_left s" using m by (simp_all add: t_def)
qed

text \<open>The slot and the stream, whatever is listened on.\<close>

definition opened :: "('w, 'z) server_state_scheme \<Rightarrow> ('w, 'z) server_state_scheme \<Rightarrow> nat \<Rightarrow> int \<Rightarrow> bool" where
  "opened s s' k fd \<longleftrightarrow> others_same s s' k \<and> active s' = insert k (active s) \<and> session_at s' k Waiting \<and>
     slot_fd s' k = fd \<and> call_back (g_events s' ! k) = Data_transfer \<and> ev_arg (g_events s' ! k) = k \<and>
     interest s' = (interest s)(fd \<mapsto> (EPOLLIN, Ptr k)) \<and> closed_fds s' = closed_fds s \<and>
     accept_env s' = tl (accept_env s) \<and> world s' = world s \<and> g_qps s' = g_qps s \<and> malloc_left s \<le> malloc_left s' + 5 \<and>
     read_env s' = read_env s \<and> last_active (g_events s' ! k) = time_now s"

lemma accept_opens:
  fixes s :: "('w, 'z) server_state_scheme"
  assumes c: "fills_slots get_slot set_slot" and t: "table_ok s"
    and env: "accept_env s = out # outs" "0 \<le> ac_fd out" "interest s (ac_fd out) = None" "0 \<le> ac_setfl out"
    and k: "k < MAX_EVENTS" "ev_status (g_events s ! k) = 0" "\<forall>j < k. ev_status (g_events s ! j) \<noteq> 0"
    and left: "5 \<le> malloc_left s"
  shows "(accept_conn get_slot set_slot lfd re we arg s = Inl Stuck \<and>
      (\<exists>p t. stream_create (ac_fd out) (s\<lparr>accept_env := outs\<rparr>) = Inr (p, t) \<and>
        set_slot (Some k) (ac_fd out) p Data_transfer (Some k) t = Inl Stuck)) \<or>
    (\<exists>s'. accept_conn get_slot set_slot lfd re we arg s = Inr s' \<and> opened s s' k (ac_fd out))"
proof -
  let ?fd = "ac_fd out"
  define s0 where "s0 = s\<lparr>accept_env := outs\<rparr>"
  note a = accept_table [where s = s and outs = outs, folded s0_def]
  have len: "length (g_events s) = MAX_EVENTS + 1" using t by (simp add: table_ok_def)
  have f0: "g_events s0 = g_events s" "interest s0 = interest s" "jconns s0 = jconns s" "closed_fds s0 = closed_fds s"
    "accept_env s0 = outs" "world s0 = world s" "g_qps s0 = g_qps s" by (simp_all add: s0_def)
  have m0: "mem_ok s0" "table_ok s0" "5 \<le> malloc_left s0" using t left a by (simp_all add: table_ok_def)
  have free: "free_slot 0 s0 = Inr k"
  proof -
    obtain k' where k': "free_slot 0 s0 = Inr k'" "k' \<le> MAX_EVENTS" "\<forall>j < k'. ev_status (g_events s ! j) \<noteq> 0"
      "k' < MAX_EVENTS \<longrightarrow> ev_status (g_events s ! k') = 0" using free_slot_first [of s0 0] f0(1) len by auto
    have "k' = k" using k' k by (metis less_le_trans linorder_neqE_nat not_less)
    then show ?thesis using k'(1) by simp
  qed
  obtain p s1 where cr: "stream_create ?fd s0 = Inr (p, s1)" using stream_create_total [OF m0(1,3)] by blast
  obtain x where x: "created s0 s1 p x" "server_sock x = ?fd" "buf_bytes s1 (out_buf x) = []"
    "malloc_left s0 - 5 \<le> malloc_left s1" using stream_create_returns [OF m0(1) cr] by blast
  obtain y where y: "streams s1 p = Some y" "progress s1 y Waiting" "buf_cap s1 (out_buf y) = 65536"
    using stream_create_waits [OF cr] by blast
  have "y = x" using x(1) y(1) by (simp add: created_def stream_ok_def)
  with y have y: "progress s1 x Waiting" "buf_cap s1 (out_buf x) = 65536" by simp_all
  have more: "stream_state.more s1 = stream_state.more s0" "jconns s1 = jconns s" "closed_fds s1 = closed_fds s"
    "read_env s1 = read_env s" "time_now s1 = time_now s"
    using x(1) f0 by (simp_all add: created_def time_now_def s0_def)
  note ev = more_event [OF more(1), unfolded f0]
  note sv = more_server [OF ev(3)]
  have act1: "active s1 = active s" using ev(1) by (simp add: active_def)
  have get: "get_slot s1 = Inr (Some k)" using fills_slotsD(1) [OF c k(1), of s1] k ev(1) len by simp
  have conns: "\<forall>j \<in> active s1. jconns s1 (slot_jc s1 j) \<noteq> None"
    using table_rep [OF t] act1 more(2) ev(1) by (fastforce simp: slot_rep_def)
  have run: "accept_conn get_slot set_slot lfd re we arg s =
      bindE (set_slot (Some k) ?fd p Data_transfer (Some k) s1) (eventadd EPOLLIN (Some k))"
    using env k(1) free cr get by (simp add: accept_conn_def Let_def s0_def [symmetric] f0)
  show ?thesis
  proof (cases "set_slot (Some k) ?fd p Data_transfer (Some k) s1 = Inl Stuck")
    case True
    then show ?thesis using run cr unfolding s0_def by auto
  next
    case False
    define s2 where "s2 e q d cl cm = s1\<lparr>g_events := (g_events s1)[k := e], jconns := (jconns s1)(q \<mapsto> d), clinks := cl, conn_mem := cm\<rparr>"
      for e q d cl cm
    obtain e q d cl cm where set: "set_slot (Some k) ?fd p Data_transfer (Some k) s1 = Inr (s2 e q d cl cm)"
      and e: "ev_fd e = ?fd" "call_back e = Data_transfer" "ev_arg e = k" "ev_status e = 0" "ev_jc e = q"
      and d: "jc_fd d = ?fd" "jc_stream d = p" "q \<noteq> Null" "\<forall>j \<in> active s1. slot_jc s1 j \<noteq> q"
      using fills_slotsD(2) [OF c k(1) _ conns False] ev(1) len unfolding s2_def by auto
    let ?e = "e\<lparr>last_active := time_now s1, ev_events := EPOLLIN, ev_status := 1\<rparr>"
    define s3 where "s3 = s1\<lparr>g_events := (g_events s1)[k := ?e], jconns := (jconns s1)(q \<mapsto> d), clinks := cl, conn_mem := cm,
      interest := (interest s1)(?fd \<mapsto> (EPOLLIN, Ptr k))\<rparr>"
    have "eventadd EPOLLIN (Some k) (s2 e q d cl cm) = Inr s3"
      using k(1) len ev(1,2) e env(3)
      by (simp add: eventadd_def get_ev_def s2_def s3_def epoll_ctl_def set_ev_def time_now_def Let_def)
    then have res: "accept_conn get_slot set_slot lfd re we arg s = Inr s3" using run set by simp
    have m3: "mem_ok s3 = mem_ok s1" "live s3 = live s1" "block_bytes s3 = block_bytes s1"
      unfolding s3_def by (rule mem_fields_cong; simp)+
    have f3: "bufs s3 = bufs s1" "streams s3 = streams s1" "g_events s3 = (g_events s0)[k := ?e]"
      "jconns s3 = (jconns s0)(ev_jc ?e \<mapsto> d)" "interest s3 = (interest s0)(ev_fd ?e \<mapsto> (ev_events ?e, Ptr k))"
      "malloc_left s3 = malloc_left s1" "closed_fds s3 = closed_fds s" "accept_env s3 = accept_env s1" "world s3 = world s1"
      "g_qps s3 = g_qps s1" "read_env s3 = read_env s"
      using ev more f0 e by (simp_all add: s3_def)
    have kn: "k \<notin> active s0" using k(2) a(3) by (simp add: active_def)
    have e': "0 \<le> ev_fd ?e" "interest s0 (ev_fd ?e) = None" "server_sock x = ev_fd ?e" "ev_jc ?e \<noteq> Null"
      "\<forall>j \<in> active s0. slot_jc s0 j \<noteq> ev_jc ?e" "jc_fd d = ev_fd ?e" "ev_status ?e = 1"
      using e d env(2,3) x(2) f0 act1 a(3) ev(1) by simp_all
    note fill = slot_filled [OF m0(2) x(1) k(1) kn e'(1-6) d(2) e'(7) m3 f3(1-5)]
    have "others_same s s0 k" using t a f0 by (simp add: others_same_def)
    then have o: "others_same s s3 k" using step_others [OF m0(2) fill(1)] others_trans by blast
    have ek: "g_events s3 ! k = ?e" using f3(3) f0(1) k(1) len by simp
    have "buf_bytes s3 = buf_bytes s1" by (rule bufs_cong [OF f3(1) m3(2,3)])
    moreover have "buf_cap s3 (out_buf x) = 65536" using y(2) f3(1) by (simp add: buf_cap_def)
    moreover have "progress s3 x Waiting" using y(1) by (simp add: progress_def)
    ultimately have "session_at s3 k Waiting" using fill(2,3) x(3) by (intro session_at_intro) auto
    then have "opened s s3 k ?fd"
      using o fill(2) a(3,6) ek e f3 f0 sv x(4) env(1) more(5) unfolding opened_def by simp
    then show ?thesis using res by blast
  qed
qed

text \<open>When no slot is free or \<open>fcntl\<close> fails, the call back returns, and that is all it does.\<close>

lemma accept_drops:
  fixes s :: "('w, 'z) server_state_scheme"
  assumes len: "length (g_events s) = MAX_EVENTS + 1"
    and env: "accept_env s = out # outs" "0 \<le> ac_fd out" "interest s (ac_fd out) = None"
    and no: "(\<forall>i < MAX_EVENTS. ev_status (g_events s ! i) \<noteq> 0) \<or> ac_setfl out < 0"
  shows "accept_conn get_slot set_slot lfd re we arg s = Inr (s\<lparr>accept_env := outs\<rparr>)"
proof -
  let ?s = "s\<lparr>accept_env := outs\<rparr>"
  obtain k where k: "free_slot 0 ?s = Inr k" "k \<le> MAX_EVENTS" "k < MAX_EVENTS \<longrightarrow> ev_status (g_events s ! k) = 0"
    using free_slot_first [of ?s 0] len by auto
  then have "k = MAX_EVENTS \<or> ac_setfl out < 0" using no by (metis le_neq_implies_less)
  then show ?thesis using env k(1) by (auto simp: accept_conn_def Let_def)
qed

lemma serving_same:
  assumes "serving s \<sigma>" and "table_ok s'" and "active s' = active s" and "\<forall>j. slot_same s s' j"
    and "g_events s' = g_events s" and "interest s' = interest s"
  shows "serving s' \<sigma>"
proof -
  have "session_at s' i u" if "\<sigma> i = Some u" for i u
    using that assms(1,3,4) session_other(1) [of s s' i u] unfolding serving_def by blast
  then show ?thesis using assms unfolding serving_def by simp
qed

lemma opened_implements:
  fixes s :: "('w, 'z) server_state_scheme"
  assumes im: "implements do_work w (\<sigma>, js) s" and k: "k < MAX_EVENTS" "ev_status (g_events s ! k) = 0"
    and none: "\<sigma> k = None" and op: "opened s s1 k d" and env: "accept_env s \<noteq> []"
  shows "implements do_work w (\<sigma>(k \<mapsto> Waiting), js) s1"
proof -
  have sv: "serving s \<sigma>" "world s = fold do_work js w" "memory_due \<sigma> + 8 * length (accept_env s) \<le> malloc_left s"
    using im by (simp_all add: implements_def)
  obtain a outs where Cons: "accept_env s = a # outs" using env by (cases "accept_env s") auto
  have o: "others_same s s1 k" "active s1 = insert k (active s)" "session_at s1 k Waiting"
    "call_back (g_events s1 ! k) = Data_transfer" "ev_arg (g_events s1 ! k) = k"
    "interest s1 = (interest s)(d \<mapsto> (EPOLLIN, Ptr k))" "accept_env s1 = outs" "world s1 = world s"
    "malloc_left s \<le> malloc_left s1 + 5" using op Cons by (simp_all add: opened_def)
  have "interest s e = Some (v, Ptr MAX_EVENTS)" if "interest s1 e = Some (v, Ptr MAX_EVENTS)" for e v
    using that k(1) unfolding o(6) by (cases "e = d") simp_all
  moreover have "k \<in> active s1" using o(2) by simp
  ultimately have "serving s1 (\<sigma>(k \<mapsto> Waiting))"
    using serving_step [OF sv(1) k(1) o(1), of "Some Waiting"] o(3-5) by simp
  moreover have "memory_due (\<sigma>(k \<mapsto> Waiting)) + 8 * length (accept_env s1) \<le> malloc_left s1"
    using memory_due_upd(3) [OF serving_finite [OF sv(1)] none, of Waiting] sv(3) o(7,9) Cons by simp
  ultimately show ?thesis using sv(2) o(8) by (simp add: implements_def)
qed

lemma accept_runs:
  fixes s :: "('w, 'z) server_state_scheme" and lfd :: int and re we :: bool and arg :: nat
  assumes c: "fills_slots get_slot set_slot" and im: "implements do_work w (\<sigma>, js) s"
  defines "out \<equiv> accept_conn get_slot set_slot lfd re we arg s"
  shows "runs do_work w (\<sigma>, js) out"
    and "out = Inr s' \<Longrightarrow> active s \<subseteq> active s' \<and> g_events s' ! MAX_EVENTS = g_events s ! MAX_EVENTS"
proof -
  have sv: "serving s \<sigma>" "world s = fold do_work js w" "memory_due \<sigma> + 8 * length (accept_env s) \<le> malloc_left s"
    and t: "table_ok s" "dom \<sigma> = active s" using im by (simp_all add: implements_def serving_def)
  have len: "length (g_events s) = MAX_EVENTS + 1" using t(1) by (simp add: table_ok_def)
  have "runs do_work w (\<sigma>, js) out \<and>
    (out = Inr s' \<longrightarrow> active s \<subseteq> active s' \<and> g_events s' ! MAX_EVENTS = g_events s ! MAX_EVENTS)"
  proof (cases "accept_env s")
    case Nil
    then show ?thesis by (simp add: out_def accept_conn_def runs_def)
  next
    case (Cons a outs)
    let ?s = "s\<lparr>accept_env := outs\<rparr>"
    note same = accept_table [where s = s and outs = outs]
    have "serving ?s \<sigma>" by (rule serving_same [OF sv(1)]) (simp_all add: same t(1))
    then have im0: "implements do_work w (\<sigma>, js) ?s" using sv(2,3) Cons by (simp add: implements_def)
    have skip: "runs do_work w (\<sigma>, js) out \<and>
        (out = Inr s' \<longrightarrow> active s \<subseteq> active s' \<and> g_events s' ! MAX_EVENTS = g_events s ! MAX_EVENTS)" if "out = Inr ?s"
      using that im0 same(3) by (auto simp: runs_def)
    consider "ac_fd a = - 1" | "ac_fd a \<noteq> - 1" "ac_fd a < 0 \<or> interest s (ac_fd a) \<noteq> None"
      | "0 \<le> ac_fd a" "interest s (ac_fd a) = None" "(\<forall>i < MAX_EVENTS. ev_status (g_events s ! i) \<noteq> 0) \<or> ac_setfl a < 0"
      | "0 \<le> ac_fd a" "interest s (ac_fd a) = None" "0 \<le> ac_setfl a" "\<exists>i < MAX_EVENTS. ev_status (g_events s ! i) = 0"
      by fastforce
    then show ?thesis
    proof cases
      case 1
      then show ?thesis using skip Cons by (simp add: out_def accept_conn_def Let_def)
    next
      case 2
      then show ?thesis using Cons by (simp add: out_def accept_conn_def Let_def runs_def)
    next
      case 3
      then show ?thesis using skip accept_drops [OF len Cons] by (simp add: out_def)
    next
      case 4
      define k where "k = (LEAST k. k < MAX_EVENTS \<and> ev_status (g_events s ! k) = 0)"
      have k: "k < MAX_EVENTS" "ev_status (g_events s ! k) = 0" using LeastI_ex [OF 4(4)] by (simp_all add: k_def)
      have kf: "\<forall>j < k. ev_status (g_events s ! j) \<noteq> 0"
      proof (intro allI impI)
        fix j assume j: "j < k"
        then have "\<not> (j < MAX_EVENTS \<and> ev_status (g_events s ! j) = 0)" unfolding k_def by (rule not_less_Least)
        then show "ev_status (g_events s ! j) \<noteq> 0" using j k(1) by simp
      qed
      have l: "5 \<le> malloc_left s" using sv(3) Cons by simp
      show ?thesis
      proof (cases "out = Inl Stuck")
        case True
        then show ?thesis by (simp add: runs_def)
      next
        case False
        then obtain s1 where s1: "out = Inr s1" "opened s s1 k (ac_fd a)"
          using accept_opens [OF c t(1) Cons 4(1-3) k kf l] unfolding out_def by blast
        have o: "others_same s s1 k" "active s1 = insert k (active s)" using s1(2) by (simp_all add: opened_def)
        have "k \<notin> dom \<sigma>" using k(2) unfolding t(2) by (simp add: active_def)
        then have none: "\<sigma> k = None" by blast
        have "implements do_work w (\<sigma>(k \<mapsto> Waiting), js) s1"
          using opened_implements [OF im k none s1(2)] Cons by simp
        moreover have "net_step (\<sigma>, js) (\<sigma>(k \<mapsto> Waiting), js)" using net_step.opens [of k \<sigma> js, OF k(1) none] .
        moreover have "g_events s1 ! MAX_EVENTS = g_events s ! MAX_EVENTS" using o(1) k(1) by (simp add: others_same_def)
        ultimately show ?thesis using s1(1) o(2) by (auto simp: runs_def)
      qed
    qed
  qed
  then show "runs do_work w (\<sigma>, js) out"
    "out = Inr s' \<Longrightarrow> active s \<subseteq> active s' \<and> g_events s' ! MAX_EVENTS = g_events s ! MAX_EVENTS" by blast+
qed

section \<open>The loop\<close>

definition ready_for :: "'z event_state_scheme \<Rightarrow> nat \<Rightarrow> bool" where
  "ready_for s j \<longleftrightarrow> j \<in> active s \<or> j = MAX_EVENTS \<and> call_back (g_events s ! MAX_EVENTS) = Accept_conn"

lemma dispatch_runs:
  fixes s :: "('w, 'z) server_state_scheme" and re we :: bool
  assumes c: "fills_slots get_slot set_slot" and im: "implements do_work w (\<sigma>, js) s" and i: "ready_for s i"
  defines "out \<equiv> server_dispatch get_slot set_slot do_work (Ready i re we) s"
  shows "runs do_work w (\<sigma>, js) out"
    and "out = Inr s' \<Longrightarrow> ready_for s j \<Longrightarrow> j \<noteq> i \<Longrightarrow> ready_for s' j"
proof -
  have sv: "serving s \<sigma>" "memory_due \<sigma> + 8 * length (accept_env s) \<le> malloc_left s" and t: "table_ok s" "dom \<sigma> = active s"
    using im by (simp_all add: implements_def serving_def)
  have len: "length (g_events s) = MAX_EVENTS + 1" using t(1) by (simp add: table_ok_def)
  have "runs do_work w (\<sigma>, js) out \<and> (out = Inr s' \<longrightarrow> ready_for s j \<longrightarrow> j \<noteq> i \<longrightarrow> ready_for s' j)"
  proof (cases "i \<in> active s")
    case False
    then have l: "i = MAX_EVENTS" "call_back (g_events s ! MAX_EVENTS) = Accept_conn" using i by (simp_all add: ready_for_def)
    then have out: "out = accept_conn get_slot set_slot (slot_fd s MAX_EVENTS) re we (ev_arg (g_events s ! MAX_EVENTS)) s"
      using len by (simp add: out_def server_dispatch_def get_ev_ok)
    note a = accept_runs [OF c im, of "slot_fd s MAX_EVENTS" re we "ev_arg (g_events s ! MAX_EVENTS)", folded out]
    show ?thesis using a(1) a(2) [of s'] l(1) unfolding ready_for_def by blast
  next
    case True
    then obtain u where u: "\<sigma> i = Some u" using t(2) by blast
    have at: "session_at s i u" "call_back (g_events s ! i) = Data_transfer" "ev_arg (g_events s ! i) = i"
      using sv(1) u unfolding serving_def by blast+
    have out: "out = server_data_transfer do_work (slot_fd s i) re we i s"
      using active_less [OF t(1) True] at(2,3) by (simp add: out_def server_dispatch_def get_ev_ok)
    have "memory_for u \<le> malloc_left s" using memory_due_upd(2) [OF serving_finite [OF sv(1)] u] sv(2) by simp
    from transfer_outcome [OF t(1) at(1) this, of do_work re we] show ?thesis unfolding out [symmetric]
    proof
      assume "out = Inl Stuck"
      then show ?thesis by (simp add: runs_def)
    next
      assume "\<exists>a. possible u a \<and> follows do_work s i (memory_for u) a out"
      then obtain a where a: "possible u a" "follows do_work s i (memory_for u) a out" by blast
      note r = follows_runs [OF im u a]
      have "ready_for s' j" if "out = Inr s'" "ready_for s j" "j \<noteq> i"
      proof -
        have "active s' - {i} = active s - {i}" "\<forall>j. j \<noteq> i \<longrightarrow> g_events s' ! j = g_events s ! j"
          using r(2) [OF that(1)] by (simp_all add: others_same_def)
        moreover have "i \<noteq> MAX_EVENTS" using True by (simp add: active_def)
        ultimately show ?thesis using that(2,3) unfolding ready_for_def by auto
      qed
      then show ?thesis using r(1) by blast
    qed
  qed
  then show "runs do_work w (\<sigma>, js) out" "out = Inr s' \<Longrightarrow> ready_for s j \<Longrightarrow> j \<noteq> i \<Longrightarrow> ready_for s' j" by blast+
qed

lemma batch_runs:
  fixes s :: "('w, 'z) server_state_scheme"
  assumes c: "fills_slots get_slot set_slot"
  shows "implements do_work w n s \<Longrightarrow> distinct (slots rs) \<Longrightarrow> \<forall>j \<in> set (slots rs). ready_for s j \<Longrightarrow>
    runs do_work w n (each (server_dispatch get_slot set_slot do_work) rs s)"
proof (induction rs arbitrary: s n)
  case Nil
  then show ?case using runs_refl by simp
next
  case (Cons r rs)
  obtain \<sigma> js where n: "n = (\<sigma>, js)" by fastforce
  show ?case
  proof (cases r)
    case Tickled
    then show ?thesis by (simp add: server_dispatch_def runs_def)
  next
    case (Ready i re we)
    have i: "ready_for s i" "i \<notin> set (slots rs)" "distinct (slots rs)" using Cons.prems(2,3) Ready by simp_all
    note d = dispatch_runs [OF c Cons.prems(1) [unfolded n] i(1), of re we]
    show ?thesis
    proof (cases "server_dispatch get_slot set_slot do_work r s")
      case (Inl f)
      then show ?thesis using d(1) Ready n by (simp add: runs_def)
    next
      case (Inr s1)
      obtain n1 where n1: "net_step\<^sup>*\<^sup>* n n1" "implements do_work w n1 s1" using d(1) Inr Ready n by (auto simp: runs_def)
      have "\<forall>j \<in> set (slots rs). ready_for s1 j"
        using d(2) [of s1] Inr Ready Cons.prems(3) i(2) by auto
      from Cons.IH [OF n1(2) i(3) this] show ?thesis using runs_trans [OF n1(1)] Inr by simp
    qed
  qed
qed

text \<open>The sweep closes some connections.\<close>

lemma closes_many: "set ks \<subseteq> dom \<sigma> \<Longrightarrow> distinct ks \<Longrightarrow> net_step\<^sup>*\<^sup>* (\<sigma>, js) (\<sigma> |` (- set ks), js)"
proof (induction ks arbitrary: \<sigma>)
  case Nil
  then show ?case by simp
next
  case (Cons k ks)
  then obtain u where "\<sigma> k = Some u" by auto
  from net_step.closes [of \<sigma> k u js, OF this] have "net_step (\<sigma>, js) (\<sigma>(k := None), js)" .
  moreover have "net_step\<^sup>*\<^sup>* (\<sigma>(k := None), js) ((\<sigma>(k := None)) |` (- set ks), js)"
    using Cons.prems by (intro Cons.IH) auto
  moreover have "(\<sigma>(k := None)) |` (- set ks) = \<sigma> |` (- set (k # ks))" by (auto simp: restrict_map_def fun_eq_iff)
  ultimately show ?case by (metis converse_rtranclp_into_rtranclp)
qed

lemma sweep_runs:
  fixes s :: "('w, 'z) server_state_scheme"
  assumes im: "implements do_work w (\<sigma>, js) s" and pos: "pos \<le> MAX_EVENTS"
  shows "\<exists>s' \<sigma>'. expires_house_keeping pos tnow ex s = Inr (pos mod MAX_EVENTS + 1, s') \<and>
    net_step\<^sup>*\<^sup>* (\<sigma>, js) (\<sigma>', js) \<and> implements do_work w (\<sigma>', js) s'"
proof -
  have sv: "serving s \<sigma>" "world s = fold do_work js w" "memory_due \<sigma> + 8 * length (accept_env s) \<le> malloc_left s"
    and t: "table_ok s" "dom \<sigma> = active s" using im by (simp_all add: implements_def serving_def)
  obtain s' rs where s': "expires_house_keeping pos tnow ex s = Inr (pos mod MAX_EVENTS + 1, s')" "swept s s' rs"
    using house_keeping_sweeps [OF t(1) pos] by blast
  have sw: "table_ok s'" "distinct rs" "set rs \<subseteq> active s" "active s' = active s - set rs"
    "event_state.more s' = event_state.more s" using s'(2) by (simp_all add: swept_def)
  have keep: "slot_same s s' j" if "j \<in> active s'" for j using s'(2) that unfolding swept_def by auto
  let ?\<sigma> = "\<sigma> |` (- set rs)"
  have "call_back (g_events s' ! MAX_EVENTS) = Accept_conn" if "interest s' d = Some (v, Ptr MAX_EVENTS)" for d v
  proof -
    have "MAX_EVENTS \<notin> set rs" using sw(3) by (auto simp: active_def)
    then have "g_events s' ! MAX_EVENTS = g_events s ! MAX_EVENTS" using s'(2) unfolding swept_def by blast
    then show ?thesis using swept_listener [OF s'(2) that] sv(1) unfolding serving_def by metis
  qed
  moreover have "session_at s' i u \<and> call_back (g_events s' ! i) = Data_transfer \<and> ev_arg (g_events s' ! i) = i"
    if i: "?\<sigma> i = Some u" for i u
  proof -
    have i': "\<sigma> i = Some u" "i \<in> active s'" using i t(2) sw(4) by (auto simp: restrict_map_def split: if_splits)
    then have "session_at s i u" "call_back (g_events s ! i) = Data_transfer" "ev_arg (g_events s ! i) = i"
      using sv(1) unfolding serving_def by blast+
    then show ?thesis using session_other [OF keep [OF i'(2)] _ i'(2)] by simp
  qed
  moreover have "dom ?\<sigma> = active s'" using t(2) sw(4) by auto
  ultimately have "serving s' ?\<sigma>" using sw(1) unfolding serving_def by blast
  moreover have "memory_due ?\<sigma> \<le> memory_due \<sigma>"
  proof -
    have "memory_due ?\<sigma> = (\<Sum>i \<in> dom ?\<sigma>. memory_for (the (\<sigma> i)))" unfolding memory_due_def by (intro sum.cong) auto
    also have "\<dots> \<le> memory_due \<sigma>"
      unfolding memory_due_def using serving_finite [OF sv(1)] by (intro sum_mono2) auto
    finally show ?thesis .
  qed
  moreover have "malloc_left s' = malloc_left s"
    using expires_loop_left s'(1) unfolding expires_house_keeping_def by blast
  ultimately have "implements do_work w (?\<sigma>, js) s'" using sv(2,3) more_server [OF sw(5)] by (simp add: implements_def)
  moreover have "net_step\<^sup>*\<^sup>* (\<sigma>, js) (?\<sigma>, js)" using sw(2,3) t(2) by (intro closes_many) simp_all
  ultimately show ?thesis using s'(1) by blast
qed

text \<open>The clock and the counter of the requests are no part of the invariant.\<close>

lemma implements_same:
  fixes s s' :: "('w, 'z) server_state_scheme"
  assumes im: "implements do_work w n s" and m: "mem_ok s' = mem_ok s" "live s' = live s" "block_bytes s' = block_bytes s"
    and f: "bufs s' = bufs s" "streams s' = streams s" "jconns s' = jconns s" "g_events s' = g_events s"
      "interest s' = interest s" "world s' = world s" "accept_env s' = accept_env s" "malloc_left s' = malloc_left s"
  shows "implements do_work w n s'"
proof -
  note c = table_cong [OF m f(1-5)]
  have sv: "serving s (fst n)" using im by (simp add: implements_def)
  then have "table_ok s'" using c(4) by (simp add: serving_def)
  from serving_same [OF sv this c(1) _ f(4,5)] c(2) have "serving s' (fst n)" by blast
  then show ?thesis using im f(6-8) by (simp add: implements_def)
qed

lemma clock_runs:
  fixes s :: "('w, 'z) server_state_scheme"
  assumes "implements do_work w n s"
  shows "implements do_work w n (s\<lparr>clock := t\<rparr>)" and "implements do_work w n (s\<lparr>clock := t, g_qps := 0\<rparr>)"
proof -
  have m: "mem_ok (s\<lparr>clock := t, g_qps := q\<rparr>) = mem_ok s" "live (s\<lparr>clock := t, g_qps := q\<rparr>) = live s"
    "block_bytes (s\<lparr>clock := t, g_qps := q\<rparr>) = block_bytes s" for q by (rule mem_fields_cong; simp)+
  show "implements do_work w n (s\<lparr>clock := t\<rparr>)" by (rule implements_same [OF assms]) simp_all
  show "implements do_work w n (s\<lparr>clock := t, g_qps := 0\<rparr>)" by (rule implements_same [OF assms m]) simp_all
qed

lemma round_runs:
  fixes s :: "('w, 'z) server_state_scheme"
  assumes c: "fills_slots get_slot set_slot" and im: "implements do_work w n s" and pos: "pos \<le> MAX_EVENTS"
  shows "case server_round get_slot set_slot do_work p (pos, nt, s) of
      Inl f \<Rightarrow> runs do_work w n (Inl f :: ('w, 'z) server_state_scheme res)
    | Inr (go, pos', nt', s') \<Rightarrow> runs do_work w n (Inr s') \<and> pos' \<le> MAX_EVENTS"
proof -
  define s1 where "s1 = (if p_clock p div 1000 \<ge> nt then s\<lparr>clock := p_clock p, g_qps := 0\<rparr> else s\<lparr>clock := p_clock p\<rparr>)"
  define nt1 where "nt1 = (if p_clock p div 1000 \<ge> nt then p_clock p div 1000 + 10 else nt)"
  obtain \<sigma> js where n: "n = (\<sigma>, js)" by fastforce
  have im1: "implements do_work w (\<sigma>, js) s1" using clock_runs [OF im] n by (simp add: s1_def)
  obtain s2 \<sigma>2 where s2: "expires_house_keeping pos (p_clock p div 1000) (- 1) s1 = Inr (pos mod MAX_EVENTS + 1, s2)"
    "net_step\<^sup>*\<^sup>* n (\<sigma>2, js)" "implements do_work w (\<sigma>2, js) s2"
    using sweep_runs [OF im1 pos, of "p_clock p div 1000" "- 1"] n by blast
  have pos': "pos mod MAX_EVENTS + 1 \<le> MAX_EVENTS" by (simp add: Suc_le_eq)
  have run: "server_round get_slot set_slot do_work p (pos, nt, s) = bindE (epoll_wait p s2) (\<lambda>nfd. case nfd of
        Error e \<Rightarrow> Inr (e = EINTR, pos mod MAX_EVENTS + 1, nt1, s2)
      | Done rs \<Rightarrow> bindE (each (server_dispatch get_slot set_slot do_work) rs s2)
          (\<lambda>s. Inr (True, pos mod MAX_EVENTS + 1, nt1, s)))"
  proof -
    have "(if nt \<le> p_clock p div 1000 then (p_clock p div 1000 + 10, s\<lparr>clock := p_clock p\<rparr>\<lparr>g_qps := 0\<rparr>)
        else (nt, s\<lparr>clock := p_clock p\<rparr>)) = (nt1, s1)" by (simp add: s1_def nt1_def)
    moreover have "time_now (s\<lparr>clock := p_clock p\<rparr>) = p_clock p div 1000" by (simp add: time_now_def)
    ultimately show ?thesis unfolding server_round_def by (simp only: prod.case Let_def s2(1) bindE_Inr)
  qed
  have r2: "runs do_work w n (Inr s2)" using runs_trans [OF s2(2) runs_refl [OF s2(3)]] .
  show ?thesis
  proof (cases "p_events p")
    case (Error e)
    then show ?thesis using run r2 pos' by (simp add: epoll_wait_def)
  next
    case (Done rs)
    show ?thesis
    proof (cases "distinct (slots rs) \<and> list_all (\<lambda>r. reported r s2) rs")
      case False
      then show ?thesis using run Done by (auto simp: epoll_wait_def runs_def)
    next
      case True
      have sv: "serving s2 \<sigma>2" and t: "table_ok s2" using s2(3) by (simp_all add: implements_def serving_def)
      have "ready_for s2 i" if rp: "reported (Ready i re we) s2" for i re we
      proof -
        obtain v where "interest s2 (slot_fd s2 i) = Some v" "snd v = Ptr i" using rp by (auto simp: reported_def)
        then obtain x where x: "interest s2 (slot_fd s2 i) = Some (x, Ptr i)" by (cases v) simp
        show ?thesis
          using table_interest [OF t x] x sv by (cases "i = MAX_EVENTS") (auto simp: ready_for_def serving_def)
      qed
      then have "\<forall>j \<in> set (slots rs). ready_for s2 j" using True by (induction rs) (auto split: ready.splits)
      then have "runs do_work w (\<sigma>2, js) (each (server_dispatch get_slot set_slot do_work) rs s2)"
        using batch_runs [OF c s2(3)] True by simp
      then have "runs do_work w n (each (server_dispatch get_slot set_slot do_work) rs s2)"
        by (rule runs_trans [OF s2(2)])
      then show ?thesis using run Done True pos'
        by (cases "each (server_dispatch get_slot set_slot do_work) rs s2") (simp_all add: epoll_wait_def runs_def)
    qed
  qed
qed

lemma rounds_runs:
  fixes s :: "('w, 'z) server_state_scheme"
  assumes c: "fills_slots get_slot set_slot"
  shows "implements do_work w n s \<Longrightarrow> pos \<le> MAX_EVENTS \<Longrightarrow>
    (case server_rounds get_slot set_slot do_work ps (pos, nt, s) of
      Inl f \<Rightarrow> runs do_work w n (Inl f :: ('w, 'z) server_state_scheme res)
    | Inr (go, pos', nt', s') \<Rightarrow> runs do_work w n (Inr s'))"
proof (induction ps arbitrary: n s pos nt)
  case Nil
  then show ?case using runs_refl by simp
next
  case (Cons p ps)
  note r = round_runs [OF c Cons.prems, of p nt]
  show ?case
  proof (cases "server_round get_slot set_slot do_work p (pos, nt, s)")
    case (Inl f)
    then show ?thesis using r by simp
  next
    case (Inr q)
    obtain go pos1 nt1 s1 where q: "q = (go, pos1, nt1, s1)" by (cases q) auto
    have r1: "runs do_work w n (Inr s1)" "pos1 \<le> MAX_EVENTS" using r Inr q by simp_all
    then obtain n1 where n1: "net_step\<^sup>*\<^sup>* n n1" "implements do_work w n1 s1" unfolding runs_def by auto
    show ?thesis
    proof (cases go)
      case False
      then show ?thesis using Inr q r1(1) by simp
    next
      case True
      from Cons.IH [OF n1(2) r1(2), of nt1] show ?thesis
        using Inr q True runs_trans [OF n1(1)] by (auto split: sum.splits)
    qed
  qed
qed

end
