(* ===== verification/Loop.thy ===== *)
theory Loop
  imports Serving
begin

text \<open>
  Properties of the whole server: \<open>main_rcv_loop\<close> from a table with nothing open, read events of
  many connections in any order, and what \<open>accept_conn\<close> does with a descriptor.
\<close>

section \<open>The listening socket\<close>

text \<open>A table with nothing open and nothing registered.\<close>

definition idle :: "'z event_state_scheme \<Rightarrow> bool" where
  "idle s \<longleftrightarrow> table_ok s \<and> active s = {} \<and> (\<forall>d v k. interest s d \<noteq> Some (v, Ptr k))"

lemma listen_starts:
  fixes s :: "('w, 'z) server_state_scheme"
  assumes idle: "idle s"
    and addr: "length (inx_addr ja) = 16" "8 \<le> length after" and left: "8 * length (accept_env s) \<le> malloc_left s"
  shows "init_listensocket prt psa ja after Accept_conn s = Inl Stuck \<or>
    (\<exists>s'. init_listensocket prt psa ja after Accept_conn s = Inr s' \<and> implements do_work (world s) (Map.empty, []) s')"
proof -
  let ?out = "init_listensocket prt psa ja after Accept_conn s"
  have t: "table_ok s" "active s = {}" and none: "\<forall>d v k. interest s d \<noteq> Some (v, Ptr k)"
    using idle by (simp_all add: idle_def)
  have len: "length (g_events s) = MAX_EVENTS + 1" and mem: "mem_ok s" "live s = {}"
    using t by (auto simp: table_ok_def slot_blocks_def)
  have start: "implements do_work (world s) (Map.empty, []) s'"
    if m: "mem_ok s' = mem_ok s" "live s' = live s"
      and e: "length (g_events s') = MAX_EVENTS + 1" "\<forall>i < MAX_EVENTS. g_events s' ! i = g_events s ! i"
      and i: "\<forall>d v k. interest s' d = Some (v, Ptr k) \<longrightarrow> k = MAX_EVENTS \<and> call_back (g_events s' ! MAX_EVENTS) = Accept_conn"
      and f: "world s' = world s" "accept_env s' = accept_env s" "malloc_left s' = malloc_left s"
    for s' :: "('w, 'z) server_state_scheme"
  proof -
    have act: "active s' = {}" using t(2) e(2) by (auto simp: active_def)
    have "table_ok s'" unfolding table_ok_def using m mem e(1) i act by (simp add: slot_blocks_def)
    moreover have "\<forall>d v. interest s' d = Some (v, Ptr MAX_EVENTS) \<longrightarrow> call_back (g_events s' ! MAX_EVENTS) = Accept_conn"
      using i by blast
    ultimately have "serving s' Map.empty" using act by (simp add: serving_def)
    then show ?thesis using f left by (simp add: implements_def memory_due_def)
  qed
  show ?thesis
  proof (cases "sys_socket s")
    case (Inl f)
    then have "f = Stuck" by (auto simp: sys_socket_def split: list.splits if_splits)
    then show ?thesis using Inl by (simp add: init_listensocket_def)
  next
    case (Inr q)
    obtain sk outs where sk: "q = (sk, s\<lparr>socket_env := outs\<rparr>)" "interest s (so_fd sk) = None"
      using Inr by (auto simp: sys_socket_def split: list.splits if_splits)
    define s1 where "s1 = s\<lparr>socket_env := outs\<rparr>"
    have sock: "sys_socket s = Inr (sk, s1)" using Inr sk by (simp add: s1_def)
    note run = init_listensocket_def sock
    consider "malloc_conn s1 = Inl Stuck" | cm where "malloc_conn s1 = Inr (Null, s1\<lparr>conn_mem := cm\<rparr>)"
      | p c cm where "malloc_conn s1 = Inr (p, set_conn p c (s1\<lparr>conn_mem := cm, clinks := (clinks s1)(p \<mapsto> \<lparr>nxt = Null, prev = Null\<rparr>)\<rparr>))"
        "p \<noteq> Null"
      using malloc_conn_shape [of s1] by blast
    then show ?thesis
    proof cases
      case 1
      then show ?thesis by (simp add: run)
    next
      case 2
      let ?s = "s1\<lparr>conn_mem := cm\<rparr>"
      have "mem_ok ?s = mem_ok s" "live ?s = live s" unfolding s1_def by (rule mem_fields_cong; simp)+
      then have "implements do_work (world s) (Map.empty, []) ?s"
        using len none by (intro start) (simp_all add: s1_def)
      then show ?thesis using 2 by (simp add: run)
    next
      case 3
      let ?e = "(g_events s ! MAX_EVENTS)\<lparr>ev_jc := p, ev_fd := so_fd sk, call_back := Accept_conn, ev_arg := MAX_EVENTS,
        last_active := time_now s, ev_events := EPOLLIN, ev_status := 1\<rparr>"
      define s2 where "s2 nc = s\<lparr>socket_env := outs, conn_mem := cm, clinks := (clinks s)(p \<mapsto> \<lparr>nxt = Null, prev = Null\<rparr>),
        jconns := (jconns s)(p \<mapsto> c\<lparr>jc_fd := so_fd sk\<rparr>), g_events := (g_events s)[MAX_EVENTS := ?e],
        interest := (interest s)(so_fd sk \<mapsto> (EPOLLIN, Ptr MAX_EVENTS)), net_calls := nc\<rparr>" for nc
      have "\<exists>s3. ?out = Inr s3 \<and> s3 = s2 (net_calls s3)"
        using len addr 3 sk(2)
        by (simp add: run s1_def s2_def set_conn_def get_conn_def eventset_def get_ev_def set_ev_def eventadd_def epoll_ctl_def
            Let_def time_now_def addr_mem_def)
      then obtain s3 where s3: "?out = Inr s3" "s3 = s2 (net_calls s3)" by (elim exE conjE)
      define nc where "nc = net_calls s3"
      have out: "?out = Inr (s2 nc)" unfolding nc_def by (rule trans [OF s3(1) arg_cong [where f = Inr, OF s3(2)]])
      have m: "mem_ok (s2 nc) = mem_ok s" "live (s2 nc) = live s" unfolding s2_def by (rule mem_fields_cong; simp)+
      have f: "length (g_events (s2 nc)) = MAX_EVENTS + 1" "\<forall>i < MAX_EVENTS. g_events (s2 nc) ! i = g_events s ! i"
        "\<forall>d v k. interest (s2 nc) d = Some (v, Ptr k) \<longrightarrow>
          k = MAX_EVENTS \<and> call_back (g_events (s2 nc) ! MAX_EVENTS) = Accept_conn"
        "world (s2 nc) = world s" "accept_env (s2 nc) = accept_env s" "malloc_left (s2 nc) = malloc_left s"
        using none len by (simp_all add: s2_def)
      have "implements do_work (world s) (Map.empty, []) (s2 nc)" by (rule start [OF m f])
      then show ?thesis using out by blast
    qed
  qed
qed

lemma main_loop_runs:
  fixes s :: "('w, 'z) server_state_scheme"
  assumes c: "fills_slots get_slot set_slot" and idle: "idle s"
    and addr: "length (inx_addr ja) = 16" "8 \<le> length after" and left: "8 * length (accept_env s) \<le> malloc_left s"
  shows "case main_rcv_loop get_slot set_slot do_work efd ja prt psa after ws s of
      Inl f \<Rightarrow> runs do_work (world s) (Map.empty, []) (Inl f :: ('w, 'z) server_state_scheme res)
    | Inr (go, s') \<Rightarrow> runs do_work (world s) (Map.empty, []) (Inr s')"
proof (cases "efd \<le> 0")
  case True
  have "implements do_work (world s) (Map.empty, []) s"
    using idle left by (simp add: implements_def serving_def idle_def memory_due_def)
  then show ?thesis using True runs_refl by (simp add: main_rcv_loop_def)
next
  case False
  note start = listen_starts [OF idle addr left, of prt psa do_work]
  show ?thesis
  proof (cases "init_listensocket prt psa ja after Accept_conn s")
    case (Inl f)
    then have "f = Stuck" using start by simp
    then show ?thesis using False Inl by (simp add: main_rcv_loop_def runs_def)
  next
    case (Inr s1)
    then have im: "implements do_work (world s) (Map.empty, []) s1" using start by simp
    note r = rounds_runs [OF c im, of 0 ws "time_now s1 + 10"]
    show ?thesis
    proof (cases "server_rounds get_slot set_slot do_work ws (0, time_now s1 + 10, s1)")
      case f: (Inl f)
      then show ?thesis using r False Inr by (simp add: main_rcv_loop_def)
    next
      case q: (Inr q)
      obtain go pos nt s2 where s2: "q = (go, pos, nt, s2)" by (cases q) auto
      have run: "runs do_work (world s) (Map.empty, []) (Inr s2)" using r q s2 by simp
      have close: "implements do_work w n (close_fd efd s2)" if "implements do_work w n s2" for w n
      proof -
        have m: "mem_ok (close_fd efd s2) = mem_ok s2" "live (close_fd efd s2) = live s2"
          "block_bytes (close_fd efd s2) = block_bytes s2" unfolding close_fd_def by (rule mem_fields_cong; simp)+
        show ?thesis by (rule implements_same [OF that m]) (simp_all add: close_fd_def)
      qed
      have "runs do_work (world s) (Map.empty, []) (Inr (close_fd efd s2))"
        using run close unfolding runs_def by (simp only: sum.case) blast
      then show ?thesis using run q s2 False Inr by (simp add: main_rcv_loop_def)
    qed
  qed
qed

section \<open>Read events in any order\<close>

text \<open>
  An event is a slot and what its \<open>read\<close> finds. Nothing is reported of a slot that is not in use.
\<close>

definition deliver ::
  "(byte list \<Rightarrow> 'w \<Rightarrow> 'w) \<Rightarrow> nat \<times> byte list outcome \<Rightarrow> ('w, 'z) server_state_scheme \<Rightarrow>
     ('w, 'z) server_state_scheme res" where
  "deliver do_work e s = (case e of (i, r) \<Rightarrow>
     if i < MAX_EVENTS \<and> ev_status (g_events s ! i) = 1 then next_read do_work (slot_fd s i) i r s else Inr s)"

fun serve_spec :: "(nat \<times> byte list outcome) list \<Rightarrow> net \<Rightarrow> net option" where
  "serve_spec [] n = Some n"
| "serve_spec ((i, r) # es) (\<sigma>, js) = (case \<sigma> i of
      None \<Rightarrow> serve_spec es (\<sigma>, js)
    | Some u \<Rightarrow> (case server_spec u (arrives 65536 r) of
        Crash \<Rightarrow> None
      | More v \<Rightarrow> serve_spec es (\<sigma>(i \<mapsto> v), js)
      | Reject \<Rightarrow> serve_spec es (\<sigma>(i := None), js)
      | Job m \<Rightarrow> serve_spec es (\<sigma>(i := None), js @ [m])))"

lemma deliver_step:
  fixes s :: "('w, 'z) server_state_scheme"
  assumes im: "implements do_work w (\<sigma>, js) s" and r: "r \<noteq> Error EINTR"
  shows "deliver do_work (i, r) s = Inl Assertion \<and> (\<exists>u. \<sigma> i = Some u \<and> server_spec u (arrives 65536 r) = Crash) \<or>
    (\<exists>\<sigma>' js' s'. deliver do_work (i, r) s = Inr s' \<and> implements do_work w (\<sigma>', js') s' \<and>
      (\<forall>es. serve_spec ((i, r) # es) (\<sigma>, js) = serve_spec es (\<sigma>', js')))"
proof -
  have sv: "serving s \<sigma>" "memory_due \<sigma> + 8 * length (accept_env s) \<le> malloc_left s"
    using im by (simp_all add: implements_def)
  have t: "table_ok s" "dom \<sigma> = active s" using sv(1) by (simp_all add: serving_def)
  show ?thesis
  proof (cases "\<sigma> i")
    case None
    then have "i \<notin> active s" using t(2) by blast
    then have "deliver do_work (i, r) s = Inr s" by (auto simp: deliver_def active_def)
    then show ?thesis using im None by auto
  next
    case (Some u)
    then have "i \<in> active s" using t(2) by blast
    then have run: "deliver do_work (i, r) s = next_read do_work (slot_fd s i) i r s" by (simp add: deliver_def active_def)
    have "session_at s i u" using sv(1) Some unfolding serving_def by blast
    moreover have "memory_for u \<le> malloc_left s" using memory_due_upd(2) [OF serving_finite [OF sv(1)] Some] sv(2) by simp
    ultimately have "waits_at (slot_fd s i) i s u" using t(1) by (simp add: waits_at_def)
    from next_read_follows [OF this r, of do_work, folded run]
    have f: "follows do_work s i (memory_for u) (server_spec u (arrives 65536 r)) (deliver do_work (i, r) s)" .
    show ?thesis
      using follows_net [OF im Some f] Some by (cases "server_spec u (arrives 65536 r)") auto
  qed
qed

lemma deliver_all:
  fixes s :: "('w, 'z) server_state_scheme"
  shows "implements do_work w n s \<Longrightarrow> \<forall>e \<in> set es. snd e \<noteq> Error EINTR \<Longrightarrow>
    (case serve_spec es n of
       None \<Rightarrow> each (deliver do_work) es s = Inl Assertion
     | Some n' \<Rightarrow> \<exists>s'. each (deliver do_work) es s = Inr s' \<and> implements do_work w n' s')"
proof (induction es arbitrary: n s)
  case Nil
  then show ?case by simp
next
  case (Cons e es)
  obtain i r \<sigma> js where e: "e = (i, r)" "n = (\<sigma>, js)" by (metis surj_pair)
  have r: "r \<noteq> Error EINTR" using Cons.prems(2) e by simp
  from deliver_step [OF Cons.prems(1) [unfolded e] r, of i] show ?case
  proof (elim disjE exE conjE)
    fix u
    assume "deliver do_work (i, r) s = Inl Assertion" "\<sigma> i = Some u" "server_spec u (arrives 65536 r) = Crash"
    then show ?thesis using e by simp
  next
    fix \<sigma>' js' s'
    assume s': "deliver do_work (i, r) s = Inr s'" "implements do_work w (\<sigma>', js') s'"
      "\<forall>es. serve_spec ((i, r) # es) (\<sigma>, js) = serve_spec es (\<sigma>', js')"
    have a: "serve_spec (e # es) n = serve_spec es (\<sigma>', js')" using s'(3) unfolding e by (rule spec)
    have b: "each (deliver do_work) (e # es) s = each (deliver do_work) es s'" using s'(1) e(1) by simp
    have "\<forall>e \<in> set es. snd e \<noteq> Error EINTR" using Cons.prems(2) by simp
    then show ?thesis unfolding a b by (rule Cons.IH [OF s'(2)])
  qed
qed

text \<open>One connection by itself: where its own events take it, and what they have worked on.\<close>

fun session_run :: "byte list outcome list \<Rightarrow> session \<Rightarrow> (session option \<times> byte list list) option" where
  "session_run [] u = Some (Some u, [])"
| "session_run (r # rs) u = (case server_spec u (arrives 65536 r) of
      Crash \<Rightarrow> None
    | More v \<Rightarrow> session_run rs v
    | Reject \<Rightarrow> Some (None, [])
    | Job m \<Rightarrow> Some (None, [m]))"

abbreviation (input) own :: "nat \<Rightarrow> (nat \<times> byte list outcome) list \<Rightarrow> byte list outcome list" where
  "own i es \<equiv> map snd (filter (\<lambda>e. fst e = i) es)"

lemma serve_spec_jobs: "serve_spec es (\<sigma>, js) = Some (\<sigma>', js') \<Longrightarrow> \<exists>ks. js' = js @ ks"
proof (induction es arbitrary: \<sigma> js)
  case (Cons e es)
  then show ?case by (cases e) (fastforce split: option.splits reaction.splits)
qed simp

lemma serve_spec_closed: "serve_spec es (\<sigma>, js) = Some (\<sigma>', js') \<Longrightarrow> \<sigma> i = None \<Longrightarrow> \<sigma>' i = None"
proof (induction es arbitrary: \<sigma> js)
  case (Cons e es)
  obtain k r where e: "e = (k, r)" by fastforce
  show ?case
  proof (cases "\<sigma> k")
    case None
    then show ?thesis using Cons e by simp
  next
    case (Some u)
    have k: "i \<noteq> k" using Some Cons.prems(2) by auto
    then have "(\<sigma>(k := v)) i = None" for v using Cons.prems(2) by simp
    then show ?thesis using Cons.IH Cons.prems(1) Some e by (simp split: reaction.splits)
  qed
qed simp

lemma serve_spec_own:
  "serve_spec es (\<sigma>, js) = Some (\<sigma>', js') \<Longrightarrow> \<sigma> i = Some u \<Longrightarrow>
    \<exists>ms ks. session_run (own i es) u = Some (\<sigma>' i, ms) \<and> js' = js @ ks \<and> set ms \<subseteq> set ks"
proof (induction es arbitrary: \<sigma> js u)
  case Nil
  then show ?case by simp
next
  case (Cons e es)
  obtain k r where e: "e = (k, r)" by fastforce
  show ?case
  proof (cases "k = i")
    case True
    show ?thesis
    proof (cases "server_spec u (arrives 65536 r)")
      case (More v)
      then show ?thesis using Cons e True by simp
    next
      case Reject
      then have run: "serve_spec es (\<sigma>(i := None), js) = Some (\<sigma>', js')" using Cons.prems e True by simp
      then show ?thesis using serve_spec_closed [OF run, of i] serve_spec_jobs [OF run] Reject e True by auto
    next
      case (Job m)
      then have run: "serve_spec es (\<sigma>(i := None), js @ [m]) = Some (\<sigma>', js')" using Cons.prems e True by simp
      then show ?thesis using serve_spec_closed [OF run, of i] serve_spec_jobs [OF run] Job e True by auto
    qed (use Cons.prems e True in simp)
  next
    case False
    then have upd: "(\<sigma>(k := v)) i = Some u" for v using Cons.prems(2) by simp
    have own: "own i (e # es) = own i es" using False e by simp
    show ?thesis
    proof (cases "\<sigma> k")
      case None
      then show ?thesis using Cons.IH [of \<sigma> js u] Cons.prems e own by simp
    next
      case (Some t)
      have ih: "\<exists>ms ks. session_run (own i es) u = Some (\<sigma>' i, ms) \<and> js' = js1 @ ks \<and> set ms \<subseteq> set ks"
        if "serve_spec es (\<sigma>(k := v), js1) = Some (\<sigma>', js')" for v js1
        using that upd by (rule Cons.IH)
      show ?thesis unfolding own
      proof (cases "server_spec t (arrives 65536 r)")
        case (Job m)
        then show "\<exists>ms ks. session_run (own i es) u = Some (\<sigma>' i, ms) \<and> js' = js @ ks \<and> set ms \<subseteq> set ks"
          using ih [of None "js @ [m]"] Cons.prems(1) Some e by fastforce
      qed (use ih Cons.prems(1) Some e in auto)
    qed
  qed
qed

section \<open>An interface for the slots\<close>

text \<open>
  The contract of \<open>get_slot\<close> and \<open>set_slot\<close> can be met with the functions of \<open>event.c\<close> as it is:
  \<open>evget\<close> for any free slot, and \<open>eventset\<close> for a new connection. Its location is one that no slot has.
\<close>

definition any_slot :: "('w, 'z) server_state_scheme old_evget" where
  "any_slot s = evget (- 1) s"

fun loc_nat :: "loc \<Rightarrow> nat" where
  "loc_nat (Heap n) = n"
| "loc_nat p = 0"

definition conn_slot :: "('w, 'z) server_state_scheme old_eventset" where
  "conn_slot ev fd p cb arg s =
     (let q = Heap (Suc (sum_list (map (\<lambda>e. loc_nat (ev_jc e)) (g_events s)))) in
      eventset ev q cb arg (set_conn q (junk_conn\<lparr>jc_fd := fd, jc_stream := p\<rparr>) s))"

lemma evget_from_first:
  assumes len: "length (g_events s) = MAX_EVENTS + 1" and k: "k < MAX_EVENTS" "ev_status (g_events s ! k) = 0"
  shows "i \<le> k \<Longrightarrow> \<forall>j. i \<le> j \<and> j < k \<longrightarrow> ev_status (g_events s ! j) \<noteq> 0 \<Longrightarrow> evget_from i (- 1) s = Inr (Some k)"
proof (induction "k - i" arbitrary: i)
  case 0
  then show ?case using k len by (subst evget_from.simps) (simp add: get_ev_ok)
next
  case (Suc n)
  then have i: "i < k" by simp
  have "evget_from (Suc i) (- 1) s = Inr (Some k)" using Suc i by (intro Suc.hyps(1)) simp_all
  then show ?case using Suc.prems(2) i k(1) len by (subst evget_from.simps) (simp add: get_ev_ok)
qed

lemma slots_filled: "fills_slots (any_slot :: ('w, 'z) server_state_scheme old_evget) conn_slot"
  unfolding fills_slots_def
proof (intro conjI allI impI)
  fix s :: "('w, 'z) server_state_scheme" and i
  assume "i < MAX_EVENTS \<and> length (g_events s) = MAX_EVENTS + 1 \<and> ev_status (g_events s ! i) = 0 \<and>
    (\<forall>j < i. ev_status (g_events s ! j) \<noteq> 0)"
  then show "any_slot s = Inr (Some i)" using evget_from_first [of s i 0] by (simp add: any_slot_def evget_def)
next
  fix s :: "('w, 'z) server_state_scheme" and i fd p
  assume a: "i < MAX_EVENTS \<and> length (g_events s) = MAX_EVENTS + 1 \<and> (\<forall>j \<in> active s. jconns s (slot_jc s j) \<noteq> None)"
  let ?m = "sum_list (map (\<lambda>e. loc_nat (ev_jc e)) (g_events s))"
  let ?q = "Heap (Suc ?m)" and ?c = "junk_conn\<lparr>jc_fd := fd, jc_stream := p\<rparr>"
  let ?e = "(g_events s ! i)\<lparr>ev_jc := ?q, ev_fd := fd, call_back := Data_transfer, ev_events := 0, ev_arg := i,
    ev_status := 0, last_active := time_now s\<rparr>"
  have fresh: "slot_jc s j \<noteq> ?q" if "j \<in> active s" for j
  proof
    assume q: "slot_jc s j = ?q"
    have "j < length (g_events s)" using that a by (auto simp: active_def)
    then have "loc_nat (slot_jc s j) \<in> set (map (\<lambda>e. loc_nat (ev_jc e)) (g_events s))" by simp
    from member_le_sum_list [OF this] show False using q by simp
  qed
  have "conn_slot (Some i) fd p Data_transfer (Some i) s =
      Inr (s\<lparr>g_events := (g_events s)[i := ?e], jconns := (jconns s)(?q \<mapsto> ?c), clinks := clinks s, conn_mem := conn_mem s\<rparr>)"
    using a by (simp add: conn_slot_def eventset_def get_conn_def get_ev_def set_ev_def set_conn_def time_now_def Let_def)
  moreover have "ev_fd ?e = fd \<and> call_back ?e = Data_transfer \<and> ev_arg ?e = i \<and> ev_status ?e = 0 \<and> ev_jc ?e = ?q \<and>
      jc_fd ?c = fd \<and> jc_stream ?c = p \<and> ?q \<noteq> Null \<and> (\<forall>j \<in> active s. slot_jc s j \<noteq> ?q)" using fresh by simp
  ultimately show "conn_slot (Some i) fd p Data_transfer (Some i) s = Inl Stuck \<or>
      (\<exists>e q c cl cm. conn_slot (Some i) fd p Data_transfer (Some i) s =
          Inr (s\<lparr>g_events := (g_events s)[i := e], jconns := (jconns s)(q \<mapsto> c), clinks := cl, conn_mem := cm\<rparr>) \<and>
        ev_fd e = fd \<and> call_back e = Data_transfer \<and> ev_arg e = i \<and> ev_status e = 0 \<and> ev_jc e = q \<and>
        jc_fd c = fd \<and> jc_stream c = p \<and> q \<noteq> Null \<and> (\<forall>j \<in> active s. slot_jc s j \<noteq> q))" by blast
qed

section \<open>Two connections\<close>

lemma boot_idle:
  fixes so :: "socket_outcome list" and cm :: "(loc \<times> jconnect) list" and ac :: "accept_outcome list"
  obtains s :: "byte list list server_state" where "idle s" and "malloc_left s = n" and "active s = {}"
    and "interest s = (\<lambda>_. None)" and "\<forall>i < MAX_EVENTS. ev_status (g_events s ! i) = 0" and "world s = []"
    and "closed_fds s = []" and "jconns s = (\<lambda>_. None)" and "clinks s (Heap 0) = None"
    and "socket_env s = so" and "conn_mem s = cm" and "accept_env s = ac"
proof -
  obtain s :: "byte list list server_state" where s: "client_ok s" "malloc_left s = n" "active s = {}"
    "interest s = (\<lambda>_. None)" "jconns s = (\<lambda>_. None)" "clinks s (Heap 0) = None" "closed_fds s = []" "world s = []"
    "\<forall>i < MAX_EVENTS. ev_status (g_events s ! i) = 0" using boot_server [of n] by blast
  let ?s = "s\<lparr>socket_env := so, conn_mem := cm, accept_env := ac\<rparr>"
  have m: "mem_ok ?s = mem_ok s" "live ?s = live s" "block_bytes ?s = block_bytes s" by (rule mem_fields_cong; simp)+
  have f: "bufs ?s = bufs s" "streams ?s = streams s" "jconns ?s = jconns s" "g_events ?s = g_events s"
    "interest ?s = interest s" by simp_all
  note c = table_cong [OF m f]
  have "idle ?s" using s(1,3,4) c(1,4) by (simp add: idle_def client_ok_def)
  then show thesis using s c(1) by (intro that [of ?s]) simp_all
qed

lemma two_connections:
  "\<exists>s s1 s2 :: byte list list server_state. accept_conn any_slot conn_slot 3 True False MAX_EVENTS s = Inr s1 \<and>
    accept_conn any_slot conn_slot 3 True False MAX_EVENTS s1 = Inr s2 \<and>
    implements note_work [] ([0 \<mapsto> Waiting, 1 \<mapsto> Waiting], []) s2 \<and> closed_fds s2 = []"
proof -
  let ?a = "\<lambda>d. \<lparr>ac_fd = d, ac_setfl = 0\<rparr> :: accept_outcome"
  obtain s :: "byte list list server_state" where s: "idle s" "malloc_left s = 16" "active s = {}" "interest s = (\<lambda>_. None)"
    "\<forall>i < MAX_EVENTS. ev_status (g_events s ! i) = 0" "world s = []" "closed_fds s = []" "accept_env s = [?a 7, ?a 8]"
    by (rule boot_idle [of 16 _ _ "[?a 7, ?a 8]"]) blast
  have t: "table_ok s" using s(1) by (simp add: idle_def)
  have im: "implements note_work [] (Map.empty, []) s"
    using s t by (simp add: implements_def serving_def memory_due_def)
  have never: "conn_slot (Some k) fd p Data_transfer (Some k) t \<noteq> Inl Stuck" for k fd p and t :: "byte list list server_state"
    by (simp add: conn_slot_def Let_def eventset_def get_conn_def set_conn_def get_ev_def accessE_def)
  have st: "ev_status (g_events s ! 0) = 0" "ev_status (g_events s ! 1) = 0" using s(5) by simp_all
  have c: "0 \<le> ac_fd (?a 7)" "interest s (ac_fd (?a 7)) = None" "0 \<le> ac_setfl (?a 7)" "(0::nat) < MAX_EVENTS"
    "\<forall>j < 0. ev_status (g_events s ! j) \<noteq> 0" "5 \<le> malloc_left s" using s(2,4) by simp_all
  obtain s1 where s1: "accept_conn any_slot conn_slot 3 True False MAX_EVENTS s = Inr s1" "opened s s1 0 (ac_fd (?a 7))"
    using accept_opens [OF slots_filled t s(8) c(1-4) st(1) c(5,6), of 3 True False MAX_EVENTS] never by blast
  then have s1: "accept_conn any_slot conn_slot 3 True False MAX_EVENTS s = Inr s1" "opened s s1 0 7" by simp_all
  have im1: "implements note_work [] ([0 \<mapsto> Waiting], []) s1"
    using opened_implements [OF im _ st(1) _ s1(2)] s(8) by simp
  have o1: "table_ok s1" "active s1 = {0}" "g_events s1 ! 1 = g_events s ! 1" "interest s1 = (\<lambda>_. None)(7 \<mapsto> (EPOLLIN, Ptr 0))"
    "accept_env s1 = [?a 8]" "closed_fds s1 = []" "11 \<le> malloc_left s1"
    using s1(2) s by (simp_all add: opened_def others_same_def)
  have "0 \<in> active s1" using o1(2) by simp
  then have "ev_status (g_events s1 ! 0) \<noteq> 0" by (simp add: active_def)
  then have st1: "ev_status (g_events s1 ! 1) = 0" "\<forall>j < 1. ev_status (g_events s1 ! j) \<noteq> 0"
    using o1(3) st(2) by simp_all
  have d: "0 \<le> ac_fd (?a 8)" "interest s1 (ac_fd (?a 8)) = None" "0 \<le> ac_setfl (?a 8)" "(1::nat) < MAX_EVENTS"
    "5 \<le> malloc_left s1" using o1(4,7) by simp_all
  obtain s2 where "accept_conn any_slot conn_slot 3 True False MAX_EVENTS s1 = Inr s2" "opened s1 s2 1 (ac_fd (?a 8))"
    using accept_opens [OF slots_filled o1(1,5) d(1-4) st1 d(5), of 3 True False MAX_EVENTS] never by blast
  then have s2: "accept_conn any_slot conn_slot 3 True False MAX_EVENTS s1 = Inr s2" "opened s1 s2 1 8" by simp_all
  have "implements note_work [] ([0 \<mapsto> Waiting, 1 \<mapsto> Waiting], []) s2"
    using opened_implements [OF im1 _ st1(1) _ s2(2)] o1(5) by simp
  moreover have "closed_fds s2 = []" using s2(2) o1(6) by (simp add: opened_def)
  ultimately show ?thesis using s1(1) s2(1) by blast
qed

section \<open>Properties\<close>


text \<open>
  C7. Connections do not disturb each other. Read events of any connections, in any order, take the
  server exactly where the machines go, each one with its own events: the process aborts if and
  only if a machine crashes, and the messages are worked on in the order in which they are completed.
\<close>
theorem server_interleaves:
  fixes s :: "('w, 'z) server_state_scheme"
  assumes "serving s \<sigma>" and "memory_due \<sigma> + 8 * length (accept_env s) \<le> malloc_left s"
    and "\<forall>e \<in> set es. snd e \<noteq> Error EINTR"
  shows "case serve_spec es (\<sigma>, []) of
      None \<Rightarrow> each (deliver do_work) es s = Inl Assertion
    | Some (\<sigma>', js) \<Rightarrow> \<exists>s'. each (deliver do_work) es s = Inr s' \<and> serving s' \<sigma>' \<and> world s' = fold do_work js (world s)"
proof -
  have "implements do_work (world s) (\<sigma>, []) s" using assms(1,2) by (simp add: implements_def)
  from deliver_all [OF this assms(3)] show ?thesis by (auto simp: implements_def split: option.splits)
qed

text \<open>
  C8. What becomes of a connection depends on its own events only. When the process survives a
  sequence of read events, each connection is where its own events, taken by themselves, take the
  machine, still open in that state or closed, and the message it has completed has been worked on.
\<close>
theorem server_isolates:
  fixes s :: "('w, 'z) server_state_scheme"
  assumes "serving s \<sigma>" and "memory_due \<sigma> + 8 * length (accept_env s) \<le> malloc_left s"
    and "\<forall>e \<in> set es. snd e \<noteq> Error EINTR" and "each (deliver do_work) es s = Inr s'" and "\<sigma> i = Some u"
  shows "\<exists>v ms js. session_run (own i es) u = Some (v, ms) \<and> (case v of None \<Rightarrow> i \<notin> active s' | Some v \<Rightarrow> session_at s' i v) \<and>
    world s' = fold do_work js (world s) \<and> set ms \<subseteq> set js"
proof -
  have "implements do_work (world s) (\<sigma>, []) s" using assms(1,2) by (simp add: implements_def)
  from deliver_all [OF this assms(3)] assms(4) obtain \<sigma>' js where
    n: "serve_spec es (\<sigma>, []) = Some (\<sigma>', js)" "implements do_work (world s) (\<sigma>', js) s'" by (auto split: option.splits)
  have sv: "serving s' \<sigma>'" "world s' = fold do_work js (world s)" using n(2) by (simp_all add: implements_def)
  obtain ms where ms: "session_run (own i es) u = Some (\<sigma>' i, ms)" "set ms \<subseteq> set js"
    using serve_spec_own [OF n(1) assms(5)] by auto
  have "dom \<sigma>' = active s'" "\<forall>v. \<sigma>' i = Some v \<longrightarrow> session_at s' i v" using sv(1) unfolding serving_def by blast+
  then have "case \<sigma>' i of None \<Rightarrow> i \<notin> active s' | Some v \<Rightarrow> session_at s' i v" by (auto split: option.splits)
  then show ?thesis using ms sv(2) by blast
qed


text \<open>
  C13. When all slots are in use, or the descriptor cannot be made non-blocking, \<open>accept_conn\<close> does
  nothing more: the descriptor that \<open>accept\<close> has opened is neither registered nor closed, so it is lost.
\<close>
theorem accept_conn_leaks:
  fixes s :: "('w, 'z) server_state_scheme"
  assumes "length (g_events s) = MAX_EVENTS + 1" and "accept_env s = out # outs" and "0 \<le> ac_fd out"
    and "interest s (ac_fd out) = None" and "(\<forall>i < MAX_EVENTS. ev_status (g_events s ! i) \<noteq> 0) \<or> ac_setfl out < 0"
  shows "\<exists>s'. accept_conn get_slot set_slot lfd re we arg s = Inr s' \<and> interest s' (ac_fd out) = None \<and>
    closed_fds s' = closed_fds s \<and> g_events s' = g_events s \<and> accept_env s' = outs"
  using accept_drops [OF assms, of get_slot set_slot lfd re we arg] assms(4) by simp

section \<open>Witnesses\<close>


text \<open>Two peers send messages at the same time.\<close>

abbreviation (input) two_peers :: "(nat \<times> byte list outcome) list" where
  "two_peers \<equiv> [(1, Done [3, 0, 0, 0, 0, 0, 0, 0, 104]), (0, Done [2, 0, 0, 0, 0, 0, 0, 0]), (1, Done [97]),
     (0, Done [111, 107]), (1, Error EAGAIN), (1, Done [108])]"

theorem server_interleaves_witness:
  "\<exists>(s :: byte list list server_state) s'. serving s [0 \<mapsto> Waiting, 1 \<mapsto> Waiting] \<and>
    each (deliver note_work) two_peers s = Inr s' \<and> serving s' Map.empty \<and> world s' = [[111, 107], [104, 97, 108]]"
proof -
  obtain s :: "byte list list server_state" where s: "implements note_work [] ([0 \<mapsto> Waiting, 1 \<mapsto> Waiting], []) s"
    using two_connections by blast
  then have i: "serving s [0 \<mapsto> Waiting, 1 \<mapsto> Waiting]" "world s = []"
    "memory_due [0 \<mapsto> Waiting, 1 \<mapsto> Waiting] + 8 * length (accept_env s) \<le> malloc_left s" by (simp_all add: implements_def)
  have e: "\<forall>e \<in> set two_peers. snd e \<noteq> Error EINTR" by simp
  have "serve_spec two_peers ([0 \<mapsto> Waiting, 1 \<mapsto> Waiting], []) = Some (Map.empty, [[111, 107], [104, 97, 108]])"
    by (simp add: message_part_def fun_eq_iff)
  from server_interleaves [OF i(1,3) e, of note_work, unfolded this i(2)] show ?thesis using i(1) by auto
qed

theorem server_isolates_witness:
  "\<exists>(s :: byte list list server_state) s' v ms js. each (deliver note_work) two_peers s = Inr s' \<and>
    session_run (own 1 two_peers) Waiting = Some (v, ms) \<and> v = None \<and> ms = [[104, 97, 108]] \<and> 1 \<notin> active s' \<and>
    world s' = fold note_work js [] \<and> [104, 97, 108] \<in> set js"
proof -
  let ?n = "[0 \<mapsto> Waiting, 1 \<mapsto> Waiting]"
  obtain s :: "byte list list server_state" where s: "implements note_work [] (?n, []) s" using two_connections by blast
  then have i: "serving s ?n" "world s = []" "memory_due ?n + 8 * length (accept_env s) \<le> malloc_left s"
    by (simp_all add: implements_def)
  have e: "\<forall>e \<in> set two_peers. snd e \<noteq> Error EINTR" by simp
  have "serve_spec two_peers (?n, []) = Some (Map.empty, [[111, 107], [104, 97, 108]])"
    by (simp add: message_part_def fun_eq_iff)
  then obtain s' where s': "each (deliver note_work) two_peers s = Inr s'" using deliver_all [OF s e] by auto
  have own: "session_run (own 1 two_peers) Waiting = Some (None, [[104, 97, 108]])" by (simp add: message_part_def)
  have "?n 1 = Some Waiting" by simp
  from server_isolates [OF i(1,3) e s' this, unfolded own i(2)] obtain js where
    "1 \<notin> active s'" "world s' = fold note_work js []" "[104, 97, 108] \<in> set js" by auto
  then show ?thesis using s' own by blast
qed


theorem accept_conn_leaks_witness:
  "\<exists>s s' :: byte list list server_state. accept_conn any_slot conn_slot 3 True False MAX_EVENTS s = Inr s' \<and>
    accept_env s = [\<lparr>ac_fd = 7, ac_setfl = - 1\<rparr>] \<and> accept_env s' = [] \<and> interest s' 7 = None \<and> closed_fds s' = []"
proof -
  let ?a = "\<lparr>ac_fd = 7, ac_setfl = - 1\<rparr> :: accept_outcome"
  obtain s :: "byte list list server_state" where s: "idle s" "interest s = (\<lambda>_. None)" "closed_fds s = []" "accept_env s = [?a]"
    by (rule boot_idle [of 8 "[]" "[]" "[?a]"]) blast
  have c: "length (g_events s) = MAX_EVENTS + 1" "0 \<le> ac_fd ?a" "interest s (ac_fd ?a) = None"
    "(\<forall>i < MAX_EVENTS. ev_status (g_events s ! i) \<noteq> 0) \<or> ac_setfl ?a < 0"
    using s(1,2) by (simp_all add: idle_def table_ok_def)
  from accept_conn_leaks [OF c(1) s(4) c(2-4), of any_slot conn_slot 3 True False MAX_EVENTS] obtain s' where
    "accept_conn any_slot conn_slot 3 True False MAX_EVENTS s = Inr s'" "interest s' 7 = None" "closed_fds s' = []"
    "accept_env s' = []" using s(3) by auto
  then show ?thesis using s(4) by blast
qed

end
