(* ===== verification/Spec2Isabelle.thy ===== *)
theory Spec2Isabelle
  imports Prelude Dlist Mem Buf Ip Connection Stream Event Comm Client Transaction Fastlz Decompress Compress
    Server Receive Delivery Serving Loop
begin

text \<open>
  Verification of jujube, a small network library in C with a benchmark client and a server that
  speak a simple protocol (eight bytes of length, then the message) over \<open>epoll\<close>.

  \<^bold>\<open>The program.\<close> \<open>main\<close> of \<open>client.c\<close> sets up the connection pool (\<open>connection.c\<close>), the allocator
  (\<open>mem.c\<close>) and the event table (\<open>event.c\<close>). Once a second its loop makes a transaction:
  \<open>create_transaction\<close> takes a connection from the pool or opens a socket (\<open>comm.c\<close>, after
  \<open>ip.c\<close> has parsed the address), makes a stream with the frame in its send buffer (\<open>stream.c\<close> on
  \<open>buf.c\<close> on \<open>mem.c\<close>) and registers both in a slot of the table. The call backs of the slot
  (\<open>connect_cb\<close>, \<open>data_transfer\<close>, \<open>keepalive_cb\<close>) send the frame and release what was made; a sweep
  closes slots that were idle for ten seconds. \<open>list.h\<close> links the blocks of the allocator and the
  connections of the pool. \<open>server.c\<close> is the other end of the protocol. \<open>fastlz.c\<close> is a compressor
  for the messages; the build contains it, the client calls it in code that is switched off.

  \<^bold>\<open>Conventions.\<close> \<open>Prelude\<close>: a function that can fail returns \<open>'a res\<close>, \<open>Inl\<close> of a fault (a failed
  \<open>assert\<close>, an access to memory that is not live or outside its block, a value that no \<open>return\<close> has
  set) or \<open>Inr\<close> of its result; the errors the code returns (-1, NULL) are results. The state is
  passed explicitly, as a record that each component extends: \<open>mem_state\<close>, \<open>buf_state\<close>,
  \<open>conn_state\<close>, \<open>stream_state\<close>, \<open>event_state\<close>, \<open>comm_state\<close>, and on top of it \<open>client_state\<close>
  or \<open>server_state\<close>; operations are polymorphic in the rest of the record. \<open>size_t\<close>,
  \<open>uint64_t\<close> and \<open>uint32_t\<close> are words and wrap; \<open>int64_t\<close> and descriptors are integers, converted
  where the code mixes them with unsigned ones. An object in a block of the allocator (a stream, a
  buffer) is a typed view of that block, and access to it requires that the block is live.

  \<^bold>\<open>The outside world.\<close> System calls are scripts in the state, one outcome for each call: what
  \<open>read\<close> and \<open>write\<close> do, what \<open>socket\<close>, \<open>fcntl\<close> and \<open>connect\<close> answer, how many blocks \<open>malloc\<close> still
  has, the clock, the events that \<open>epoll_wait\<close> reports. All theorems hold for every script. A loop that
  asks for more than the script has ends with the fault \<open>Stuck\<close>, which stands for waiting on; every
  round of such a loop takes one outcome, so the loops are total functions and no fuel is chosen. A loop
  over a list of the program that could be cyclic is a \<open>partial_function\<close>, and that it ends is
  proved. \<open>inet_pton\<close> and \<open>do_work\<close> are parameters, and so are the two functions through which
  \<open>accept_conn\<close> fills a slot: they have the signatures of an older \<open>event.h\<close>, which the repository does not
  have. What they must do is \<open>fills_slots\<close>; \<open>any_slot\<close> and \<open>conn_slot\<close>, made from \<open>evget\<close> and \<open>eventset\<close>
  of \<open>event.c\<close>, satisfy it.

  \<^bold>\<open>Theories.\<close>
  \<open>Dlist\<close> (\<open>list.h\<close>): the pointer writes of each operation on a store; they refine insertion in,
  removal from and traversal of HOL lists. The locale \<open>ring_store\<close> is what the users of lists need.
  \<open>Mem\<close> (\<open>mem.c\<close>, \<open>mem.h\<close>): all operations of the allocator; the representation invariant \<open>mem_rep\<close>
  relates pools, statistics and blocks to lists; allocation and release refine the allocator on these
  lists, on every branch; any run of legal calls stays consistent; \<open>mem_realloc\<close> and the statistics with
  their flaws. The locale \<open>byte_store\<close> is the promise to the users of memory.
  \<open>Buf\<close> (\<open>buf.c\<close>): a buffer is a queue of bytes (locale \<open>byte_queue\<close>), it grows when it must.
  \<open>Ip\<close> (\<open>ip.c\<close>): parsing of addresses, round trip with their text, classification of hosts, where
  the parser leaves its string.
  \<open>Connection\<close> (\<open>connection.c\<close>): the pool is a queue of live connections (locale \<open>conn_pool\<close>), and
  every descriptor is accounted for in every run.
  \<open>Stream\<close> (\<open>stream.c\<close>): sending and receiving lose, repeat and reorder nothing; making and
  releasing a stream leaks nothing.
  \<open>Event\<close> (\<open>event.c\<close>): the table, its invariant \<open>table_ok\<close> (every slot in use has a connection, a stream
  and a registration that agree, and blocks of its own), the steps on one slot, the sweep.
  \<open>Comm\<close> (\<open>comm.c\<close>): the bytes handed to \<open>connect\<close> over IPv4, and why IPv6 cannot connect.
  \<open>Client\<close> and \<open>Transaction\<close> (\<open>client.c\<close>): every function, from the call backs to \<open>main\<close>. Each call
  back keeps the invariant \<open>client_ok\<close> and fails nowhere; a transaction sends exactly its frame; \<open>main\<close> stays
  consistent from the loaded program on.
  \<open>Server\<close>, \<open>Receive\<close> and \<open>Delivery\<close> (\<open>server.c\<close>): \<open>data_transfer\<close> with what it calls; it implements a
  machine of four states (\<open>server_spec\<close>); what follows for a sequence of events is proved once for
  any handler that follows the machine (locale \<open>frame_server\<close>): a message arrives in whatever pieces,
  and which pieces abort the server. The frame of the client makes the server do its work.
  \<open>Serving\<close> and \<open>Loop\<close> (\<open>server.c\<close>): \<open>accept_conn\<close>, \<open>main_rcv_loop\<close> and the events of many connections.
  An abstract server is a family of such machines, one for each slot in use, with the list of the
  messages that have been worked on; its steps are the relation \<open>net_step\<close>. \<open>implements\<close> relates it to the
  state of the code: \<open>table_ok\<close>, each connection in the state of its machine, the work done, and the memory
  that is still due. Every event, the sweep and a new connection are steps of the abstract server, hence
  the loop is. For read events there is more: the functions \<open>serve_spec\<close> and \<open>session_run\<close> say exactly
  what any interleaving of them does, for the server and for one connection by itself.
  \<open>Fastlz\<close>, \<open>Decompress\<close> and \<open>Compress\<close> (\<open>fastlz.c\<close>): both levels of the compressor and the decompressor,
  byte by byte. The decompressor computes the meaning of the compressed format (literals and back
  references), and is safe for its output on corrupted input. The compressor keeps an invariant that
  ties its output to the input read so far; hence the round trip, the bound on the size of the
  output (\<open>n + n div 32 + 1\<close> bytes) and that it stays inside its buffers.

  \<^bold>\<open>What the theorems show to be wrong.\<close> The client sends 512 bytes whatever the length of the
  message, most of them old memory. IPv6 addresses never connect. \<open>mem_realloc\<close> of a block
  from a pool loses its contents. The statistics overflow a buffer of one byte. The parser of dotted
  addresses reads and writes outside its string. The count of connections drifts. One peer can abort
  the server with a short first segment, and a full table makes it lose descriptors. The decompressor
  reads behind the end of truncated input.

  \<^bold>\<open>Bounds.\<close> The theorems about streams assume buffers below 2 ^ 63 bytes, which all objects of the
  machine are, the round trip of the compressor inputs below 2 ^ 31 bytes, the range of its parameter. Where
  a result needs memory, the number of blocks that \<open>malloc\<close> must still have is a hypothesis: five for a
  stream, three for the message of a server connection, so eight for each connection that a server accepts.

  \<^bold>\<open>Not modelled.\<close> The mutexes: the program has one thread. The macros of \<open>nglog_log_entry.h\<close> are empty. Code under \<open>#if 0\<close>, output by \<open>printf\<close> (except
  where its bytes are stored in a buffer), \<open>signal\<close>, and the fields and declarations that no code uses
  (\<open>buf_chain_t\<close>, \<open>client_addr\<close>). \<open>container_of\<close> is a cast: a node and the
  object it is part of have the same name in the model.
\<close>

end
